(* ===== verification/Vm_Prelude.thy ===== *)
theory Vm_Prelude
  imports Main "HOL-Library.Word" "HOL-Library.Multiset" "HOL-Library.Signed_Division"
begin

text \<open>
  Shared vocabulary of the viamillipede development: machine types, the ways a
  process can stop (as values), a small error bind, little-endian words in byte
  buffers, and generic step systems (reachability, invariants, stuttering
  simulation) that the concurrent parts instantiate.
\<close>

unbundle bit_operations_syntax

named_theorems res_iff \<open>inversion rules for computations that return normally\<close>
named_theorems vm_defs \<open>definitions the component proofs unfold together\<close>

type_synonym byte = "8 word"
type_synonym u16 = "16 word"
type_synonym u32 = "32 word"
type_synonym u64 = "64 word"
type_synonym errno = int

section \<open>Faults\<close>

text \<open>
  The program stops abnormally in a few ways: \<^verbatim>\<open>exit(n)\<close>, a failed \<^verbatim>\<open>assert\<close>
  (\<open>Abort\<close>), an access outside an array (\<open>Segv\<close>), an integer division by zero
  (\<open>Fpe\<close>), a thread that waits forever for a lock it already holds (\<open>Deadlock\<close>)
  and \<^verbatim>\<open>pthread_exit\<close>, which ends one thread only.
\<close>

datatype fault = Exit int | Abort | Segv | Fpe | Deadlock | Pthread_exit

type_synonym 'a res = "fault + 'a"

text \<open>FreeBSD's number for "programming error", the status of the code's \<^verbatim>\<open>exit(EDOOFUS)\<close>.\<close>

definition EDOOFUS :: int where "EDOOFUS = 88"

definition bindE :: "'a res \<Rightarrow> ('a \<Rightarrow> 'b res) \<Rightarrow> 'b res" where
  "bindE m f = (case m of Inl e \<Rightarrow> Inl e | Inr x \<Rightarrow> f x)"

definition assertE :: "bool \<Rightarrow> unit res" where
  "assertE b = (if b then Inr () else Inl Abort)"

lemma bindE_simps [simp]: "bindE (Inl e) f = Inl e" "bindE (Inr x) f = f x"
  by (simp_all add: bindE_def)

lemma assertE_simps [simp]: "assertE True = Inr ()" "assertE False = Inl Abort"
  by (simp_all add: assertE_def)

lemma bindE_Inr_iff [res_iff]: "bindE m f = Inr y \<longleftrightarrow> (\<exists>x. m = Inr x \<and> f x = Inr y)"
  by (cases m) auto

lemma bindE_Inl_iff: "bindE m f = Inl e \<longleftrightarrow> m = Inl e \<or> (\<exists>x. m = Inr x \<and> f x = Inl e)"
  by (cases m) auto

lemma assertE_Inr_iff [res_iff]: "assertE b = Inr u \<longleftrightarrow> b"
  by (simp add: assertE_def)

lemma assertE_Inl_iff: "assertE b = Inl e \<longleftrightarrow> \<not> b \<and> e = Abort"
  by (auto simp: assertE_def)

section \<open>Little-endian words in byte buffers\<close>

text \<open>
  The code casts byte buffers to \<^verbatim>\<open>unsigned long *\<close> and writes structs to sockets
  as they lie in memory. The model fixes a 64-bit little-endian machine (amd64,
  the platform of the \<^verbatim>\<open>bsd.prog.mk\<close> build).
\<close>

primrec le_bytes :: "nat \<Rightarrow> u64 \<Rightarrow> byte list" where
  "le_bytes 0 w = []"
| "le_bytes (Suc n) w = ucast w # le_bytes n (drop_bit 8 w)"

primrec le_word :: "byte list \<Rightarrow> u64" where
  "le_word [] = 0"
| "le_word (b # bs) = ucast b OR push_bit 8 (le_word bs)"

definition load64 :: "byte list \<Rightarrow> nat \<Rightarrow> u64" where
  "load64 buf off = le_word (take 8 (drop off buf))"

definition overwrite :: "byte list \<Rightarrow> nat \<Rightarrow> byte list \<Rightarrow> byte list" where
  "overwrite buf off bs = take off buf @ bs @ drop (off + length bs) buf"

lemma length_le_bytes [simp]: "length (le_bytes n w) = n"
  by (induction n arbitrary: w) auto

lemma bit_u64_bound: "bit (w::u64) n \<Longrightarrow> n < 64"
  using bit_imp_le_length by fastforce

lemma le_word_le_bytes: "le_word (le_bytes n w) = take_bit (8 * n) w"
proof (induction n arbitrary: w)
  case 0
  then show ?case by simp
next
  case (Suc n)
  show ?case
    by (rule bit_eqI) (auto simp: Suc bit_simps)
qed

lemma le_word_le_bytes_8 [simp]: "le_word (le_bytes 8 w) = w"
  by (simp add: le_word_le_bytes take_bit_word_eq_self)

lemma load64_le_bytes [simp]: "load64 (le_bytes 8 w @ bs) 0 = w"
  by (simp add: load64_def)

lemma load64_append_left: "length xs \<le> off \<Longrightarrow> load64 (xs @ ys) off = load64 ys (off - length xs)"
  by (simp add: load64_def)

lemma length_overwrite [simp]:
  "off + length bs \<le> length buf \<Longrightarrow> length (overwrite buf off bs) = length buf"
  by (simp add: overwrite_def)

lemma overwrite_0: "overwrite buf 0 bs = bs @ drop (length bs) buf"
  by (simp add: overwrite_def)

lemma take_overwrite:
  "off + length bs \<le> length buf \<Longrightarrow>
   take (off + length bs) (overwrite buf off bs) = take off buf @ bs"
  by (simp add: overwrite_def)

lemma overwrite_overwrite:
  assumes "off \<le> length buf"
  shows "overwrite (overwrite buf off xs) (off + length xs) ys = overwrite buf off (xs @ ys)"
  using assms by (simp add: overwrite_def ac_simps)

section \<open>Lists and words\<close>

lemma unat_of_nat_u64: "n < 2 ^ 64 \<Longrightarrow> unat (of_nat n :: u64) = n"
  by (simp add: unat_of_nat take_bit_nat_eq_self)

lemma of_nat_u64_inj: "m < 2 ^ 64 \<Longrightarrow> n < 2 ^ 64 \<Longrightarrow> (of_nat m :: u64) = of_nat n \<longleftrightarrow> m = n"
  by (metis unat_of_nat_u64)

text \<open>Narrowing a 64-bit sum to 32 bits.\<close>

lemma ucast_add_u32: "(ucast (a + b :: u64) :: u32) = ucast a + ucast b"
proof (transfer, goal_cases)
  case (1 a b)
  have "take_bit 32 (take_bit 64 a + take_bit 64 b) =
      take_bit 32 (take_bit 32 (take_bit 64 a) + take_bit 32 (take_bit 64 b))"
    by (simp only: take_bit_add)
  then show ?case by (simp add: take_bit_add)
qed

lemma ucast_u32_u64_u32 [simp]: "(ucast (ucast (a::u32) :: u64) :: u32) = a"
  by transfer simp

lemma ucast_of_nat_u32 [simp]: "(ucast (of_nat n :: u64) :: u32) = of_nat n"
  by transfer simp

lemma concat_take_Suc: "n < length xs \<Longrightarrow> concat (take (Suc n) xs) = concat (take n xs) @ xs ! n"
  by (simp add: take_Suc_conv_app_nth)

lemma nth_list_update_map: "i < length xs \<Longrightarrow> map f (xs[i := x]) = (map f xs)[i := f x]"
  by (simp add: map_update)

lemma sum_change_at:
  fixes h h' :: "nat \<Rightarrow> 'a :: comm_monoid_add"
  assumes "i < n" "\<And>j. j < n \<Longrightarrow> j \<noteq> i \<Longrightarrow> h' j = h j"
  shows "(\<Sum>j<n. h' j) + h i = (\<Sum>j<n. h j) + h' i"
proof -
  have "(\<Sum>j \<in> {..<n} - {i}. h' j) = (\<Sum>j \<in> {..<n} - {i}. h j)"
    using assms by (intro sum.cong) auto
  moreover have "(\<Sum>j<n. g j) = g i + (\<Sum>j \<in> {..<n} - {i}. g j)" for g :: "nat \<Rightarrow> 'a"
    using assms(1) by (intro sum.remove) auto
  ultimately show ?thesis by (simp add: ac_simps)
qed

section \<open>Step systems\<close>

inductive reach :: "('s \<Rightarrow> bool) \<Rightarrow> ('s \<Rightarrow> 's \<Rightarrow> bool) \<Rightarrow> 's \<Rightarrow> bool" for I S where
  reach_init: "I s \<Longrightarrow> reach I S s"
| reach_step: "reach I S s \<Longrightarrow> S s t \<Longrightarrow> reach I S t"

text \<open>An inductive invariant holds in every reachable state.\<close>

locale invariant_system =
  fixes start :: "'s \<Rightarrow> bool"
    and move :: "'s \<Rightarrow> 's \<Rightarrow> bool"
    and inv :: "'s \<Rightarrow> bool"
  assumes inv_start: "start s \<Longrightarrow> inv s"
    and inv_move: "inv s \<Longrightarrow> move s t \<Longrightarrow> inv t"
begin

lemma reach_inv: "reach start move s \<Longrightarrow> inv s"
  by (induction rule: reach.induct) (auto intro: inv_start inv_move)

end

text \<open>
  A concrete system with an invariant simulates an abstract one through an
  abstraction function; a concrete step is matched by one abstract step or none.
\<close>

locale stuttering_refinement = invariant_system +
  fixes astart :: "'a \<Rightarrow> bool"
    and amove :: "'a \<Rightarrow> 'a \<Rightarrow> bool"
    and absf :: "'s \<Rightarrow> 'a"
  assumes abs_start: "start s \<Longrightarrow> astart (absf s)"
    and abs_move: "inv s \<Longrightarrow> move s t \<Longrightarrow> absf t = absf s \<or> amove (absf s) (absf t)"
begin

lemma reach_abs: "reach start move s \<Longrightarrow> reach astart amove (absf s)"
proof (induction rule: reach.induct)
  case (reach_init s)
  then show ?case by (intro reach.reach_init abs_start)
next
  case (reach_step s t)
  then have "inv s" by (intro reach_inv)
  with reach_step show ?case by (metis abs_move reach.reach_step)
qed

end

end
