(* ===== verification/Vm_Cfg.thy ===== *)
theory Vm_Cfg
  imports Vm_Prelude
begin

text \<open>
  The configuration header \<^verbatim>\<open>cfg.h\<close> and the build constants of \<^verbatim>\<open>util.h\<close>: limits,
  the bearer packet \<^verbatim>\<open>millipacket_s\<close> with its memory layout on the wire, and the
  state the transmitter, the receiver and the relay keep. Pointers back to a parent
  structure are left out: the parent is an argument where the code follows one.
  Mutexes appear where the code's use of them can block (theory \<open>Vm_Tx\<close>).
\<close>

section \<open>Limits\<close>

definition kfootsize :: nat where "kfootsize = 2048 * 1024"
definition kthreadmax :: nat where "kthreadmax = 16"
definition kreconnectlimit :: nat where "kreconnectlimit = 512"
definition maxbsize :: nat where "maxbsize = 16384"

lemma kfootsize_pos [simp]: "0 < kfootsize" by (simp add: kfootsize_def)
lemma maxbsize_pos [simp]: "0 < maxbsize" by (simp add: maxbsize_def)
lemma kfootsize_u64: "kfootsize < 2 ^ 64" by (simp add: kfootsize_def)

section \<open>The bearer channel header\<close>

definition preamble_cannon_ul :: u64 where "preamble_cannon_ul = 0xa5a5a5a55a5a5a5a"
definition feed_more :: u64 where "feed_more = 0xcafe"
definition end_of_millipede :: u64 where "end_of_millipede = 0xdead"

lemma opcodes_distinct [simp]: "feed_more \<noteq> end_of_millipede" "end_of_millipede \<noteq> feed_more"
  by (simp_all add: feed_more_def end_of_millipede_def)

record millipacket_s =
  preamble :: u64
  leg_id :: u64
  pkt_size :: u64
  checksum :: u64
  opcode :: u64

text \<open>
  The struct goes to the socket as its five 64-bit words lie in memory; a read into
  the struct takes them back. \<open>sizeof_millipacket\<close> is \<^verbatim>\<open>sizeof(struct millipacket_s)\<close>.
\<close>

definition sizeof_millipacket :: nat where "sizeof_millipacket = 40"

definition pkt_bytes :: "millipacket_s \<Rightarrow> byte list" where
  "pkt_bytes p = le_bytes 8 (preamble p) @ le_bytes 8 (leg_id p) @ le_bytes 8 (pkt_size p)
     @ le_bytes 8 (checksum p) @ le_bytes 8 (opcode p)"

definition pkt_of_bytes :: "byte list \<Rightarrow> millipacket_s" where
  "pkt_of_bytes bs = \<lparr>preamble = load64 bs 0, leg_id = load64 bs 8, pkt_size = load64 bs 16,
     checksum = load64 bs 24, opcode = load64 bs 32\<rparr>"

lemma length_pkt_bytes [simp]: "length (pkt_bytes p) = sizeof_millipacket"
  by (simp add: pkt_bytes_def sizeof_millipacket_def)

lemma pkt_of_bytes_pkt_bytes [simp]: "pkt_of_bytes (pkt_bytes p) = p"
  by (cases p) (simp add: pkt_of_bytes_def pkt_bytes_def load64_def)

text \<open>
  A wire format of fixed-width headers followed by as many payload bytes as the header
  announces. The law is the round trip; its clients cut a byte stream into frames.
\<close>

locale framed_wire =
  fixes enc :: "'h \<Rightarrow> byte list"
    and dec :: "byte list \<Rightarrow> 'h"
    and hlen :: nat
  assumes enc_length: "length (enc h) = hlen"
    and dec_enc: "dec (enc h) = h"
    and hlen_pos: "0 < hlen"
begin

lemma take_header: "take hlen (enc h @ bs) = enc h"
  by (simp add: enc_length)

lemma drop_header: "drop hlen (enc h @ bs) = bs"
  by (simp add: enc_length)

lemma dec_header: "dec (take hlen (enc h @ bs)) = h"
  unfolding take_header by (rule dec_enc)

lemma enc_inject: "enc h @ xs = enc h' @ ys \<longleftrightarrow> h = h' \<and> xs = ys"
  by (metis append_eq_append_conv enc_length dec_enc)

end

interpretation pktwire: framed_wire pkt_bytes pkt_of_bytes sizeof_millipacket
  by unfold_locales (simp_all add: sizeof_millipacket_def)

section \<open>Frames on a connection\<close>

text \<open>
  What one \<^verbatim>\<open>writev\<close> of the transmitter puts on a connection is a frame: the header's
  bytes and the payload. \<open>frames\<close> reads a connection's pending bytes back as frames,
  stopping at the first incomplete one.
\<close>

type_synonym frame = "millipacket_s \<times> byte list"

definition frame_bytes :: "frame \<Rightarrow> byte list" where
  "frame_bytes f = pkt_bytes (fst f) @ snd f"

definition wf_frame :: "frame \<Rightarrow> bool" where
  "wf_frame f \<longleftrightarrow> length (snd f) = unat (pkt_size (fst f))"

function frames :: "byte list \<Rightarrow> frame list" where
  "frames bs =
     (if length bs < sizeof_millipacket then []
      else let p = pkt_of_bytes (take sizeof_millipacket bs);
               n = unat (pkt_size p);
               body = drop sizeof_millipacket bs
           in if length body < n then [] else (p, take n body) # frames (drop n body))"
  by pat_completeness auto
termination
  by (relation "measure length") (auto simp: sizeof_millipacket_def)

declare frames.simps [simp del]

lemma frames_short: "length bs < sizeof_millipacket \<Longrightarrow> frames bs = []"
  by (simp add: frames.simps)

lemma frames_Nil [simp]: "frames [] = []"
  by (simp add: frames_short sizeof_millipacket_def)

lemma frames_frame_append [simp]:
  assumes "wf_frame f"
  shows "frames (frame_bytes f @ bs) = f # frames bs"
proof -
  have t: "take sizeof_millipacket (frame_bytes f @ bs) = pkt_bytes (fst f)"
    and d: "drop sizeof_millipacket (frame_bytes f @ bs) = snd f @ bs"
    by (simp_all only: frame_bytes_def append_assoc pktwire.take_header pktwire.drop_header)
  show ?thesis
    using assms by (subst frames.simps) (simp add: t d wf_frame_def Let_def frame_bytes_def)
qed

lemma frames_concat [simp]:
  "list_all wf_frame fs \<Longrightarrow> frames (concat (map frame_bytes fs) @ bs) = fs @ frames bs"
  by (induction fs) auto



text \<open>A byte string that is exactly a sequence of complete frames.\<close>

definition whole :: "byte list \<Rightarrow> bool" where
  "whole bs \<longleftrightarrow> concat (map frame_bytes (frames bs)) = bs \<and> list_all wf_frame (frames bs)"

lemma wholeI: "list_all wf_frame fs \<Longrightarrow> whole (concat (map frame_bytes fs))"
  using frames_concat [of fs "[]"] by (simp add: whole_def)

lemma whole_Nil [simp]: "whole []"
  by (simp add: whole_def)

lemma whole_snoc:
  assumes "whole bs" "wf_frame f"
  shows "frames (bs @ frame_bytes f) = frames bs @ [f]" and "whole (bs @ frame_bytes f)"
proof -
  let ?fs = "frames bs"
  from assms have bs: "bs = concat (map frame_bytes ?fs)" and wf: "list_all wf_frame (?fs @ [f])"
    by (simp_all add: whole_def)
  have cat: "bs @ frame_bytes f = concat (map frame_bytes (?fs @ [f]))"
    by (subst bs) simp
  show "whole (bs @ frame_bytes f)"
    unfolding cat using wf by (rule wholeI)
  show "frames (bs @ frame_bytes f) = ?fs @ [f]"
    unfolding cat using frames_concat [OF wf, of "[]"] by simp
qed

lemma whole_nonempty:
  assumes "whole bs" "bs \<noteq> []"
  obtains f fs where "frames bs = f # fs" "bs = frame_bytes f @ concat (map frame_bytes fs)"
    "wf_frame f" "list_all wf_frame fs"
proof -
  from assms obtain f fs where ffs: "frames bs = f # fs"
    by (cases "frames bs") (auto simp: whole_def)
  with assms(1) have "bs = concat (map frame_bytes (f # fs))" "list_all wf_frame (f # fs)"
    by (simp_all add: whole_def)
  with ffs that show thesis by simp
qed

section \<open>Transmitter state\<close>

record txworker_s =
  tw_id :: int
  tw_state :: char
  tw_sockfd :: int
  tw_buffer :: "byte list"
  tw_pkt :: millipacket_s
  tw_writeremainder :: int

record target_port_s =
  tp_name :: string
  tp_port :: u16

record timespec =
  tv_sec :: int
  tv_nsec :: int

record txconf_s =
  worker_count :: int
  ticker :: timespec
  stream_total_bytes :: u64
  tx_workers :: "txworker_s list"
  target_port_count :: int
  target_port_cursor :: int
  target_ports :: "target_port_s list"
  input_eof :: bool
  tx_done :: bool
  input_fd :: int
  waits :: u64

section \<open>Receiver and relay state\<close>

record rxworker_s =
  rw_id :: int
  rw_state :: char
  rw_leg :: u64
  rw_legop :: u64
  rw_sockfd :: int

record rxconf_s =
  workercount :: int
  rx_socknum :: int
  rx_port :: u16
  rx_workers :: "rxworker_s list"
  next_leg :: u64
  done_mbox :: bool
  output_fd :: int

record ioconf_s =
  terminate_port :: u32
  terminate_socket :: int
  initiate_host :: string
  initiate_port :: u16
  initiate_socket :: int

section \<open>Globals set by the command line\<close>

record globals =
  mode :: u32
  gverbose :: int
  gchaos :: u64
  gchaoscounter :: u64
  gprbs_seed :: u64
  gdelay_us :: u64
  gchecksums :: bool
  gcharmode :: bool
  ginitiator_oneshot :: int
  gleg_limit :: int
  gcheckphrase :: string

section \<open>Static tables\<close>

text \<open>What the worker tables hold before anything ran: zeros.\<close>

definition blank_pkt :: millipacket_s where
  "blank_pkt = \<lparr>preamble = 0, leg_id = 0, pkt_size = 0, checksum = 0, opcode = 0\<rparr>"

definition blank_worker :: txworker_s where
  "blank_worker = \<lparr>tw_id = 0, tw_state = CHR 0x00, tw_sockfd = 0, tw_buffer = [], tw_pkt = blank_pkt,
     tw_writeremainder = 0\<rparr>"

definition blank_rxworker :: rxworker_s where
  "blank_rxworker = \<lparr>rw_id = 0, rw_state = CHR 0x00, rw_leg = 0, rw_legop = 0, rw_sockfd = 0\<rparr>"

end
