(* ===== verification/Vm_Plumbing.thy ===== *)
theory Vm_Plumbing
  imports Vm_Cfg
begin

text \<open>
  The first half of \<^verbatim>\<open>plumbing.c\<close> and the macros of \<^verbatim>\<open>util.h\<close>: error checking, the
  chaos divider, filling a buffer from a file descriptor, the stopwatch, and the
  checksum \<^verbatim>\<open>mix\<close>. Sleeps and \<^verbatim>\<open>whisper\<close> output change no state of the program and
  are left out.
\<close>

section \<open>checkperror\<close>

text \<open>The macro prints and leaves the process with status 4 whenever \<^verbatim>\<open>errno\<close> is set.\<close>

definition checkperror :: "errno \<Rightarrow> unit res" where
  "checkperror e = (if e \<noteq> 0 then Inl (Exit 4) else Inr ())"

lemma checkperror_simps [simp]: "checkperror 0 = Inr ()" "e \<noteq> 0 \<Longrightarrow> checkperror e = Inl (Exit 4)"
  by (simp_all add: checkperror_def)

lemma checkperror_Inr_iff [res_iff]: "checkperror e = Inr u \<longleftrightarrow> e = 0"
  by (simp add: checkperror_def)

section \<open>Chaos\<close>

definition chaos_fail :: "globals \<Rightarrow> globals \<times> int" where
  "chaos_fail g =
     (let c = gchaoscounter g; g' = g\<lparr>gchaoscounter := c - 1\<rparr>
      in if c = 1 \<and> gchaos g \<noteq> 0 then (g'\<lparr>gchaoscounter := gchaos g\<rparr>, 1) else (g', 0))"

fun chaos_calls :: "nat \<Rightarrow> globals \<Rightarrow> globals \<times> int list" where
  "chaos_calls 0 g = (g, [])"
| "chaos_calls (Suc n) g =
     (let (g', r) = chaos_fail g; (g'', rs) = chaos_calls n g' in (g'', r # rs))"

section \<open>read(2) and bufferfill\<close>

text \<open>
  A reader is what \<^verbatim>\<open>read(fd, dest, n)\<close> does: from the state of the descriptor and the
  requested size to the next state and either an error number (the call returned -1) or
  the bytes delivered. \<open>fd_read\<close> is the POSIX call on a descriptor whose future is a
  list of events: a delivery hands out at most the requested bytes and keeps the rest,
  an empty delivery or the end of the list is end of file.
\<close>

datatype rd_event = Data "byte list" | Err errno

type_synonym 's reader = "'s \<Rightarrow> nat \<Rightarrow> 's \<times> (errno + byte list)"

fun fd_read :: "rd_event list reader" where
  "fd_read [] n = ([], Inr [])"
| "fd_read (Err e # evs) n = (evs, Inl e)"
| "fd_read (Data bs # evs) n =
     (if length bs \<le> n then (evs, Inr bs) else (Data (drop n bs) # evs, Inr (take n bs)))"

text \<open>
  \<open>bufferfill\<close>: the \<^verbatim>\<open>do ... while (remainder > 0)\<close> loop. \<open>acc\<close> is \<^verbatim>\<open>accumulator\<close>, also the
  offset of \<^verbatim>\<open>dest_cursor\<close>. A read that fails without setting \<^verbatim>\<open>errno\<close> leaves the loop.
\<close>

function bufferfill_loop ::
  "'s reader \<Rightarrow> bool \<Rightarrow> errno \<Rightarrow> 's \<Rightarrow> byte list \<Rightarrow> nat \<Rightarrow> int \<Rightarrow> ('s \<times> byte list \<times> nat) res" where
  "bufferfill_loop rd charmode err s dest acc remainder =
     (if err \<noteq> 0 then Inl (Exit 4)
      else case rd s (nat (min (int maxbsize) remainder)) of
        (s', Inl e) \<Rightarrow> if e \<noteq> 0 then Inl (Exit 4) else Inr (s', dest, acc)
      | (s', Inr bs) \<Rightarrow>
          let remainder' = remainder - int (length bs);
              dest' = overwrite dest acc bs;
              acc' = acc + length bs
          in if remainder' < 0 then Inl Abort
             else if length bs < 1 \<or> charmode then Inr (s', dest', acc')
             else if remainder' > 0 then bufferfill_loop rd charmode 0 s' dest' acc' remainder'
             else Inr (s', dest', acc'))"
  by pat_completeness auto
termination
  by (relation "measure (\<lambda>(rd, charmode, err, s, dest, acc, remainder). nat remainder)")
     (auto simp: neq_Nil_conv Suc_le_eq)

declare bufferfill_loop.simps [simp del]

definition bufferfill ::
  "'s reader \<Rightarrow> errno \<Rightarrow> 's \<Rightarrow> byte list \<Rightarrow> nat \<Rightarrow> bool \<Rightarrow> ('s \<times> byte list \<times> nat) res" where
  "bufferfill rd err s dest sz charmode =
     bufferfill_loop rd charmode err s dest 0 (int sz)"

text \<open>
  What a caller of \<^verbatim>\<open>read\<close> relies on: while no error lies ahead (\<open>ok\<close>), a call for at
  least one byte delivers at most what was asked for, delivers the next bytes of what is
  \<open>avail\<close>able before end of file, and delivers nothing only at end of file.
\<close>

locale byte_reader =
  fixes rd :: "'s reader"
    and ok :: "'s \<Rightarrow> bool"
    and avail :: "'s \<Rightarrow> byte list"
  assumes rd_ok: "ok s \<Longrightarrow> 0 < n \<Longrightarrow>
     \<exists>s' bs. rd s n = (s', Inr bs) \<and> ok s' \<and> length bs \<le> n \<and>
       (bs = [] \<longrightarrow> avail s = []) \<and> (bs \<noteq> [] \<longrightarrow> avail s = bs @ avail s')"
begin

lemma bufferfill_loop_fills:
  assumes "ok s" "0 < n" "acc + n \<le> length dest"
  shows "\<exists>s'. bufferfill_loop rd False 0 s dest acc (int n) =
      Inr (s', overwrite dest acc (take n (avail s)), acc + length (take n (avail s))) \<and> ok s' \<and>
      (n \<le> length (avail s) \<longrightarrow> avail s' = drop n (avail s))"
  using assms
proof (induction n arbitrary: s dest acc rule: less_induct)
  case (less n)
  let ?req = "nat (min (int maxbsize) (int n))"
  have req: "0 < ?req" "?req \<le> n" using less.prems by auto
  obtain s' bs where rd: "rd s ?req = (s', Inr bs)" and ok': "ok s'" and len: "length bs \<le> ?req"
    and eof: "bs = [] \<Longrightarrow> avail s = []" and more: "bs \<noteq> [] \<Longrightarrow> avail s = bs @ avail s'"
    using rd_ok [OF less.prems(1) req(1)] by blast
  show ?case
  proof (cases "bs = [] \<or> length bs = n")
    case True
    with rd ok' eof more less.prems(2) show ?thesis
      by (subst bufferfill_loop.simps) (auto simp: Let_def)
  next
    case False
    then have m: "0 < n - length bs" "n - length bs < n" "length bs < n"
      using len req by auto
    have "\<exists>t. bufferfill_loop rd False 0 s' (overwrite dest acc bs) (acc + length bs)
        (int (n - length bs)) =
      Inr (t, overwrite (overwrite dest acc bs) (acc + length bs) (take (n - length bs) (avail s')),
        acc + length bs + length (take (n - length bs) (avail s'))) \<and> ok t \<and>
      (n - length bs \<le> length (avail s') \<longrightarrow> avail t = drop (n - length bs) (avail s'))"
      using less.IH [OF m(2) ok' m(1), of "acc + length bs" "overwrite dest acc bs"]
        less.prems m by simp
    with rd False more m less.prems show ?thesis
      by (subst bufferfill_loop.simps) (auto simp: Let_def of_nat_diff overwrite_overwrite)
  qed
qed

lemma bufferfill_fills:
  assumes "ok s" "0 < n" "n \<le> length dest"
  shows "\<exists>s'. bufferfill rd 0 s dest n False =
      Inr (s', overwrite dest 0 (take n (avail s)), length (take n (avail s))) \<and> ok s' \<and>
      (n \<le> length (avail s) \<longrightarrow> avail s' = drop n (avail s))"
  using bufferfill_loop_fills [of s n 0 dest] assms by (simp add: bufferfill_def)

lemma bufferfill_charmode:
  assumes "ok s" "0 < n"
  shows "\<exists>s' bs. bufferfill rd 0 s dest n True = Inr (s', overwrite dest 0 bs, length bs) \<and>
      ok s' \<and> length bs \<le> min maxbsize n \<and> (bs = [] \<longrightarrow> avail s = []) \<and>
      (bs \<noteq> [] \<longrightarrow> avail s = bs @ avail s')"
proof -
  have pos: "0 < nat (min (int maxbsize) (int n))" using assms by simp
  obtain s' bs where rd: "rd s (nat (min (int maxbsize) (int n))) = (s', Inr bs)" and ok': "ok s'"
    and len: "length bs \<le> nat (min (int maxbsize) (int n))"
    and "bs = [] \<longrightarrow> avail s = []" "bs \<noteq> [] \<longrightarrow> avail s = bs @ avail s'"
    using rd_ok [OF assms(1) pos] by blast
  moreover have "length bs \<le> n" "length bs \<le> min maxbsize n"
    using len by auto
  ultimately show ?thesis
    by (auto simp: bufferfill_def bufferfill_loop.simps [of rd True] Let_def)
qed

end

fun fd_ok :: "rd_event list \<Rightarrow> bool" where
  "fd_ok [] = True"
| "fd_ok (Data bs # evs) = fd_ok evs"
| "fd_ok (Err e # evs) = False"

fun fd_avail :: "rd_event list \<Rightarrow> byte list" where
  "fd_avail [] = []"
| "fd_avail (Data bs # evs) = (if bs = [] then [] else bs @ fd_avail evs)"
| "fd_avail (Err e # evs) = []"

interpretation fd: byte_reader fd_read fd_ok fd_avail
proof
  fix s and n :: nat
  assume "fd_ok s" "0 < n"
  then show "\<exists>s' bs. fd_read s n = (s', Inr bs) \<and> fd_ok s' \<and> length bs \<le> n \<and>
      (bs = [] \<longrightarrow> fd_avail s = []) \<and> (bs \<noteq> [] \<longrightarrow> fd_avail s = bs @ fd_avail s')"
    by (cases s rule: fd_ok.cases) auto
qed

text \<open>A reader whose end of file is final: after it nothing more is delivered.\<close>

locale ending_reader = byte_reader +
  assumes eof_stays: "ok s \<Longrightarrow> avail s = [] \<Longrightarrow> rd s n = (s', Inr bs) \<Longrightarrow> avail s' = []"
begin

lemma bufferfill_loop_drains:
  assumes "ok s" "0 < n" "length (avail s) < n"
    and "bufferfill_loop rd False 0 s dest acc (int n) = Inr (t, res)"
  shows "avail t = []"
  using assms
proof (induction n arbitrary: s dest acc rule: less_induct)
  case (less n)
  let ?req = "nat (min (int maxbsize) (int n))"
  have req: "0 < ?req" "?req \<le> n" using less.prems by auto
  obtain s' bs where rd: "rd s ?req = (s', Inr bs)" and ok': "ok s'" and len: "length bs \<le> ?req"
    and eof: "bs = [] \<Longrightarrow> avail s = []" and more: "bs \<noteq> [] \<Longrightarrow> avail s = bs @ avail s'"
    using rd_ok [OF less.prems(1) req(1)] by blast
  show ?case
  proof (cases "bs = []")
    case True
    with rd eof less.prems eof_stays [OF less.prems(1) _ rd] show ?thesis
      by (auto simp: bufferfill_loop.simps [of rd False] Let_def)
  next
    case False
    with more less.prems(3) have m: "length bs < n" "length (avail s') < n - length bs" by auto
    have lt: "n - length bs < n" "0 < n - length bs" using m False by (auto simp: neq_Nil_conv)
    have "bufferfill_loop rd False 0 s' (overwrite dest acc bs) (acc + length bs) (int (n - length bs)) = Inr (t, res)"
      using less.prems(4) rd False m by (simp add: bufferfill_loop.simps [of rd False _ s] Let_def of_nat_diff)
    from less.IH [OF lt(1) ok' lt(2) m(2) this] show ?thesis .
  qed
qed

lemma bufferfill_takes:
  assumes "ok s" "0 < n" "n \<le> length dest"
  shows "\<exists>s' bs. bufferfill rd 0 s dest n m = Inr (s', bs @ drop (length bs) dest, length bs) \<and> ok s' \<and>
    avail s = bs @ avail s' \<and> length bs \<le> n \<and> (bs = [] \<longrightarrow> avail s = [])"
proof (cases m)
  case True
  have pos: "0 < nat (min (int maxbsize) (int n))" using assms by simp
  obtain s' bs where rd: "rd s (nat (min (int maxbsize) (int n))) = (s', Inr bs)" and ok': "ok s'"
    and len: "length bs \<le> n"
    and av: "bs = [] \<longrightarrow> avail s = []" "bs \<noteq> [] \<longrightarrow> avail s = bs @ avail s'"
    using rd_ok [OF assms(1) pos] by fastforce
  moreover have "bs = [] \<longrightarrow> avail s' = []" using av eof_stays [OF assms(1) _ rd] by simp
  ultimately show ?thesis
    using True by (auto simp: bufferfill_def bufferfill_loop.simps [of rd True] Let_def overwrite_0)
next
  case False
  obtain s' where f: "bufferfill rd 0 s dest n False =
      Inr (s', overwrite dest 0 (take n (avail s)), length (take n (avail s)))" "ok s'"
      "n \<le> length (avail s) \<longrightarrow> avail s' = drop n (avail s)"
    using bufferfill_fills [OF assms] by blast
  have "avail s' = drop n (avail s)"
    using f bufferfill_loop_drains [OF assms(1,2), of dest 0 s'] by (cases "n \<le> length (avail s)") (auto simp: bufferfill_def)
  with f(1,2) False assms(2) show ?thesis
    by (intro exI [of _ s'] exI [of _ "take n (avail s)"]) (auto simp: overwrite_0)
qed

end

text \<open>The input is a sequence of deliveries, none empty, that ends once.\<close>

definition fd_steady :: "rd_event list \<Rightarrow> bool" where
  "fd_steady evs \<longleftrightarrow> list_all (\<lambda>e. case e of Data bs \<Rightarrow> bs \<noteq> [] | Err _ \<Rightarrow> False) evs"

lemma fd_steady_simps [simp]:
  "fd_steady []" "fd_steady (Data bs # evs) \<longleftrightarrow> bs \<noteq> [] \<and> fd_steady evs" "\<not> fd_steady (Err e # evs)"
  by (auto simp: fd_steady_def)

interpretation steady: ending_reader fd_read fd_steady fd_avail
proof
  fix s and n :: nat
  assume "fd_steady s" "0 < n"
  then show "\<exists>s' bs. fd_read s n = (s', Inr bs) \<and> fd_steady s' \<and> length bs \<le> n \<and>
      (bs = [] \<longrightarrow> fd_avail s = []) \<and> (bs \<noteq> [] \<longrightarrow> fd_avail s = bs @ fd_avail s')"
    by (cases s rule: fd_ok.cases) auto
next
  fix s s' :: "rd_event list" and n bs
  assume "fd_steady s" "fd_avail s = []" "fd_read s n = (s', Inr bs)"
  then show "fd_avail s' = []" by (cases s rule: fd_ok.cases) auto
qed

section \<open>Stopwatch\<close>

text \<open>
  \<^verbatim>\<open>clock_gettime\<close> is tried until it succeeds; the attempts are a list whose failed
  calls are \<open>None\<close>. The arithmetic is C's on \<^verbatim>\<open>long\<close>, with division towards zero.
\<close>

fun clock_wait :: "timespec option list \<Rightarrow> timespec option" where
  "clock_wait [] = None"
| "clock_wait (None # ts) = clock_wait ts"
| "clock_wait (Some t # ts) = Some t"

definition elapsed_usec :: "timespec \<Rightarrow> timespec \<Rightarrow> u64" where
  "elapsed_usec t stoptime =
     (let secondsdiff = tv_sec stoptime - tv_sec t;
          nanoes = tv_nsec stoptime - tv_nsec t;
          nanoes = nanoes + 1000000000;
          secondsdiff = secondsdiff - 1;
          secondsdiff = secondsdiff + nanoes sdiv 1000000000
      in word_of_int (secondsdiff * 1000000 + nanoes sdiv 1000))"

definition stopwatch_stop :: "timespec \<Rightarrow> timespec option list \<Rightarrow> u64 option" where
  "stopwatch_stop t attempts = map_option (elapsed_usec t) (clock_wait attempts)"

definition stopwatch_start :: "timespec option \<Rightarrow> timespec res" where
  "stopwatch_start r = (case r of None \<Rightarrow> Inl Abort | Some t \<Rightarrow> Inr t)"

section \<open>The checksum\<close>

text \<open>
  \<^verbatim>\<open>acc += *(unsigned long *)data + cursor\<close> dereferences the same first word in every
  round and adds the cursor to its value; \<^verbatim>\<open>acc\<close> is an \<^verbatim>\<open>unsigned\<close>, so each sum is cut to
  32 bits. The 64-bit cursor wraps, so the loop need not end: \<open>None\<close>.
\<close>

partial_function (option) mix_loop :: "u64 \<Rightarrow> u64 \<Rightarrow> u64 \<Rightarrow> u32 \<Rightarrow> u32 option" where
  "mix_loop w sz cursor acc =
     (if cursor \<le> sz then mix_loop w sz (cursor + 8) (ucast (ucast acc + (w + cursor) :: u64))
      else Some acc)"

definition mix :: "u32 \<Rightarrow> byte list \<Rightarrow> u64 \<Rightarrow> u64 option" where
  "mix seed data sz = map_option ucast (mix_loop (load64 data 0) sz 0 seed)"

section \<open>Properties\<close>

subsection \<open>bufferfill\<close>



text \<open>in charmode \<^verbatim>\<open>bufferfill\<close> makes one read: it stores and returns one delivery of at
  most \<^verbatim>\<open>MAXBSIZE\<close> bytes, the next bytes of the input, and nothing only at end of file.\<close>

lemma bufferfill_charmode_one_read:
  assumes "fd_ok evs" "0 < n"
  shows "\<exists>evs' bs. bufferfill fd_read 0 evs dest n True = Inr (evs', bs @ drop (length bs) dest, length bs) \<and>
      length bs \<le> min maxbsize n \<and> (bs = [] \<longrightarrow> fd_avail evs = []) \<and>
      (bs \<noteq> [] \<longrightarrow> fd_avail evs = bs @ fd_avail evs')"
  using fd.bufferfill_charmode [OF assms, of dest] by (fastforce simp: overwrite_0)



subsection \<open>Stopwatch\<close>

lemma sdiv_pos: "0 \<le> (a::int) \<Longrightarrow> 0 < b \<Longrightarrow> a sdiv b = a div b"
  by (auto simp: signed_divide_int_def sgn_if)

text \<open>C32: the branch-free time difference is one second too large whenever the nanosecond
  part did not run backwards, and right otherwise: \<^verbatim>\<open>nanoes\<close> keeps the borrowed second
  that \<^verbatim>\<open>secondsdiff\<close> was already given back. The commented-out simple way has no such case.\<close>

theorem elapsed_usec_value:
  assumes "0 \<le> tv_nsec t" "tv_nsec t < 1000000000" "0 \<le> tv_nsec t'" "tv_nsec t' < 1000000000"
  defines "usec \<equiv> ((tv_sec t' - tv_sec t) * 1000000000 + (tv_nsec t' - tv_nsec t)) div 1000"
  shows "elapsed_usec t t' =
      word_of_int (if tv_nsec t \<le> tv_nsec t' then usec + 1000000 else usec)"
proof -
  let ?s = "tv_sec t' - tv_sec t" and ?n = "tv_nsec t' - tv_nsec t"
  have "(?s - 1 + (?n + 1000000000) sdiv 1000000000) * 1000000 + (?n + 1000000000) sdiv 1000 =
      (if tv_nsec t \<le> tv_nsec t' then usec + 1000000 else usec)"
  proof (cases "tv_nsec t \<le> tv_nsec t'")
    case True
    with assms(1-4) have "(?n + 1000000000) div 1000000000 = 1"
      by (intro int_div_pos_eq [where r = ?n]) auto
    with True assms(1-4) show ?thesis by (simp add: sdiv_pos usec_def)
  next
    case False
    with assms(1-4) have "(?n + 1000000000) div 1000000000 = 0"
      by (intro div_pos_pos_trivial) auto
    with False assms(1-4) show ?thesis by (simp add: sdiv_pos usec_def)
  qed
  then show ?thesis by (simp only: elapsed_usec_def Let_def)
qed

theorem elapsed_usec_value_witness:
  "elapsed_usec \<lparr>tv_sec = 10, tv_nsec = 0\<rparr> \<lparr>tv_sec = 10, tv_nsec = 5000\<rparr> = 1000005"
  using elapsed_usec_value [of "\<lparr>tv_sec = 10, tv_nsec = 0\<rparr>" "\<lparr>tv_sec = 10, tv_nsec = 5000\<rparr>"]
  by simp

subsection \<open>The checksum\<close>

lemma mix_loop_step:
  "mix_loop w sz c acc =
     (if c \<le> sz then mix_loop w sz (c + 8) (acc + (ucast w + ucast c)) else Some acc)"
  by (subst mix_loop.simps) (simp add: ucast_add_u32)

lemma mix_loop_run:
  assumes "k \<le> m" "8 * m + 8 < 2 ^ 64" "unat sz div 8 = m"
  shows "mix_loop w sz (of_nat (8 * k)) acc =
      Some (acc + (\<Sum>i = k..m. ucast w + of_nat (8 * i)))"
  using assms(1)
proof (induction "m - k" arbitrary: k acc)
  case 0
  then have k: "k = m" by simp
  have "8 * k \<le> unat sz" "\<not> 8 * Suc k \<le> unat sz"
    using assms k by auto
  moreover have "8 * k < 2 ^ 64" "8 * Suc k < 2 ^ 64" using assms(2) k by simp_all
  then have "(of_nat (8 * k) :: u64) \<le> sz \<longleftrightarrow> 8 * k \<le> unat sz"
    "(of_nat (8 * Suc k) :: u64) \<le> sz \<longleftrightarrow> 8 * Suc k \<le> unat sz"
    by (simp_all only: word_le_nat_alt unat_of_nat_u64)
  moreover have "(of_nat (8 * k) :: u64) + 8 = of_nat (8 * Suc k)" by simp
  ultimately have "mix_loop w sz (of_nat (8 * k)) acc = Some (acc + (ucast w + of_nat (8 * k)))"
    by (subst mix_loop_step, subst mix_loop_step) (simp only: if_True if_False ucast_of_nat_u32 simp_thms)
  then show ?case unfolding k by (simp only: atLeastAtMost_singleton sum.insert sum.empty finite.emptyI empty_iff simp_thms add_0_right)
next
  case (Suc x)
  then have lt: "k < m" by simp
  then have "8 * k \<le> unat sz" using assms by auto
  then have le: "(of_nat (8 * k) :: u64) \<le> sz"
    using assms(2) lt by (simp only: word_le_nat_alt unat_of_nat_u64)
  have nxt: "(of_nat (8 * k) :: u64) + 8 = of_nat (8 * Suc k)" by simp
  have "mix_loop w sz (of_nat (8 * k)) acc =
      mix_loop w sz (of_nat (8 * Suc k)) (acc + (ucast w + of_nat (8 * k)))"
    by (subst mix_loop_step) (simp only: le if_True nxt ucast_of_nat_u32)
  also have "\<dots> = Some (acc + (ucast w + of_nat (8 * k)) + (\<Sum>i = Suc k..m. ucast w + of_nat (8 * i)))"
    using Suc lt by (intro Suc.hyps) auto
  also have "\<dots> = Some (acc + (\<Sum>i = k..m. ucast w + of_nat (8 * i)))"
    using lt by (simp only: sum.atLeast_Suc_atMost [of k m] less_imp_le add.assoc)
  finally show ?case .
qed

lemma mix_sum: "(\<Sum>i = 0..m. (a::u32) + of_nat (8 * i)) = of_nat (m + 1) * a + of_nat (4 * m * (m + 1))"
  by (induction m) (simp_all add: algebra_simps)

lemma mix_value:
  assumes "unat sz < 2 ^ 64 - 8"
  shows "mix seed data sz = Some (ucast (seed + of_nat (unat sz div 8 + 1) * ucast (load64 data 0)
      + of_nat (4 * (unat sz div 8) * (unat sz div 8 + 1))))"
proof -
  have b: "8 * (unat sz div 8) + 8 < 2 ^ 64" using assms by linarith
  show ?thesis
    using mix_loop_run [OF le0 b refl, of "load64 data 0" seed]
    by (simp only: mix_def mix_sum semiring_1_class.of_nat_0 mult_0_right option.map add.assoc)
qed

lemma mix_none:
  assumes "2 ^ 64 - 8 \<le> unat sz"
  shows "mix seed data sz = None"
proof (rule ccontr)
  assume "mix seed data sz \<noteq> None"
  then obtain r where r: "mix_loop (load64 data 0) sz 0 seed = Some r" by (auto simp: mix_def)
  have "sz = sz \<longrightarrow> \<not> 8 dvd unat (0::u64)"
  proof (rule mix_loop.raw_induct [where P = "\<lambda>w s c a r. s = sz \<longrightarrow> \<not> 8 dvd unat c", OF _ r], rule impI)
    fix f w s c a r
    assume IH: "\<And>w s c a r. f w s c a = Some r \<Longrightarrow> s = sz \<longrightarrow> \<not> 8 dvd unat c"
      and eq: "(if c \<le> s then f w s (c + 8) (ucast (ucast a + (w + c) :: u64)) else Some a) = Some r"
      and s: "s = sz"
    show "\<not> 8 dvd unat c"
    proof
      assume d: "8 dvd unat c"
      then have "unat c \<le> 2 ^ 64 - 8"
        using unsigned_less [of c, where ?'a = nat] by (simp, presburger)
      then have "c \<le> s" using assms s by (simp add: word_le_nat_alt)
      with eq IH s have "\<not> 8 dvd unat (c + 8)" by auto
      moreover have "8 dvd unat (c + 8)"
        using d by (simp add: unat_word_ariths dvd_mod)
      ultimately show False by simp
    qed
  qed
  then show False by simp
qed

text \<open>C25: the value of the checksum: with \<open>m\<close> the number of whole words in \<open>sz\<close>, the seed plus
  \<open>m + 1\<close> times the first 64-bit word of the data plus \<open>4 * m * (m + 1)\<close>, all modulo
  \<open>2 ^ 32\<close>. It is computed for every size below \<open>2 ^ 64 - 8\<close>; from there on the cursor
  wraps before it passes the size and the loop never ends.\<close>

theorem mix_complete:
  "mix seed data sz =
     (if unat sz < 2 ^ 64 - 8
      then Some (ucast (seed + of_nat (unat sz div 8 + 1) * ucast (load64 data 0)
             + of_nat (4 * (unat sz div 8) * (unat sz div 8 + 1))))
      else None)"
  by (auto simp only: mix_value mix_none not_less split: if_split)

text \<open>the checksum does not cover the payload: two buffers that agree on their first
  eight bytes have the same checksum for every seed and size, however they differ after
  that, and eight bytes are read even when the payload is shorter.\<close>

lemma mix_sees_first_word:
  assumes "take 8 xs = take 8 ys"
  shows "mix seed xs sz = mix seed ys sz"
  using assms by (simp add: mix_def load64_def)

subsection \<open>Chaos\<close>

lemma chaos_calls_results:
  assumes "gchaos g \<noteq> 0" "gchaoscounter g \<noteq> 0"
  shows "snd (chaos_calls n g) =
      map (\<lambda>k. if unat (gchaoscounter g) \<le> k + 1 \<and>
                  unat (gchaos g) dvd (k + 1 - unat (gchaoscounter g)) then 1 else 0) [0..<n]"
  using assms
proof (induction n arbitrary: g)
  case 0
  then show ?case by simp
next
  case (Suc n)
  let ?c = "unat (gchaoscounter g)" and ?n = "unat (gchaos g)"
  have pos: "0 < ?c" "0 < ?n" using Suc.prems by (simp_all add: unat_gt_0)
  have upt: "[0..<Suc n] = 0 # map Suc [0..<n]"
    by (simp only: upt_conv_Cons zero_less_Suc map_Suc_upt)
  show ?case
  proof (cases "gchaoscounter g = 1")
    case True
    have d: "?n \<le> Suc k \<and> ?n dvd Suc k - ?n \<longleftrightarrow> ?n dvd Suc k" for k
      using pos by (auto simp: dvd_minus_self dest: dvd_imp_le)
    have f: "chaos_fail g = (g\<lparr>gchaoscounter := gchaos g\<rparr>, 1)"
      using True Suc.prems by (simp add: chaos_fail_def)
    from Suc.IH [of "g\<lparr>gchaoscounter := gchaos g\<rparr>"] Suc.prems
    have "snd (chaos_calls n (g\<lparr>gchaoscounter := gchaos g\<rparr>)) =
        map (\<lambda>k. if ?n dvd Suc k then 1 else 0) [0..<n]"
      by (simp add: d)
    then show ?thesis
      unfolding upt using True by (simp add: f split_beta)
  next
    case False
    then have "?c \<noteq> 1" by (metis unat_1 word_unat_eq_iff)
    then have c: "unat (gchaoscounter g - 1) = ?c - 1" "1 < ?c"
      using Suc.prems pos by (auto simp: unat_minus_one)
    then have nz: "gchaoscounter g - 1 \<noteq> 0" by (metis unat_0 zero_less_diff less_numeral_extra(3))
    have f: "chaos_fail g = (g\<lparr>gchaoscounter := gchaoscounter g - 1\<rparr>, 0)"
      using False by (simp add: chaos_fail_def)
    have d: "?c - 1 \<le> k + 1 \<and> ?n dvd k + 1 - (?c - 1) \<longleftrightarrow>
        ?c \<le> Suc k + 1 \<and> ?n dvd Suc k + 1 - ?c" for k
      using c(2) by (auto simp: le_diff_conv)
    from Suc.IH [of "g\<lparr>gchaoscounter := gchaoscounter g - 1\<rparr>"] Suc.prems nz
    have "snd (chaos_calls n (g\<lparr>gchaoscounter := gchaoscounter g - 1\<rparr>)) =
        map (\<lambda>k. if ?c - 1 \<le> k + 1 \<and> ?n dvd k + 1 - (?c - 1) then 1 else 0) [0..<n]"
      by (simp add: c(1))
    also have "\<dots> = map (\<lambda>k. if ?c \<le> Suc k + 1 \<and> ?n dvd Suc k + 1 - ?c then 1 else 0) [0..<n]"
      by (simp only: d)
    finally have "snd (chaos_calls n (g\<lparr>gchaoscounter := gchaoscounter g - 1\<rparr>)) = \<dots>" .
    then show ?thesis
      unfolding upt using c(2) by (simp add: f split_beta)
  qed
qed

text \<open>armed with a divider \<open>n > 0\<close>, the chaos counter fires on exactly every \<open>n\<close>-th
  call, for any number of calls.\<close>

lemma chaos_fires_every_nth:
  assumes "gchaos g \<noteq> 0" "gchaoscounter g = gchaos g"
  shows "snd (chaos_calls n g) = map (\<lambda>k. if unat (gchaos g) dvd k then 1 else 0) [1..<Suc n]"
proof -
  let ?n = "unat (gchaos g)"
  have pos: "0 < ?n" using assms by (simp add: unat_gt_0)
  have "?n \<le> k + 1 \<and> ?n dvd (k + 1 - ?n) \<longleftrightarrow> ?n dvd Suc k" for k
    using pos by (auto simp: dvd_minus_self dest: dvd_imp_le)
  then have "snd (chaos_calls n g) = map (\<lambda>k. if ?n dvd Suc k then 1 else 0) [0..<n]"
    using chaos_calls_results [of g n] assms by simp
  also have "\<dots> = map (\<lambda>k. if ?n dvd k then 1 else 0) [1..<Suc n]"
    by (simp only: map_Suc_upt [of 0 n, symmetric] map_map comp_def One_nat_def)
  finally show ?thesis .
qed

end
