(* ===== verification/Vm_Tcp.thy ===== *)
theory Vm_Tcp
  imports Vm_Plumbing
begin

text \<open>
  The socket helpers of \<^verbatim>\<open>plumbing.c\<close>. The kernel is a parameter: a \<open>sockenv\<close> says what
  each system call of one helper returns and the value it leaves in \<^verbatim>\<open>errno\<close> (0: the call
  does not touch it). The helpers thread \<^verbatim>\<open>errno\<close> and the list of socket options set so
  far. The address structures they fill in and the dumps they print are left out.
\<close>

datatype sockopt = TCP_NODELAY | SO_RCVBUF | SO_SNDBUF

record sockenv =
  se_h_errno :: int
  se_socket :: "int \<times> errno"
  se_connect :: "int \<times> errno"
  se_soerror :: "int \<times> errno"
  se_setopt :: "int \<Rightarrow> sockopt \<Rightarrow> errno"
  se_getopt :: errno
  se_reuseport :: errno
  se_bind :: "int \<times> errno"
  se_listen :: int
  se_accept :: "int \<times> errno"

type_synonym sockopts = "(int \<times> sockopt) list"

definition seterr :: "errno \<Rightarrow> errno \<Rightarrow> errno" where
  "seterr old e = (if e = 0 then old else e)"

lemma seterr_simps [simp]: "seterr old 0 = old" "e \<noteq> 0 \<Longrightarrow> seterr old e = e"
  by (simp_all add: seterr_def)

definition tcp_geterr :: "sockenv \<Rightarrow> errno \<Rightarrow> int res" where
  "tcp_geterr env err =
     bindE (checkperror (seterr err (snd (se_soerror env)))) (\<lambda>_. Inr (fst (se_soerror env)))"

definition tcp_nowait :: "sockenv \<Rightarrow> int \<Rightarrow> errno \<Rightarrow> sockopts \<Rightarrow> sockopts res" where
  "tcp_nowait env si err opts =
     bindE (checkperror (seterr err (se_setopt env si TCP_NODELAY)))
       (\<lambda>_. Inr (opts @ [(si, TCP_NODELAY)]))"

definition tcp_setbufsize :: "sockenv \<Rightarrow> int \<Rightarrow> errno \<Rightarrow> sockopts \<Rightarrow> sockopts res" where
  "tcp_setbufsize env si err opts =
     bindE (checkperror (seterr (seterr err (se_setopt env si SO_RCVBUF)) (se_setopt env si SO_SNDBUF)))
       (\<lambda>_. bindE (tcp_geterr env err)
         (\<lambda>_. Inr (opts @ [(si, SO_RCVBUF), (si, SO_SNDBUF)])))"

text \<open>The dump asks the kernel for the buffer sizes only above verbosity 16.\<close>

definition tcp_dump_sockfdparams :: "sockenv \<Rightarrow> int \<Rightarrow> int \<Rightarrow> errno \<Rightarrow> unit res" where
  "tcp_dump_sockfdparams env verb sfd err =
     (if sfd > 0
      then bindE (checkperror err)
             (\<lambda>_. checkperror (if 16 < verb then seterr err (se_getopt env) else err))
      else Inr ())"

text \<open>
  \<open>tcp_connect\<close> with its statements in order. The block that tunes the socket is guarded by
  \<^verbatim>\<open>retcode != 0\<close>, and every path passes a \<^verbatim>\<open>checkperror\<close> after the \<^verbatim>\<open>connect\<close>.
\<close>

definition tcp_connect :: "sockenv \<Rightarrow> int \<Rightarrow> errno \<Rightarrow> (int \<times> sockopts) res" where
  "tcp_connect env verb err =
     bindE (assertE (se_h_errno env = 0)) (\<lambda>_.
     let fd = fst (se_socket env); err = seterr err (snd (se_socket env)) in
     bindE (checkperror err) (\<lambda>_.
     bindE (assertE (fd > 0)) (\<lambda>_.
     let retcode = fst (se_connect env); err = seterr err (snd (se_connect env)) in
     bindE (if retcode \<noteq> 0 then Inr (-1)
            else bindE (tcp_geterr env err) (\<lambda>sockerr.
                 bindE (assertE (sockerr = 0)) (\<lambda>_. bindE (checkperror err) (\<lambda>_. Inr fd)))) (\<lambda>fd.
     bindE (checkperror err) (\<lambda>_.
     bindE (if retcode \<noteq> 0
            then bindE (tcp_nowait env fd err []) (\<lambda>opts.
                 bindE (tcp_setbufsize env fd err opts) (\<lambda>opts.
                 bindE (tcp_dump_sockfdparams env verb fd err) (\<lambda>_.
                 bindE (checkperror err) (\<lambda>_. Inr opts))))
            else Inr []) (\<lambda>opts.
     bindE (checkperror err) (\<lambda>_. Inr (fd, opts))))))))"

text \<open>
  \<open>tcp_recieve_prep\<close> returns its return code and the listening socket;
  \<^verbatim>\<open>assert(-0)\<close> is \<^verbatim>\<open>assert(0)\<close>.
\<close>

definition tcp_recieve_prep :: "sockenv \<Rightarrow> errno \<Rightarrow> (int \<times> int) res" where
  "tcp_recieve_prep env err =
     (let socknum = fst (se_socket env); err = seterr err (snd (se_socket env)) in
      bindE (assertE (\<not> socknum < 1)) (\<lambda>_.
      bindE (checkperror err) (\<lambda>_.
      let err = seterr err (se_reuseport env);
          retcode = fst (se_bind env); err = seterr err (snd (se_bind env)) in
      bindE (assertE (retcode = 0)) (\<lambda>_.
      bindE (checkperror err) (\<lambda>_.
      let retcode = se_listen env in
      bindE (assertE (retcode = 0)) (\<lambda>_. Inr (retcode, socknum)))))))"

definition tcp_accept :: "sockenv \<Rightarrow> int \<Rightarrow> errno \<Rightarrow> int res" where
  "tcp_accept env verb err =
     (let fd = fst (se_accept env); err = seterr err (snd (se_accept env)) in
      bindE (checkperror err) (\<lambda>_.
      bindE (tcp_dump_sockfdparams env verb fd err) (\<lambda>_. Inr fd)))"

section \<open>Documented behaviour of the system calls\<close>

text \<open>\<^verbatim>\<open>connect(2)\<close>: returns 0, or -1 with \<^verbatim>\<open>errno\<close> set.\<close>

definition connect_documented :: "sockenv \<Rightarrow> bool" where
  "connect_documented env \<longleftrightarrow>
     (fst (se_connect env) = 0 \<and> snd (se_connect env) = 0) \<or>
     (fst (se_connect env) = -1 \<and> snd (se_connect env) \<noteq> 0)"

definition plain_env :: sockenv where
  "plain_env = \<lparr>se_h_errno = 0, se_socket = (5, 0), se_connect = (0, 0), se_soerror = (0, 0),
     se_setopt = (\<lambda>_ _. 0), se_getopt = 0, se_reuseport = 0, se_bind = (0, 0), se_listen = 0,
     se_accept = (7, 0)\<rparr>"

section \<open>Properties\<close>

lemma tcp_connect_ok:
  assumes "connect_documented env" "tcp_connect env verb err = Inr r"
  shows "fst (se_connect env) = 0" "r = (fst (se_socket env), [])" "0 < fst (se_socket env)"
  using assms
  by (auto simp: tcp_connect_def connect_documented_def Let_def res_iff split: if_splits)

text \<open>C37: a refused or unreachable target ends the whole transmitter: when \<^verbatim>\<open>connect\<close> fails as
  documented (it sets \<^verbatim>\<open>errno\<close>), \<^verbatim>\<open>tcp_connect\<close> leaves the process with status 4. It never
  returns the -1 that its callers test for before they try the next target.\<close>

theorem tcp_connect_failure_exits:
  assumes "connect_documented env" "fst (se_connect env) \<noteq> 0"
    and "se_h_errno env = 0" "snd (se_socket env) = 0" "0 < fst (se_socket env)"
  shows "tcp_connect env verb 0 = Inl (Exit 4)"
  using assms by (simp add: tcp_connect_def connect_documented_def Let_def)

theorem tcp_connect_failure_exits_witness:
  "tcp_connect (plain_env\<lparr>se_connect := (-1, 61)\<rparr>) 0 0 = Inl (Exit 4)"
  by (rule tcp_connect_failure_exits) (simp_all add: plain_env_def connect_documented_def)

text \<open>every socket \<^verbatim>\<open>tcp_connect\<close> hands out is connected and has none of the options it was
  meant to have: the block that sets \<^verbatim>\<open>TCP_NODELAY\<close> and the buffer sizes runs only after a
  failed \<^verbatim>\<open>connect\<close>.\<close>

lemma tcp_connect_sets_no_options:
  assumes "connect_documented env" "tcp_connect env verb err = Inr (fd, opts)"
  shows "fst (se_connect env) = 0 \<and> fd = fst (se_socket env) \<and> 0 < fd \<and> opts = []"
  using tcp_connect_ok [OF assms] by simp

text \<open>\<^verbatim>\<open>tcp_recieve_prep\<close> returns only with code 0 and a socket that was bound and is
  listening; any failure of \<^verbatim>\<open>socket\<close>, \<^verbatim>\<open>bind\<close> or \<^verbatim>\<open>listen\<close> ends the process, so the caller's
  test for a non-zero code (\<^verbatim>\<open>exit(ENOTSOCK)\<close>) is never taken.\<close>

lemma tcp_recieve_prep_only_zero:
  assumes "tcp_recieve_prep env err = Inr (rc, s)"
  shows "rc = 0 \<and> 1 \<le> s \<and> s = fst (se_socket env) \<and> fst (se_bind env) = 0 \<and> se_listen env = 0"
  using assms by (auto simp: tcp_recieve_prep_def Let_def res_iff)

end
