(* ===== verification/Vm_Terminate.thy ===== *)
theory Vm_Terminate
  imports Vm_Tcp
begin

text \<open>
  \<^verbatim>\<open>terminate.c\<close> and \<^verbatim>\<open>initiate_relay\<close> of \<^verbatim>\<open>viamillipede.c\<close>: which descriptors the
  transmitter reads and the receiver writes. \<open>clk\<close> is what the clock answers when
  \<^verbatim>\<open>terminate\<close> restarts the stopwatch.
\<close>

definition STDIN_FILENO :: int where "STDIN_FILENO = 0"
definition STDOUT_FILENO :: int where "STDOUT_FILENO = 1"

definition terminate ::
  "sockenv \<Rightarrow> int \<Rightarrow> timespec option \<Rightarrow> txconf_s \<Rightarrow> rxconf_s \<Rightarrow> ioconf_s \<Rightarrow>
   (int \<times> txconf_s \<times> rxconf_s \<times> ioconf_s) res" where
  "terminate env verb clk txc rxc ioc =
     (if terminate_port ioc > 0 then
        bindE (tcp_recieve_prep env 0) (\<lambda>(_, sock).
        let ioc = ioc\<lparr>terminate_socket := sock\<rparr> in
        bindE (tcp_accept env verb 0) (\<lambda>fd.
        let txc = txc\<lparr>input_fd := fd\<rparr> in
        bindE (assertE (input_fd txc > 2)) (\<lambda>_.
        bindE (stopwatch_start clk) (\<lambda>t.
        let txc = txc\<lparr>ticker := t\<rparr>; rxc = rxc\<lparr>output_fd := input_fd txc\<rparr> in
        Inr (output_fd rxc, txc, rxc, ioc)))))
      else if initiate_port ioc > 0 then Inr (1, txc, rxc, ioc)
      else let txc = txc\<lparr>input_fd := STDIN_FILENO\<rparr> in Inr (input_fd txc, txc, rxc, ioc))"

definition initiate ::
  "sockenv \<Rightarrow> int \<Rightarrow> txconf_s \<Rightarrow> rxconf_s \<Rightarrow> ioconf_s \<Rightarrow> (int \<times> txconf_s \<times> rxconf_s) res" where
  "initiate env verb txc rxc ioc =
     (if initiate_port ioc > 0 then
        bindE (tcp_connect env verb 0) (\<lambda>(fd, _).
        Inr (fd, txc\<lparr>input_fd := fd\<rparr>, rxc\<lparr>output_fd := fd\<rparr>))
      else if terminate_port ioc > 0 then Inr (1, txc, rxc)
      else Inr (STDOUT_FILENO, txc, rxc\<lparr>output_fd := STDOUT_FILENO\<rparr>))"

text \<open>
  \<open>initiate_relay\<close> runs once per process; the boolean says whether it launched the ingest
  thread (\<^verbatim>\<open>pthread_create\<close> of \<^verbatim>\<open>txingest\<close>). A failing \<^verbatim>\<open>pthread_create\<close> (\<open>thr \<noteq> 0\<close>) aborts.
\<close>

definition initiate_relay ::
  "sockenv \<Rightarrow> int \<Rightarrow> globals \<Rightarrow> txconf_s \<Rightarrow> rxconf_s \<Rightarrow> ioconf_s \<Rightarrow>
   (int \<times> globals \<times> txconf_s \<times> rxconf_s \<times> bool) res" where
  "initiate_relay env thr g txc rxc ioc =
     (if ginitiator_oneshot g > 0 then Inr (0, g, txc, rxc, False)
      else let g = g\<lparr>ginitiator_oneshot := ginitiator_oneshot g + 1\<rparr> in
        bindE (initiate env (gverbose g) txc rxc ioc) (\<lambda>(retcode, txc, rxc).
        bindE (assertE (retcode \<ge> 1)) (\<lambda>_.
        bindE (assertE (thr = 0)) (\<lambda>_. Inr (retcode, g, txc, rxc, True)))))"

section \<open>Properties\<close>

text \<open>without \<^verbatim>\<open>terminate\<close> and \<^verbatim>\<open>initiate\<close> ports the relay set-up connects the program to
  its pipes: \<^verbatim>\<open>terminate\<close> makes standard input the source, the relay makes standard output
  the sink and starts the ingest thread, and nothing else of the configuration changes.\<close>

lemma pipe_descriptors:
  assumes "terminate_port ioc = 0" "initiate_port ioc = 0" "ginitiator_oneshot g = 0"
  shows "terminate env v clk txc rxc ioc = Inr (0, txc\<lparr>input_fd := 0\<rparr>, rxc, ioc) \<and>
      initiate_relay env 0 g txc rxc ioc =
        Inr (1, g\<lparr>ginitiator_oneshot := 1\<rparr>, txc, rxc\<lparr>output_fd := 1\<rparr>, True)"
  using assms
  by (simp add: terminate_def initiate_relay_def initiate_def STDIN_FILENO_def STDOUT_FILENO_def)

definition plain_globals :: globals where
  "plain_globals = \<lparr>mode = 0, gverbose = 0, gchaos = 0, gchaoscounter = 0, gprbs_seed = 0,
     gdelay_us = 0, gchecksums = False, gcharmode = False, ginitiator_oneshot = 0, gleg_limit = 0,
     gcheckphrase = ''yoes''\<rparr>"

definition plain_ioconf :: ioconf_s where
  "plain_ioconf = \<lparr>terminate_port = 0, terminate_socket = 0, initiate_host = [], initiate_port = 0,
     initiate_socket = 0\<rparr>"

definition plain_txconf :: txconf_s where
  "plain_txconf = \<lparr>worker_count = 16, ticker = \<lparr>tv_sec = 0, tv_nsec = 0\<rparr>, stream_total_bytes = 0,
     tx_workers = [], target_port_count = 0, target_port_cursor = 0, target_ports = [],
     input_eof = False, tx_done = False, input_fd = 0, waits = 0\<rparr>"

definition plain_rxconf :: rxconf_s where
  "plain_rxconf = \<lparr>workercount = 0, rx_socknum = 0, rx_port = 0, rx_workers = [], next_leg = 0,
     done_mbox = False, output_fd = 0\<rparr>"

text \<open>C35: tunnelling is full duplex: whenever \<^verbatim>\<open>terminate\<close> (with its port set) or \<^verbatim>\<open>initiate\<close>
  (with its port set) returns, the transmitter's input and the receiver's output are the
  same socket, the accepted or connected one, and its number is what is returned.\<close>

theorem tunnel_full_duplex:
  assumes "connect_documented env"
  shows "(terminate_port ioc > 0 \<and> terminate env v clk txc rxc ioc = Inr (rc, txc', rxc', ioc') \<longrightarrow>
        input_fd txc' = rc \<and> output_fd rxc' = rc \<and> rc = fst (se_accept env) \<and> 2 < rc \<and>
        terminate_socket ioc' = fst (se_socket env)) \<and>
      (initiate_port ioc > 0 \<and> initiate env v txc rxc ioc = Inr (rd, txd, rxd) \<longrightarrow>
        input_fd txd = rd \<and> output_fd rxd = rd \<and> rd = fst (se_socket env) \<and> 0 < rd)"
proof (intro conjI impI; elim conjE)
  assume "terminate_port ioc > 0" "terminate env v clk txc rxc ioc = Inr (rc, txc', rxc', ioc')"
  then show "input_fd txc' = rc" "output_fd rxc' = rc" "rc = fst (se_accept env)" "2 < rc"
    "terminate_socket ioc' = fst (se_socket env)"
    by (auto simp: terminate_def Let_def res_iff tcp_accept_def tcp_recieve_prep_def)
next
  assume "initiate_port ioc > 0" "initiate env v txc rxc ioc = Inr (rd, txd, rxd)"
  then obtain opts where c: "tcp_connect env v 0 = Inr (rd, opts)"
    and s: "txd = txc\<lparr>input_fd := rd\<rparr>" "rxd = rxc\<lparr>output_fd := rd\<rparr>"
    by (auto simp: initiate_def res_iff)
  from s show "input_fd txd = rd" "output_fd rxd = rd" by simp_all
  from tcp_connect_ok(2) [OF assms c] show fd: "rd = fst (se_socket env)" by simp
  from tcp_connect_ok(3) [OF assms c] fd show "0 < rd" by simp
qed

theorem tunnel_full_duplex_witness:
  "initiate plain_env 0 plain_txconf plain_rxconf (plain_ioconf\<lparr>initiate_port := 22\<rparr>) =
     Inr (5, plain_txconf\<lparr>input_fd := 5\<rparr>, plain_rxconf\<lparr>output_fd := 5\<rparr>) \<and>
   5 = fst (se_socket plain_env)"
proof -
  have d: "connect_documented plain_env"
    by (simp add: connect_documented_def plain_env_def)
  have i: "initiate plain_env 0 plain_txconf plain_rxconf (plain_ioconf\<lparr>initiate_port := 22\<rparr>) =
     Inr (5, plain_txconf\<lparr>input_fd := 5\<rparr>, plain_rxconf\<lparr>output_fd := 5\<rparr>)"
    by (simp add: initiate_def tcp_connect_def plain_env_def tcp_geterr_def)
  have p: "0 < initiate_port (plain_ioconf\<lparr>initiate_port := 22\<rparr>)" by simp
  from tunnel_full_duplex [OF d, THEN conjunct2, THEN mp, OF conjI, OF p i] i
  show ?thesis by blast
qed



end
