(* ===== verification/Vm_Args.thy ===== *)
theory Vm_Args
  imports Vm_Terminate
begin

text \<open>
  The command line of \<^verbatim>\<open>main\<close> in \<^verbatim>\<open>viamillipede.c\<close>: number conversion as the C library does
  it, one definition per option clause, and the loop over \<^verbatim>\<open>argv\<close>. The clauses stand one
  after the other without \<^verbatim>\<open>else\<close>, so each also looks at the word the clause before it
  stopped at. \<open>chaosb\<close> says whether the program was compiled with \<^verbatim>\<open>CHAOS\<close>.
\<close>

section \<open>atoi and strtoul\<close>

definition ERANGE :: errno where "ERANGE = 34"

definition c_isspace :: "char \<Rightarrow> bool" where
  "c_isspace c \<longleftrightarrow> of_char c = (32::nat) \<or> (9 \<le> (of_char c :: nat) \<and> (of_char c :: nat) \<le> 13)"

definition digit_val :: "char \<Rightarrow> nat option" where
  "digit_val c =
     (let n = of_char c :: nat in
      if 48 \<le> n \<and> n \<le> 57 then Some (n - 48)
      else if 97 \<le> n \<and> n \<le> 122 then Some (n - 87)
      else if 65 \<le> n \<and> n \<le> 90 then Some (n - 55)
      else None)"

fun digits_value :: "nat \<Rightarrow> nat \<Rightarrow> string \<Rightarrow> nat" where
  "digits_value base acc [] = acc"
| "digits_value base acc (c # cs) =
     (case digit_val c of
        Some d \<Rightarrow> if d < base then digits_value base (acc * base + d) cs else acc
      | None \<Rightarrow> acc)"

definition split_sign :: "string \<Rightarrow> bool \<times> string" where
  "split_sign s =
     (let s = dropWhile c_isspace s in
      case s of
        [] \<Rightarrow> (False, [])
      | c # cs \<Rightarrow> if c = CHR ''-'' then (True, cs) else if c = CHR ''+'' then (False, cs) else (False, s))"

text \<open>\<^verbatim>\<open>atoi(s)\<close> is \<^verbatim>\<open>(int)strtol(s, NULL, 10)\<close>: clamped to a \<^verbatim>\<open>long\<close>, then cut to 32 bits.\<close>

definition strtol10 :: "string \<Rightarrow> int \<times> errno" where
  "strtol10 s =
     (let (neg, ds) = split_sign s; n = int (digits_value 10 0 ds) in
      if neg then (if n > 2 ^ 63 then (- (2 ^ 63), ERANGE) else (- n, 0))
      else if n > 2 ^ 63 - 1 then (2 ^ 63 - 1, ERANGE) else (n, 0))"

definition to_int :: "int \<Rightarrow> int" where
  "to_int n = sint (word_of_int n :: 32 word)"

definition atoi :: "string \<Rightarrow> int \<times> errno" where
  "atoi s = (let (n, e) = strtol10 s in (to_int n, e))"

definition hex_prefix :: "string \<Rightarrow> bool" where
  "hex_prefix ds \<longleftrightarrow>
     (case ds of
        a # b # c # _ \<Rightarrow> a = CHR ''0'' \<and> (b = CHR ''x'' \<or> b = CHR ''X'') \<and>
          (case digit_val c of Some d \<Rightarrow> d < 16 | None \<Rightarrow> False)
      | _ \<Rightarrow> False)"

definition strtoul0 :: "string \<Rightarrow> u64 \<times> errno" where
  "strtoul0 s =
     (let (neg, ds) = split_sign s;
          n = (if hex_prefix ds then digits_value 16 0 (drop 2 ds)
               else if ds \<noteq> [] \<and> hd ds = CHR ''0'' then digits_value 8 0 ds
               else digits_value 10 0 ds) in
      if n \<ge> 2 ^ 64 then (- 1, ERANGE) else ((if neg then - of_nat n else of_nat n), 0))"

section \<open>Options\<close>

definition MODE_TX :: u32 where "MODE_TX = 2"
definition MODE_RX :: u32 where "MODE_RX = 4"
definition MODE_PRBS :: u32 where "MODE_PRBS = 8"
definition USHRT_MAX :: int where "USHRT_MAX = 65535"

record pst =
  ps_cursor :: nat
  ps_errno :: errno
  ps_g :: globals
  ps_tx :: txconf_s
  ps_rx :: rxconf_s
  ps_io :: ioconf_s

text \<open>\<^verbatim>\<open>argv[argc]\<close> is the null pointer; following it is a fault.\<close>

definition arg :: "string list \<Rightarrow> nat \<Rightarrow> string res" where
  "arg argv i = (if i < length argv then Inr (argv ! i) else Inl Segv)"

definition is_opt :: "string list \<Rightarrow> string \<Rightarrow> pst \<Rightarrow> bool res" where
  "is_opt argv name s = bindE (arg argv (ps_cursor s)) (\<lambda>a. Inr (a = name))"

definition on_opt :: "string list \<Rightarrow> string \<Rightarrow> (pst \<Rightarrow> pst res) \<Rightarrow> pst \<Rightarrow> pst res" where
  "on_opt argv name body s = bindE (is_opt argv name s) (\<lambda>b. if b then body s else Inr s)"

definition advance :: "pst \<Rightarrow> pst" where
  "advance s = s\<lparr>ps_cursor := ps_cursor s + 1\<rparr>"

text \<open>Advance to the option's value with the code's bounds check and convert it.\<close>

definition next_atoi :: "string list \<Rightarrow> pst \<Rightarrow> (pst \<times> int) res" where
  "next_atoi argv s =
     (let s = advance s in
      bindE (assertE (ps_cursor s < length argv)) (\<lambda>_.
      bindE (arg argv (ps_cursor s)) (\<lambda>a.
      let (n, e) = atoi a in Inr (s\<lparr>ps_errno := seterr (ps_errno s) e\<rparr>, n))))"

definition set_mode :: "u32 \<Rightarrow> pst \<Rightarrow> pst" where
  "set_mode m s = s\<lparr>ps_g := (ps_g s)\<lparr>mode := mode (ps_g s) OR m\<rparr>\<rparr>"

definition opt_rx :: "string list \<Rightarrow> pst \<Rightarrow> pst res" where
  "opt_rx argv = on_opt argv ''rx'' (\<lambda>s.
     bindE (next_atoi argv s) (\<lambda>(s, users_input_port).
     bindE (assertE (0 < users_input_port \<and> users_input_port < USHRT_MAX)) (\<lambda>_.
     let s = set_mode MODE_RX (s\<lparr>ps_rx := (ps_rx s)\<lparr>rx_port := word_of_int users_input_port\<rparr>\<rparr>) in
     bindE (checkperror (ps_errno s)) (\<lambda>_. Inr s))))"

text \<open>Storing into \<^verbatim>\<open>target_ports[target_port_count]\<close> past the array's end is a fault.\<close>

definition opt_tx :: "string list \<Rightarrow> pst \<Rightarrow> pst res" where
  "opt_tx argv = on_opt argv ''tx'' (\<lambda>s.
     let s = advance s in
     bindE (assertE (ps_cursor s < length argv)) (\<lambda>_.
     bindE (arg argv (ps_cursor s)) (\<lambda>host.
     bindE (assertE (length host > 0)) (\<lambda>_.
     bindE (checkperror (ps_errno s)) (\<lambda>_.
     let k = nat (target_port_count (ps_tx s)) in
     if \<not> k < kthreadmax then Inl Segv else
     bindE (next_atoi argv s) (\<lambda>(s, users_input_port).
     bindE (assertE (0 < users_input_port \<and> users_input_port < USHRT_MAX)) (\<lambda>_.
     let tp = \<lparr>tp_name = host, tp_port = word_of_int users_input_port\<rparr>;
         txc = (ps_tx s)\<lparr>target_ports := (target_ports (ps_tx s))[k := tp]\<rparr> in
     bindE (checkperror (ps_errno s)) (\<lambda>_.
     Inr (set_mode MODE_TX (s\<lparr>ps_tx := txc\<lparr>target_port_count := target_port_count txc + 1\<rparr>\<rparr>))))))))))"

definition opt_threads :: "string list \<Rightarrow> pst \<Rightarrow> pst res" where
  "opt_threads argv = on_opt argv ''threads'' (\<lambda>s.
     bindE (next_atoi argv s) (\<lambda>(s, n).
     let s = s\<lparr>ps_tx := (ps_tx s)\<lparr>worker_count := n\<rparr>\<rparr> in
     bindE (checkperror (ps_errno s)) (\<lambda>_.
     bindE (assertE (worker_count (ps_tx s) \<le> 16)) (\<lambda>_. Inr s))))"

definition opt_verbose :: "string list \<Rightarrow> pst \<Rightarrow> pst res" where
  "opt_verbose argv = on_opt argv ''verbose'' (\<lambda>s.
     bindE (next_atoi argv s) (\<lambda>(s, n). Inr (s\<lparr>ps_g := (ps_g s)\<lparr>gverbose := n\<rparr>\<rparr>)))"

definition opt_checksums :: "string list \<Rightarrow> pst \<Rightarrow> pst res" where
  "opt_checksums argv = on_opt argv ''checksums'' (\<lambda>s.
     let s = s\<lparr>ps_g := (ps_g s)\<lparr>gchecksums := True\<rparr>\<rparr> in
     bindE (checkperror (ps_errno s)) (\<lambda>_. Inr s))"

definition opt_delayus :: "string list \<Rightarrow> pst \<Rightarrow> pst res" where
  "opt_delayus argv = on_opt argv ''delayus'' (\<lambda>s.
     bindE (next_atoi argv s) (\<lambda>(s, n).
     let s = s\<lparr>ps_g := (ps_g s)\<lparr>gdelay_us := word_of_int n\<rparr>\<rparr> in
     bindE (checkperror (ps_errno s)) (\<lambda>_. Inr s)))"

definition opt_chaos :: "bool \<Rightarrow> string list \<Rightarrow> pst \<Rightarrow> pst res" where
  "opt_chaos chaosb argv = (if \<not> chaosb then Inr else on_opt argv ''chaos'' (\<lambda>s.
     bindE (next_atoi argv s) (\<lambda>(s, n).
     let s = s\<lparr>ps_g := (ps_g s)\<lparr>gchaos := word_of_int n, gchaoscounter := word_of_int n\<rparr>\<rparr> in
     bindE (checkperror (ps_errno s)) (\<lambda>_. Inr s))))"

definition opt_checkphrase :: "string list \<Rightarrow> pst \<Rightarrow> pst res" where
  "opt_checkphrase argv = on_opt argv ''checkphrase'' (\<lambda>s.
     let s = advance s in
     bindE (assertE (ps_cursor s < length argv)) (\<lambda>_.
     bindE (arg argv (ps_cursor s)) (\<lambda>a. Inr (s\<lparr>ps_g := (ps_g s)\<lparr>gcheckphrase := a\<rparr>\<rparr>))))"

definition opt_terminate :: "string list \<Rightarrow> pst \<Rightarrow> pst res" where
  "opt_terminate argv = on_opt argv ''terminate'' (\<lambda>s.
     bindE (next_atoi argv s) (\<lambda>(s, n). Inr (s\<lparr>ps_io := (ps_io s)\<lparr>terminate_port := word_of_int n\<rparr>\<rparr>)))"

text \<open>\<^verbatim>\<open>initiate\<close> does not check that its two values are there.\<close>

definition opt_initiate :: "string list \<Rightarrow> pst \<Rightarrow> pst res" where
  "opt_initiate argv = on_opt argv ''initiate'' (\<lambda>s.
     let s = advance s in
     bindE (arg argv (ps_cursor s)) (\<lambda>host.
     bindE (assertE (length host > 0)) (\<lambda>_.
     let s = advance (s\<lparr>ps_io := (ps_io s)\<lparr>initiate_host := host\<rparr>\<rparr>) in
     bindE (arg argv (ps_cursor s)) (\<lambda>a.
     let (n, e) = atoi a in
     Inr (s\<lparr>ps_errno := seterr (ps_errno s) e, ps_io := (ps_io s)\<lparr>initiate_port := word_of_int n\<rparr>\<rparr>)))))"

definition opt_charmode :: "string list \<Rightarrow> pst \<Rightarrow> pst res" where
  "opt_charmode argv = on_opt argv ''charmode'' (\<lambda>s.
     Inr (s\<lparr>ps_g := (ps_g s)\<lparr>gcharmode := True\<rparr>\<rparr>))"

definition opt_prbs :: "string list \<Rightarrow> pst \<Rightarrow> pst res" where
  "opt_prbs argv = on_opt argv ''prbs'' (\<lambda>s.
     let s = advance (set_mode MODE_PRBS s) in
     bindE (assertE (ps_cursor s < length argv)) (\<lambda>_.
     bindE (arg argv (ps_cursor s)) (\<lambda>a.
     let (n, e) = strtoul0 a in
     Inr (s\<lparr>ps_errno := seterr (ps_errno s) e, ps_g := (ps_g s)\<lparr>gprbs_seed := n\<rparr>\<rparr>))))"

definition opt_leglimit :: "string list \<Rightarrow> pst \<Rightarrow> pst res" where
  "opt_leglimit argv = on_opt argv ''leglimit'' (\<lambda>s.
     let s = advance (set_mode MODE_PRBS s) in
     bindE (assertE (ps_cursor s < length argv)) (\<lambda>_.
     bindE (arg argv (ps_cursor s)) (\<lambda>a.
     let (n, e) = strtoul0 a in
     Inr (s\<lparr>ps_errno := seterr (ps_errno s) e, ps_g := (ps_g s)\<lparr>gleg_limit := to_int (uint n)\<rparr>\<rparr>))))"

definition parse_clauses :: "bool \<Rightarrow> string list \<Rightarrow> (pst \<Rightarrow> pst res) list" where
  "parse_clauses chaosb argv =
     [opt_rx argv, opt_tx argv, opt_threads argv, opt_verbose argv, opt_checksums argv,
      opt_delayus argv, opt_chaos chaosb argv, opt_checkphrase argv, opt_terminate argv,
      opt_initiate argv, opt_charmode argv, opt_prbs argv, opt_leglimit argv]"

fun run_clauses :: "(pst \<Rightarrow> pst res) list \<Rightarrow> pst \<Rightarrow> pst res" where
  "run_clauses [] s = Inr s"
| "run_clauses (c # cs) s = bindE (c s) (run_clauses cs)"

text \<open>One round of \<^verbatim>\<open>while (arg_cursor < argc)\<close>, then the loop.\<close>

definition parse_round :: "bool \<Rightarrow> string list \<Rightarrow> pst \<Rightarrow> pst res" where
  "parse_round chaosb argv s =
     bindE (checkperror (ps_errno s)) (\<lambda>_.
     bindE (assertE (ps_errno s = 0)) (\<lambda>_.
     bindE (run_clauses (parse_clauses chaosb argv) s) (\<lambda>s. Inr (advance s))))"

fun parse_fuel :: "nat \<Rightarrow> bool \<Rightarrow> string list \<Rightarrow> pst \<Rightarrow> pst res option" where
  "parse_fuel 0 chaosb argv s = None"
| "parse_fuel (Suc f) chaosb argv s =
     (if ps_cursor s < length argv
      then (case parse_round chaosb argv s of Inl e \<Rightarrow> Some (Inl e) | Inr s' \<Rightarrow> parse_fuel f chaosb argv s')
      else Some (Inr s))"

text \<open>The values before the loop, from the static initialisers and the first lines of \<^verbatim>\<open>main\<close>.\<close>

definition no_target :: target_port_s where
  "no_target = \<lparr>tp_name = [], tp_port = 0\<rparr>"

definition parse_start :: pst where
  "parse_start = \<lparr>ps_cursor = 0, ps_errno = 0, ps_g = plain_globals,
     ps_tx = plain_txconf\<lparr>target_ports := replicate kthreadmax no_target, tx_workers := replicate kthreadmax blank_worker\<rparr>,
     ps_rx = plain_rxconf\<lparr>rx_workers := replicate kthreadmax blank_rxworker\<rparr>, ps_io = plain_ioconf\<rparr>"

definition parse_args :: "bool \<Rightarrow> string list \<Rightarrow> pst res option" where
  "parse_args chaosb argv =
     map_option (\<lambda>r. bindE r (\<lambda>s.
        bindE (checkperror (ps_errno s)) (\<lambda>_.
        bindE (assertE (\<not> (terminate_port (ps_io s) > 0 \<and> initiate_port (ps_io s) > 0))) (\<lambda>_. Inr s))))
     (parse_fuel (Suc (length argv)) chaosb argv parse_start)"

section \<open>Invariant of the parsed configuration\<close>

definition wf_target :: "target_port_s \<Rightarrow> bool" where
  "wf_target tp \<longleftrightarrow> tp_name tp \<noteq> [] \<and> 0 < unat (tp_port tp) \<and> unat (tp_port tp) < 65535"

definition wf_pst :: "pst \<Rightarrow> bool" where
  "wf_pst s \<longleftrightarrow>
     0 \<le> target_port_count (ps_tx s) \<and> target_port_count (ps_tx s) \<le> int kthreadmax \<and>
     length (target_ports (ps_tx s)) = kthreadmax \<and> length (tx_workers (ps_tx s)) = kthreadmax \<and>
     length (rx_workers (ps_rx s)) = kthreadmax \<and> ginitiator_oneshot (ps_g s) = 0 \<and>
     list_all wf_target (take (nat (target_port_count (ps_tx s))) (target_ports (ps_tx s))) \<and>
     worker_count (ps_tx s) \<le> int kthreadmax \<and>
     (mode (ps_g s) AND MODE_TX \<noteq> 0 \<longleftrightarrow> 0 < target_port_count (ps_tx s)) \<and>
     (mode (ps_g s) AND MODE_RX \<noteq> 0 \<longrightarrow> 0 < unat (rx_port (ps_rx s)) \<and> unat (rx_port (ps_rx s)) < 65535)"

definition keeps :: "(pst \<Rightarrow> pst res) \<Rightarrow> bool" where
  "keeps c \<longleftrightarrow> (\<forall>s s'. wf_pst s \<and> c s = Inr s' \<longrightarrow> wf_pst s' \<and> ps_cursor s \<le> ps_cursor s')"

lemma keepsD: "keeps c \<Longrightarrow> wf_pst s \<Longrightarrow> c s = Inr s' \<Longrightarrow> wf_pst s' \<and> ps_cursor s \<le> ps_cursor s'"
  by (auto simp: keeps_def)

lemma keeps_on_opt:
  assumes "\<And>s s'. wf_pst s \<Longrightarrow> body s = Inr s' \<Longrightarrow> wf_pst s' \<and> ps_cursor s \<le> ps_cursor s'"
  shows "keeps (on_opt argv name body)"
  using assms by (auto simp: keeps_def on_opt_def res_iff split: if_splits)

lemma mode_bits [simp]:
  "(m OR MODE_TX) AND MODE_TX \<noteq> 0" "((m OR MODE_TX) AND MODE_RX = 0) = (m AND MODE_RX = 0)"
  "(m OR MODE_RX) AND MODE_RX \<noteq> 0" "((m OR MODE_RX) AND MODE_TX = 0) = (m AND MODE_TX = 0)"
  "((m OR MODE_PRBS) AND MODE_TX = 0) = (m AND MODE_TX = 0)"
  "((m OR MODE_PRBS) AND MODE_RX = 0) = (m AND MODE_RX = 0)"
  "MODE_TX \<noteq> 0" "MODE_RX \<noteq> 0"
  by (simp_all add: MODE_TX_def MODE_RX_def MODE_PRBS_def bit.conj_disj_distrib2)

lemma next_atoi_Inr [res_iff]:
  "next_atoi argv s = Inr (s', n) \<longleftrightarrow>
     ps_cursor s + 1 < length argv \<and> n = fst (atoi (argv ! (ps_cursor s + 1))) \<and>
     s' = s\<lparr>ps_cursor := ps_cursor s + 1,
            ps_errno := seterr (ps_errno s) (snd (atoi (argv ! (ps_cursor s + 1))))\<rparr>"
  by (auto simp: next_atoi_def advance_def arg_def Let_def res_iff split_beta split: if_splits)

lemma unat_port: "0 < n \<Longrightarrow> n < USHRT_MAX \<Longrightarrow> unat (word_of_int n :: u16) = nat n"
  by (simp add: unsigned_of_int USHRT_MAX_def take_bit_int_eq_self)

lemma keeps_rx: "keeps (opt_rx argv)"
  unfolding opt_rx_def
  by (rule keeps_on_opt) (auto simp: res_iff Let_def set_mode_def wf_pst_def unat_port USHRT_MAX_def)

lemma take_nat_Suc_update:
  "0 \<le> k \<Longrightarrow> nat k < length xs \<Longrightarrow> take (nat (k + 1)) (xs[nat k := x]) = take (nat k) xs @ [x]"
  by (simp add: nat_add_distrib take_Suc_conv_app_nth)

lemma keeps_tx: "keeps (opt_tx argv)"
  unfolding opt_tx_def
  by (rule keeps_on_opt)
     (auto simp: res_iff Let_def set_mode_def wf_pst_def advance_def arg_def take_nat_Suc_update
        wf_target_def unat_port USHRT_MAX_def split: if_splits)

lemmas keeps_simps = res_iff Let_def wf_pst_def advance_def arg_def set_mode_def split_beta

lemma keeps_threads: "keeps (opt_threads argv)"
  unfolding opt_threads_def by (rule keeps_on_opt) (auto simp: keeps_simps kthreadmax_def)

lemma keeps_verbose: "keeps (opt_verbose argv)"
  unfolding opt_verbose_def by (rule keeps_on_opt) (auto simp: keeps_simps)
lemma keeps_checksums: "keeps (opt_checksums argv)"
  unfolding opt_checksums_def by (rule keeps_on_opt) (auto simp: keeps_simps)
lemma keeps_delayus: "keeps (opt_delayus argv)"
  unfolding opt_delayus_def by (rule keeps_on_opt) (auto simp: keeps_simps)
lemma keeps_chaos: "keeps (opt_chaos b argv)"
proof (cases b)
  case True
  then show ?thesis
    unfolding opt_chaos_def by (simp, intro keeps_on_opt) (auto simp: keeps_simps)
qed (simp add: opt_chaos_def keeps_def)
lemma keeps_checkphrase: "keeps (opt_checkphrase argv)"
  unfolding opt_checkphrase_def by (rule keeps_on_opt) (auto simp: keeps_simps split: if_splits)
lemma keeps_terminate: "keeps (opt_terminate argv)"
  unfolding opt_terminate_def by (rule keeps_on_opt) (auto simp: keeps_simps)
lemma keeps_initiate: "keeps (opt_initiate argv)"
  unfolding opt_initiate_def by (rule keeps_on_opt) (auto simp: keeps_simps split: if_splits)
lemma keeps_charmode: "keeps (opt_charmode argv)"
  unfolding opt_charmode_def by (rule keeps_on_opt) (auto simp: keeps_simps)
lemma keeps_prbs: "keeps (opt_prbs argv)"
  unfolding opt_prbs_def by (rule keeps_on_opt) (auto simp: keeps_simps split: if_splits)
lemma keeps_leglimit: "keeps (opt_leglimit argv)"
  unfolding opt_leglimit_def by (rule keeps_on_opt) (auto simp: keeps_simps split: if_splits)

lemma keeps_run: "list_all keeps cs \<Longrightarrow> keeps (run_clauses cs)"
proof (induction cs)
  case Nil
  then show ?case by (simp add: keeps_def)
next
  case (Cons c cs)
  then have c: "keeps c" and cs: "keeps (run_clauses cs)" by auto
  show ?case
    unfolding keeps_def
  proof (intro allI impI, elim conjE)
    fix s s' assume wf: "wf_pst s" and r: "run_clauses (c # cs) s = Inr s'"
    then obtain t where t: "c s = Inr t" "run_clauses cs t = Inr s'" by (auto simp: res_iff)
    from keepsD [OF c wf t(1)] have "wf_pst t" "ps_cursor s \<le> ps_cursor t" by auto
    with keepsD [OF cs _ t(2)] show "wf_pst s' \<and> ps_cursor s \<le> ps_cursor s'" by auto
  qed
qed

lemma keeps_clauses: "keeps (run_clauses (parse_clauses b argv))"
  by (rule keeps_run)
     (simp add: parse_clauses_def keeps_rx keeps_tx keeps_threads keeps_verbose keeps_checksums
       keeps_delayus keeps_chaos keeps_checkphrase keeps_terminate keeps_initiate keeps_charmode
       keeps_prbs keeps_leglimit)

lemma parse_round_wf:
  assumes "wf_pst s" "parse_round b argv s = Inr s'"
  shows "wf_pst s'" "ps_cursor s < ps_cursor s'"
proof -
  from assms(2) obtain t where t: "run_clauses (parse_clauses b argv) s = Inr t" "s' = advance t"
    by (auto simp: parse_round_def res_iff)
  from keepsD [OF keeps_clauses assms(1) t(1)] t(2)
  show "wf_pst s'" "ps_cursor s < ps_cursor s'"
    by (auto simp: advance_def wf_pst_def)
qed

lemma parse_fuel_returns:
  assumes "wf_pst s" "length argv - ps_cursor s < f"
  shows "\<exists>r. parse_fuel f b argv s = Some r \<and> (\<forall>s'. r = Inr s' \<longrightarrow> wf_pst s' \<and> length argv \<le> ps_cursor s')"
  using assms
proof (induction f arbitrary: s)
  case 0
  then show ?case by simp
next
  case (Suc f)
  show ?case
  proof (cases "parse_round b argv s")
    case (Inl e)
    with Suc.prems show ?thesis by simp
  next
    case (Inr s')
    with parse_round_wf [OF Suc.prems(1) Inr] Suc show ?thesis by auto
  qed
qed


lemma parse_start_wf: "wf_pst parse_start"
  by (simp add: parse_start_def wf_pst_def plain_txconf_def plain_globals_def kthreadmax_def)

section \<open>Decimal numerals\<close>

fun decimal :: "nat \<Rightarrow> string" where
  "decimal n = (if n < 10 then [char_of (48 + n)] else decimal (n div 10) @ [char_of (48 + n mod 10)])"

declare decimal.simps [simp del]

lemma digit_val_digit: "d < 10 \<Longrightarrow> digit_val (char_of (48 + d)) = Some d"
  by (simp add: digit_val_def Let_def of_char_of)

lemma digits_value_decimal: "digits_value 10 0 (decimal n @ cs) = digits_value 10 n cs"
proof (induction n arbitrary: cs rule: decimal.induct)
  case (1 n)
  show ?case
  proof (cases "n < 10")
    case True
    then show ?thesis by (subst decimal.simps) (simp add: digit_val_digit)
  next
    case False
    with 1 show ?thesis
      by (subst decimal.simps) (simp add: digit_val_digit)
  qed
qed

lemma decimal_Cons: "\<exists>d cs. (d::nat) < 10 \<and> decimal n = char_of (48 + d) # cs"
proof (induction n rule: decimal.induct)
  case (1 n)
  show ?case
  proof (cases "n < 10")
    case True
    then show ?thesis by (subst decimal.simps) auto
  next
    case False
    with 1 obtain d :: nat and cs where "d < 10" "decimal (n div 10) = char_of (48 + d) # cs" by blast
    with False show ?thesis
      by (intro exI [of _ d] exI [of _ "cs @ [char_of (48 + n mod 10)]"]) (simp add: decimal.simps [of n])
  qed
qed

lemma decimal_neq:
  assumes "\<not> (48 \<le> (of_char c :: nat) \<and> (of_char c :: nat) < 58)"
  shows "decimal n \<noteq> c # cs"
proof -
  obtain d :: nat and ds where d: "d < 10" "decimal n = char_of (48 + d) # ds" using decimal_Cons by blast
  have "of_char (char_of (48 + d) :: char) = 48 + d" using d(1) by (simp add: of_char_of)
  with assms d show ?thesis by auto
qed

lemma split_sign_decimal: "split_sign (decimal n) = (False, decimal n)"
proof -
  obtain d :: nat and ds where d: "d < 10" "decimal n = char_of (48 + d) # ds" using decimal_Cons by blast
  have c: "of_char (char_of (48 + d) :: char) = 48 + d" using d(1) by (simp add: of_char_of)
  have "\<not> c_isspace (char_of (48 + d))" using c by (simp add: c_isspace_def)
  moreover have "x \<noteq> CHR ''-'' \<and> x \<noteq> CHR ''+''" if "of_char x = 48 + d" for x
    using that by auto
  from this [OF c] have "char_of (48 + d) \<noteq> CHR ''-''" "char_of (48 + d) \<noteq> CHR ''+''" by auto
  ultimately show ?thesis by (simp add: split_sign_def d(2))
qed

lemma atoi_decimal: "n < 2 ^ 31 \<Longrightarrow> atoi (decimal n) = (int n, 0)"
  using digits_value_decimal [of n "[]"]
  by (simp add: atoi_def strtol10_def split_sign_decimal to_int_def signed_of_int signed_take_bit_int_eq_self)


lemma parse_args_returns:
  "\<exists>r. parse_args b argv = Some r \<and>
     (case r of Inl e \<Rightarrow> True
      | Inr s \<Rightarrow> wf_pst s \<and> \<not> (terminate_port (ps_io s) > 0 \<and> initiate_port (ps_io s) > 0))"
proof -
  have "length argv - ps_cursor parse_start < Suc (length argv)" by simp
  from parse_fuel_returns [OF parse_start_wf this, of b]
  obtain r where r: "parse_fuel (Suc (length argv)) b argv parse_start = Some r"
    and wf: "\<And>s'. r = Inr s' \<Longrightarrow> wf_pst s'" by blast
  show ?thesis
    unfolding parse_args_def r option.map(2)
    using wf by (auto simp: bindE_def checkperror_def assertE_def split: sum.split)
qed

section \<open>Properties\<close>

text \<open>C23: reading the command line always ends, with a fault or with a configuration, and
  every configuration it accepts is well formed: at most 16 targets, each with a non-empty
  host and a port from 1 to 65534, at most 16 workers, the transmitter mode set exactly
  when there is a target, a receiver port from 1 to 65534 when the receiver mode is set,
  and not both a terminate and an initiate port.\<close>

theorem parse_args_total_wf:
  "\<exists>r. parse_args b argv = Some r \<and>
     (case r of Inl e \<Rightarrow> True
      | Inr s \<Rightarrow> wf_pst s \<and> \<not> (terminate_port (ps_io s) > 0 \<and> initiate_port (ps_io s) > 0))"
  by (rule parse_args_returns)

lemmas clause_defs = opt_rx_def opt_tx_def opt_threads_def opt_verbose_def opt_checksums_def
  opt_delayus_def opt_chaos_def opt_checkphrase_def opt_terminate_def opt_initiate_def
  opt_charmode_def opt_prbs_def opt_leglimit_def

definition option_names :: "string list" where
  "option_names = [''rx'', ''tx'', ''threads'', ''verbose'', ''checksums'', ''delayus'', ''chaos'',
     ''checkphrase'', ''terminate'', ''initiate'', ''charmode'', ''prbs'', ''leglimit'']"

lemma on_opt_skip [simp]:
  "ps_cursor s < length argv \<Longrightarrow> argv ! ps_cursor s \<noteq> name \<Longrightarrow> on_opt argv name body s = Inr s"
  by (simp add: on_opt_def is_opt_def arg_def)

lemma on_opt_take:
  "ps_cursor s < length argv \<Longrightarrow> argv ! ps_cursor s = name \<Longrightarrow> on_opt argv name body s = body s"
  by (simp add: on_opt_def is_opt_def arg_def)

lemma clauses_skip:
  assumes "ps_cursor s < length argv" "argv ! ps_cursor s \<notin> set option_names"
  shows "list_all (\<lambda>c. c s = Inr s) (parse_clauses b argv)"
  using assms by (simp add: parse_clauses_def clause_defs option_names_def)

lemma run_clauses_skip: "list_all (\<lambda>c. c s = Inr s) cs \<Longrightarrow> run_clauses cs s = Inr s"
  by (induction cs) auto

lemma parse_round_skip:
  assumes "ps_cursor s < length argv" "argv ! ps_cursor s \<notin> set option_names" "ps_errno s = 0"
  shows "parse_round b argv s = Inr (advance s)"
  using run_clauses_skip [OF clauses_skip [OF assms(1,2), of b]] assms(3)
  by (simp add: parse_round_def)

text \<open>A first clause that returns at a word that is no option ends the round there.\<close>

lemma parse_round_rx:
  assumes "opt_rx argv s = Inr t" "ps_errno s = 0" "ps_cursor t < length argv"
    "argv ! ps_cursor t \<notin> set option_names"
  shows "parse_round b argv s = Inr (advance t)"
proof -
  have "run_clauses (tl (parse_clauses b argv)) t = Inr t"
    using clauses_skip [OF assms(3,4), of b] by (intro run_clauses_skip) (simp add: parse_clauses_def)
  with assms(1,2) show ?thesis
    by (simp add: parse_round_def parse_clauses_def)
qed

lemma parse_round_rx_fault:
  assumes "opt_rx argv s = Inl e" "ps_errno s = 0"
  shows "parse_round b argv s = Inl e"
  using assms by (simp add: parse_round_def parse_clauses_def)

lemma decimal_no_option: "decimal p \<notin> set option_names"
  by (simp add: option_names_def decimal_neq)

lemma parse_rx:
  assumes "p < 2 ^ 31"
  shows "parse_args False [''viamillipede'', ''rx'', decimal p] =
     Some (if 0 < p \<and> p < 65535
           then Inr (parse_start\<lparr>ps_cursor := 3, ps_g := plain_globals\<lparr>mode := MODE_RX\<rparr>,
                       ps_rx := (ps_rx parse_start)\<lparr>rx_port := of_nat p\<rparr>\<rparr>)
           else Inl Abort)"
proof -
  let ?argv = "[''viamillipede'', ''rx'', decimal p]"
  let ?s = "parse_start\<lparr>ps_cursor := 1\<rparr>"
  let ?t = "parse_start\<lparr>ps_cursor := 2, ps_g := plain_globals\<lparr>mode := MODE_RX\<rparr>,
                       ps_rx := (ps_rx parse_start)\<lparr>rx_port := of_nat p\<rparr>\<rparr>"
  have r1: "parse_round False ?argv parse_start = Inr ?s"
    by (subst parse_round_skip) (simp_all add: parse_start_def option_names_def advance_def)
  have rx: "opt_rx ?argv ?s = (if 0 < p \<and> p < 65535 then Inr ?t else Inl Abort)"
    using atoi_decimal [OF assms] unfolding opt_rx_def
    by (subst on_opt_take)
       (auto simp: next_atoi_def advance_def arg_def USHRT_MAX_def parse_start_def plain_globals_def
         plain_rxconf_def set_mode_def numeral_2_eq_2)
  show ?thesis
  proof (cases "0 < p \<and> p < 65535")
    case True
    with rx have "parse_round False ?argv ?s = Inr (advance ?t)"
      by (intro parse_round_rx) (simp_all add: decimal_no_option parse_start_def numeral_2_eq_2)
    with True r1 show ?thesis
      by (simp add: parse_args_def parse_start_def advance_def plain_ioconf_def)
  next
    case False
    with rx have "parse_round False ?argv ?s = Inl Abort"
      by (intro parse_round_rx_fault) (simp_all add: parse_start_def)
    with False r1 show ?thesis by (simp add: parse_args_def parse_start_def)
  qed
qed

lemma parse_round_tx:
  assumes "argv ! ps_cursor s = ''tx''" "opt_tx argv s = Inr t" "ps_errno s = 0" "ps_cursor s < length argv"
    "ps_cursor t < length argv" "argv ! ps_cursor t \<notin> set option_names"
  shows "parse_round b argv s = Inr (advance t)"
proof -
  have "opt_rx argv s = Inr s" using assms(1,4) by (simp add: opt_rx_def)
  moreover have "run_clauses (drop 2 (parse_clauses b argv)) t = Inr t"
    using clauses_skip [OF assms(5,6), of b] by (intro run_clauses_skip) (simp add: parse_clauses_def)
  ultimately show ?thesis using assms(2,3) by (simp add: parse_round_def parse_clauses_def)
qed

lemma parse_tx:
  assumes "host \<noteq> []" "0 < p" "p < 65535"
  shows "parse_args False [''viamillipede'', ''tx'', host, decimal p] =
     Some (Inr (parse_start\<lparr>ps_cursor := 4, ps_g := plain_globals\<lparr>mode := MODE_TX\<rparr>,
       ps_tx := (ps_tx parse_start)\<lparr>target_ports := (replicate kthreadmax no_target)[0 := \<lparr>tp_name = host, tp_port = of_nat p\<rparr>],
         target_port_count := 1\<rparr>\<rparr>))"
proof -
  let ?argv = "[''viamillipede'', ''tx'', host, decimal p]"
  let ?s = "parse_start\<lparr>ps_cursor := 1\<rparr>"
  let ?t = "parse_start\<lparr>ps_cursor := 3, ps_g := plain_globals\<lparr>mode := MODE_TX\<rparr>,
       ps_tx := (ps_tx parse_start)\<lparr>target_ports := (replicate kthreadmax no_target)[0 := \<lparr>tp_name = host, tp_port = of_nat p\<rparr>],
         target_port_count := 1\<rparr>\<rparr>"
  have r1: "parse_round False ?argv parse_start = Inr ?s"
    by (subst parse_round_skip) (simp_all add: parse_start_def option_names_def advance_def)
  have at: "atoi (decimal p) = (int p, 0)" using atoi_decimal [of p] assms(3) by simp
  have "0 < kthreadmax" by (simp add: kthreadmax_def)
  then have tx: "opt_tx ?argv ?s = Inr ?t"
    using at assms unfolding opt_tx_def
    by (subst on_opt_take)
       (simp_all add: next_atoi_def advance_def arg_def USHRT_MAX_def parse_start_def plain_globals_def plain_txconf_def
         set_mode_def numeral_2_eq_2 numeral_3_eq_3 Let_def)
  have "parse_round False ?argv ?s = Inr (advance ?t)"
    using tx by (intro parse_round_tx) (simp_all add: decimal_no_option parse_start_def numeral_3_eq_3)
  with r1 show ?thesis by (simp add: parse_args_def parse_start_def advance_def plain_ioconf_def)
qed

text \<open>C39: \<^verbatim>\<open>viamillipede rx <port>\<close> with the port in decimal: ports 1 to 65534 are accepted and
  stored unchanged, and 0 and every other number below \<open>2 ^ 31\<close>, 65535 among them, abort
  the program.\<close>

theorem rx_port_range:
  assumes "p < 2 ^ 31"
  shows "parse_args False [''viamillipede'', ''rx'', decimal p] =
     Some (if 0 < p \<and> p < 65535
           then Inr (parse_start\<lparr>ps_cursor := 3, ps_g := plain_globals\<lparr>mode := MODE_RX\<rparr>,
                       ps_rx := (ps_rx parse_start)\<lparr>rx_port := of_nat p\<rparr>\<rparr>)
           else Inl Abort)"
  using assms by (rule parse_rx)

theorem rx_port_range_witness:
  "parse_args False [''viamillipede'', ''rx'', ''65535''] = Some (Inl Abort)"
proof -
  have "decimal 65535 = ''65535''" by (simp add: decimal.simps char_of_def bit_0)
  with rx_port_range [of 65535] show ?thesis by simp
qed


definition full_table :: pst where
  "full_table = parse_start\<lparr>ps_tx := plain_txconf\<lparr>target_port_count := int kthreadmax\<rparr>\<rparr>"


text \<open>\<^verbatim>\<open>initiate\<close> as the last word, or with a host and no port, follows the null pointer
  at the end of \<^verbatim>\<open>argv\<close>; every other option reports the missing value with an assertion.\<close>

lemma initiate_missing_value:
  assumes "argv ! ps_cursor s = ''initiate''" "ps_cursor s < length argv" "length argv \<le> ps_cursor s + 2"
    and "ps_cursor s + 1 < length argv \<Longrightarrow> argv ! (ps_cursor s + 1) \<noteq> []"
  shows "opt_initiate argv s = Inl Segv"
  using assms unfolding opt_initiate_def by (subst on_opt_take) (auto simp: advance_def arg_def)

end
