(* ===== verification/Vm_Prbs.thy ===== *)
theory Vm_Prbs
  imports Vm_Cfg
begin

text \<open>
  \<^verbatim>\<open>prbs.c\<close>: the pseudorandom payload and its check. Both loops run over the buffer as
  an array of 64-bit words; \<open>sz\<close> is the buffer size in bytes.
\<close>

definition salt :: u64 where "salt = 0x42F0E1EBA9EA3693"

definition prbs_sequence :: "u64 \<Rightarrow> nat \<Rightarrow> u64" where
  "prbs_sequence permutation i = permutation XOR (salt * of_nat i)"

function prbs_gen_loop :: "byte list \<Rightarrow> u64 \<Rightarrow> nat \<Rightarrow> nat \<Rightarrow> byte list" where
  "prbs_gen_loop payload permutation i n =
     (if i < n
      then prbs_gen_loop (overwrite payload (8 * i) (le_bytes 8 (prbs_sequence permutation i)))
             permutation (Suc i) n
      else payload)"
  by pat_completeness auto
termination
  by (relation "measure (\<lambda>(payload, permutation, i, n). n - i)") auto

declare prbs_gen_loop.simps [simp del]

definition prbs_gen :: "byte list \<Rightarrow> u64 \<Rightarrow> nat \<Rightarrow> byte list" where
  "prbs_gen payload permutation sz = prbs_gen_loop payload permutation 0 (sz div 8)"

function prbs_verify_loop :: "byte list \<Rightarrow> u64 \<Rightarrow> nat \<Rightarrow> nat \<Rightarrow> int" where
  "prbs_verify_loop payload permutation i n =
     (if i < n
      then (if load64 payload (8 * i) \<noteq> prbs_sequence permutation i then 0
            else prbs_verify_loop payload permutation (Suc i) n)
      else 1)"
  by pat_completeness auto
termination
  by (relation "measure (\<lambda>(payload, permutation, i, n). n - i)") auto

declare prbs_verify_loop.simps [simp del]

definition prbs_verify :: "byte list \<Rightarrow> u64 \<Rightarrow> nat \<Rightarrow> int" where
  "prbs_verify payload permutation sz = prbs_verify_loop payload permutation 0 (sz div 8)"

section \<open>What the generator writes\<close>

definition prbs_bytes :: "u64 \<Rightarrow> nat \<Rightarrow> nat \<Rightarrow> byte list" where
  "prbs_bytes permutation i n = concat (map (\<lambda>k. le_bytes 8 (prbs_sequence permutation k)) [i..<n])"

lemma prbs_bytes_rec:
  "prbs_bytes p i n = (if i < n then le_bytes 8 (prbs_sequence p i) @ prbs_bytes p (Suc i) n else [])"
  by (simp add: prbs_bytes_def upt_rec)

lemma length_prbs_bytes [simp]: "length (prbs_bytes p i n) = 8 * (n - i)"
  by (simp add: prbs_bytes_def length_concat comp_def sum_list_triv)

lemma prbs_gen_loop_eq:
  "8 * n \<le> length buf \<Longrightarrow> i \<le> n \<Longrightarrow>
   prbs_gen_loop buf p i n = overwrite buf (8 * i) (prbs_bytes p i n)"
proof (induction buf p i n rule: prbs_gen_loop.induct)
  case (1 buf p i n)
  show ?case
  proof (cases "i < n")
    case True
    let ?b = "le_bytes 8 (prbs_sequence p i)"
    have "prbs_gen_loop buf p i n = overwrite (overwrite buf (8 * i) ?b) (8 * Suc i) (prbs_bytes p (Suc i) n)"
      using "1.IH" [OF True] "1.prems" True by (subst prbs_gen_loop.simps) simp
    also have "\<dots> = overwrite buf (8 * i) (?b @ prbs_bytes p (Suc i) n)"
      using overwrite_overwrite [of "8 * i" buf ?b] "1.prems" True by (simp add: add.commute)
    finally show ?thesis using True by (simp add: prbs_bytes_rec [of p i])
  next
    case False
    then show ?thesis
      by (subst prbs_gen_loop.simps) (simp add: prbs_bytes_rec [of p i] overwrite_def)
  qed
qed

lemma prbs_gen_eq:
  "sz \<le> length buf \<Longrightarrow>
   prbs_gen buf p sz = prbs_bytes p 0 (sz div 8) @ drop (8 * (sz div 8)) buf"
  by (simp add: prbs_gen_def prbs_gen_loop_eq overwrite_0)

lemma length_prbs_gen [simp]: "sz \<le> length buf \<Longrightarrow> length (prbs_gen buf p sz) = length buf"
  by (simp add: prbs_gen_eq)

lemma load64_prbs_bytes:
  "i \<le> k \<Longrightarrow> k < n \<Longrightarrow> load64 (prbs_bytes p i n @ bs) (8 * (k - i)) = prbs_sequence p k"
proof (induction "k - i" arbitrary: i)
  case 0
  then show ?case by (simp add: prbs_bytes_rec [of p i])
next
  case (Suc d)
  then have "8 * (k - i) - 8 = 8 * (k - Suc i)" "8 \<le> 8 * (k - i)" by auto
  with Suc show ?case
    by (simp add: prbs_bytes_rec [of p i] load64_append_left)
qed

lemma prbs_verify_loop_iff:
  "prbs_verify_loop buf p i n = 1 \<longleftrightarrow> (\<forall>k. i \<le> k \<and> k < n \<longrightarrow> load64 buf (8 * k) = prbs_sequence p k)"
proof (induction buf p i n rule: prbs_verify_loop.induct)
  case (1 buf p i n)
  show ?case
    using "1.IH" by (subst prbs_verify_loop.simps) (auto simp: Suc_le_eq le_eq_less_or_eq [of i])
qed

lemma prbs_verify_iff:
  "prbs_verify buf p sz = 1 \<longleftrightarrow> (\<forall>k < sz div 8. load64 buf (8 * k) = prbs_sequence p k)"
  by (simp add: prbs_verify_def prbs_verify_loop_iff)

lemma prbs_verify_cong:
  assumes "take sz xs = take sz ys"
  shows "prbs_verify xs p sz = 1 \<longleftrightarrow> prbs_verify ys p sz = 1"
proof -
  have "take 8 (drop (8 * k) xs) = take 8 (drop (8 * k) ys)" if "k < sz div 8" for k
  proof -
    have "8 * k + 8 \<le> sz" using that by linarith
    then have "take 8 (drop (8 * k) zs) = take 8 (drop (8 * k) (take sz zs))" for zs :: "byte list"
      by (simp add: take_drop min_def)
    with assms show ?thesis by metis
  qed
  then show ?thesis by (simp add: prbs_verify_iff load64_def)
qed

section \<open>A self-checking payload\<close>

text \<open>
  What the transport relies on: a generated buffer passes its own check, passes no
  check for another permutation, and the check looks at the first \<open>sz\<close> bytes only.
  Hence a copy of the generated bytes at the receiver passes for the leg it was
  generated for and for no other.
\<close>

locale self_checking_payload =
  fixes gen :: "byte list \<Rightarrow> 'p \<Rightarrow> nat \<Rightarrow> byte list"
    and passes :: "byte list \<Rightarrow> 'p \<Rightarrow> nat \<Rightarrow> bool"
    and least :: nat
  assumes gen_length: "sz \<le> length buf \<Longrightarrow> length (gen buf p sz) = length buf"
    and passes_gen: "sz \<le> length buf \<Longrightarrow> least \<le> sz \<Longrightarrow> passes (gen buf p sz) q sz \<longleftrightarrow> p = q"
    and passes_prefix: "take sz xs = take sz ys \<Longrightarrow> passes xs q sz = passes ys q sz"
begin

lemma copy_passes_iff:
  assumes "sz \<le> length buf" "least \<le> sz"
  shows "passes (take sz (gen buf p sz) @ rest) q sz \<longleftrightarrow> p = q"
proof -
  have "take sz (take sz (gen buf p sz) @ rest) = take sz (gen buf p sz)"
    using assms by (simp add: gen_length min_def)
  from passes_prefix [OF this] show ?thesis using passes_gen [OF assms] by simp
qed

end

lemma prbs_verify_gen:
  assumes "sz \<le> length buf" "8 \<le> sz"
  shows "prbs_verify (prbs_gen buf p sz) q sz = 1 \<longleftrightarrow> p = q"
proof -
  have ld: "load64 (prbs_gen buf p sz) (8 * k) = prbs_sequence p k" if "k < sz div 8" for k
    unfolding prbs_gen_eq [OF assms(1)]
    using load64_prbs_bytes [OF le0 that, of p] by (simp only: minus_nat.diff_0)
  have "prbs_verify (prbs_gen buf p sz) q sz = 1 \<longleftrightarrow>
      (\<forall>k < sz div 8. prbs_sequence p k = prbs_sequence q k)"
    using ld by (auto simp: prbs_verify_iff)
  moreover have "0 < sz div 8" using assms(2) by simp
  moreover have "prbs_sequence r 0 = r" for r by (simp add: prbs_sequence_def)
  ultimately show ?thesis by metis
qed

interpretation prbs: self_checking_payload prbs_gen "\<lambda>b p sz. prbs_verify b p sz = 1" 8
proof (unfold_locales, goal_cases)
  case 1
  then show ?case by (rule length_prbs_gen)
next
  case 2
  then show ?case by (rule prbs_verify_gen)
next
  case 3
  then show ?case by (rule prbs_verify_cong)
qed

section \<open>Properties\<close>

text \<open>C26: the generated payload verifies for the permutation it was generated with and for
  no other, also after it was copied to the front of another buffer, as the receiver
  sees it: a payload delivered under the wrong leg number is always detected.\<close>

theorem prbs_roundtrip:
  assumes "sz \<le> length buf" "8 \<le> sz"
  shows "prbs_verify (take sz (prbs_gen buf p sz) @ rest) q sz = 1 \<longleftrightarrow> p = q"
  using assms by (rule prbs.copy_passes_iff)

theorem prbs_roundtrip_witness:
  "prbs_verify (take 9 (prbs_gen [0, 0, 0, 0, 0, 0, 0, 0, 0] 5 9) @ [1, 2]) 6 9 \<noteq> 1"
  using prbs_roundtrip [of 9 "[0, 0, 0, 0, 0, 0, 0, 0, 0]" 5 "[1, 2]" 6] by simp

text \<open>Odd multipliers are invertible modulo \<open>2 ^ 64\<close>, so the generator never repeats a word.\<close>

lemma salt_inverse: "(0x4C9508C198E7579B :: u64) * salt = 1"
  by (simp add: salt_def)

text \<open>the words of one generated payload are pairwise different, up to \<open>2 ^ 64\<close> of them:
  no two positions of a leg carry the same word.\<close>

lemma prbs_sequence_distinct:
  assumes "i < 2 ^ 64" "j < 2 ^ 64" "prbs_sequence p i = prbs_sequence p j"
  shows "i = j"
proof -
  have "salt * of_nat i = salt * of_nat j"
    using arg_cong [OF assms(3), of "\<lambda>x. p XOR x"]
    by (simp add: prbs_sequence_def xor.assoc [symmetric])
  then have "0x4C9508C198E7579B * salt * of_nat i = 0x4C9508C198E7579B * salt * (of_nat j :: u64)"
    by (simp only: mult.assoc)
  then show ?thesis
    using assms(1,2) by (simp only: salt_inverse mult_1_left of_nat_u64_inj)
qed

end
