(* ===== verification/Vm_Tx.thy ===== *)
theory Vm_Tx
  imports Vm_Plumbing Vm_Prbs Vm_Tcp
begin

text \<open>
  The transmitter, \<^verbatim>\<open>tx.c\<close>. Every function is split where another thread can see its
  effects: the segments between two such points are the atomic actions that theory
  \<open>Vm_Pipeline\<close> interleaves. Worker states are the code's characters; sleeps, printed
  status and probes are left out.
\<close>

section \<open>Worker states\<close>

definition worker :: "txconf_s \<Rightarrow> nat \<Rightarrow> txworker_s" where
  "worker c w = tx_workers c ! w"

definition upd_worker :: "(txworker_s \<Rightarrow> txworker_s) \<Rightarrow> nat \<Rightarrow> txconf_s \<Rightarrow> txconf_s" where
  "upd_worker f w c = c\<lparr>tx_workers := (tx_workers c)[w := f (tx_workers c ! w)]\<rparr>"

definition tx_state :: "txconf_s \<Rightarrow> nat \<Rightarrow> char" where
  "tx_state c w = tw_state (worker c w)"

definition tx_state_set :: "nat \<Rightarrow> char \<Rightarrow> txconf_s \<Rightarrow> txconf_s" where
  "tx_state_set w instate = upd_worker (\<lambda>t. t\<lparr>tw_state := instate\<rparr>) w"

section \<open>Dispatch\<close>

text \<open>
  One pass of \<^verbatim>\<open>dispatch_idle_worker\<close> under the \<^verbatim>\<open>txconf\<close> lock: the first idle worker, or -1
  and one more wait. The surrounding loop repeats the pass.
\<close>

function dispatch_scan :: "txconf_s \<Rightarrow> int \<Rightarrow> int" where
  "dispatch_scan c worker_cursor =
     (if worker_cursor < worker_count c
      then (if tx_state c (nat worker_cursor) = CHR ''i'' then worker_cursor
            else dispatch_scan c (worker_cursor + 1))
      else - 1)"
  by pat_completeness auto
termination
  by (relation "measure (\<lambda>(c, worker_cursor). nat (worker_count c - worker_cursor))") auto

declare dispatch_scan.simps [simp del]

definition dispatch_pass :: "txconf_s \<Rightarrow> (txconf_s \<times> nat option) res" where
  "dispatch_pass c =
     (let retcode = dispatch_scan c 0 in
      bindE (assertE (retcode < int kthreadmax)) (\<lambda>_.
      if retcode < 0 then Inr (c\<lparr>waits := waits c + 1\<rparr>, None) else Inr (c, Some (nat retcode))))"

definition start_worker :: "nat \<Rightarrow> txconf_s \<Rightarrow> txconf_s res" where
  "start_worker w c =
     bindE (assertE (tw_id (worker c w) < int kthreadmax)) (\<lambda>_. Inr (tx_state_set w (CHR ''d'') c))"

section \<open>Ingest\<close>

record ingest =
  ingest_leg_counter :: u64
  saved_checksum :: u64

definition ingest_begin :: ingest where
  "ingest_begin = \<lparr>ingest_leg_counter = 0, saved_checksum = 0xff\<rparr>"

text \<open>Lines 80 to 90: the source of the leg's bytes.\<close>

definition ingest_fill ::
  "globals \<Rightarrow> 's reader \<Rightarrow> 's \<Rightarrow> nat \<Rightarrow> txconf_s \<Rightarrow> ('s \<times> txconf_s \<times> nat) res" where
  "ingest_fill g rd s w c =
     (if gprbs_seed g > 0 then Inr (s, c, kfootsize)
      else bindE (bufferfill rd 0 s (tw_buffer (worker c w)) kfootsize (gcharmode g))
        (\<lambda>(s', buf, readsize). Inr (s', upd_worker (\<lambda>t. t\<lparr>tw_buffer := buf\<rparr>) w c, readsize)))"

text \<open>The three-way decision: a reached leg limit goes before a leg with bytes, else end of input.\<close>

definition leg_limit_reached :: "globals \<Rightarrow> ingest \<Rightarrow> bool" where
  "leg_limit_reached g ig \<longleftrightarrow> gleg_limit g > 0 \<and> word_of_int (gleg_limit g) = ingest_leg_counter ig"

definition ingest_feeds :: "globals \<Rightarrow> ingest \<Rightarrow> nat \<Rightarrow> bool" where
  "ingest_feeds g ig readsize \<longleftrightarrow> \<not> leg_limit_reached g ig \<and> readsize > 0"

definition feed_checksum :: "globals \<Rightarrow> ingest \<Rightarrow> byte list \<Rightarrow> nat \<Rightarrow> u64 option" where
  "feed_checksum g ig buf readsize =
     (if gchecksums g
      then mix (ucast (saved_checksum ig + ingest_leg_counter ig)) buf (of_nat readsize)
      else Some 0)"

definition ingest_feed ::
  "globals \<Rightarrow> nat \<Rightarrow> nat \<Rightarrow> txconf_s \<Rightarrow> ingest \<Rightarrow> (txconf_s \<times> ingest) res option" where
  "ingest_feed g w readsize c ig =
     map_option (\<lambda>sum.
       let c = upd_worker (\<lambda>t. t\<lparr>tw_pkt := (tw_pkt t)\<lparr>pkt_size := of_nat readsize,
                 leg_id := ingest_leg_counter ig, opcode := feed_more, checksum := sum\<rparr>\<rparr>) w c;
           ig = (if gchecksums g then ig\<lparr>saved_checksum := sum\<rparr> else ig) in
       bindE (start_worker w c) (\<lambda>c.
       Inr (c\<lparr>stream_total_bytes := stream_total_bytes c + of_nat readsize\<rparr>,
            ig\<lparr>ingest_leg_counter := ingest_leg_counter ig + 1\<rparr>)))
     (feed_checksum g ig (tw_buffer (worker c w)) readsize)"

text \<open>\<^verbatim>\<open>txshutdown\<close>: the flags are set under the lock, the last packet is loaded after it.\<close>

definition txshutdown_mark :: "txconf_s \<Rightarrow> txconf_s" where
  "txshutdown_mark c = c\<lparr>tx_done := True, input_eof := True\<rparr>"

definition txshutdown_send :: "nat \<Rightarrow> u64 \<Rightarrow> txconf_s \<Rightarrow> txconf_s res" where
  "txshutdown_send w leg c =
     start_worker w (upd_worker (\<lambda>t. t\<lparr>tw_pkt := (tw_pkt t)\<lparr>pkt_size := 0, leg_id := leg,
       opcode := end_of_millipede\<rparr>\<rparr>) w c)"

section \<open>Push\<close>

definition push_buffer :: "globals \<Rightarrow> txworker_s \<Rightarrow> byte list" where
  "push_buffer g t =
     (if gprbs_seed g > 0 then prbs_gen (tw_buffer t) (gprbs_seed g + leg_id (tw_pkt t)) kfootsize
      else tw_buffer t)"

text \<open>Up to the \<^verbatim>\<open>writev\<close>: state \<open>a\<close>, the size check, the generated payload, state \<open>P\<close>.\<close>

definition txpush_begin :: "globals \<Rightarrow> nat \<Rightarrow> txconf_s \<Rightarrow> txconf_s res" where
  "txpush_begin g w c =
     (let c = tx_state_set w (CHR ''a'') c;
          c = upd_worker (\<lambda>t. t\<lparr>tw_writeremainder := sint (ucast (pkt_size (tw_pkt t)) :: u32)\<rparr>) w c in
      bindE (assertE (tw_writeremainder (worker c w) \<le> int kfootsize)) (\<lambda>_.
      let c = upd_worker (\<lambda>t. t\<lparr>tw_buffer := push_buffer g t\<rparr>) w c;
          c = (if gdelay_us g \<noteq> 0 then tx_state_set w (CHR ''W'') c else c) in
      Inr (tx_state_set w (CHR ''P'') c)))"

definition txpush_wire :: "txworker_s \<Rightarrow> byte list" where
  "txpush_wire t = pkt_bytes (tw_pkt t) @ take (unat (pkt_size (tw_pkt t))) (tw_buffer t)"

definition txpush_written :: "nat \<Rightarrow> int \<Rightarrow> txconf_s \<Rightarrow> txconf_s res" where
  "txpush_written w writeret c =
     bindE (assertE (tw_writeremainder (worker c w) + int sizeof_millipacket = writeret)) (\<lambda>_.
     Inr (upd_worker (\<lambda>t. t\<lparr>tw_writeremainder := 0\<rparr>) w c))"

text \<open>\<^verbatim>\<open>retcode\<close> is 1 on every path, so only the successful end of \<^verbatim>\<open>txpush\<close> exists.\<close>

definition txpush_finish :: "nat \<Rightarrow> txconf_s \<Rightarrow> txconf_s res" where
  "txpush_finish w c =
     bindE (assertE (tw_writeremainder (worker c w) = 0)) (\<lambda>_.
     Inr (tx_state_set w (CHR ''i'')
       (upd_worker (\<lambda>t. t\<lparr>tw_pkt := (tw_pkt t)\<lparr>pkt_size := 0\<rparr>\<rparr>) w c)))"

definition txpush :: "globals \<Rightarrow> nat \<Rightarrow> txconf_s \<Rightarrow> (txconf_s \<times> byte list) res" where
  "txpush g w c =
     bindE (txpush_begin g w c) (\<lambda>c.
     let wire = txpush_wire (worker c w) in
     bindE (txpush_written w (int (length wire)) c) (\<lambda>c.
     bindE (txpush_finish w c) (\<lambda>c. Inr (c, wire))))"

section \<open>Connecting\<close>

text \<open>\<open>tx_tcp_connect_next\<close>: the target it connects to and the cursor left for the next call.\<close>

definition tx_tcp_connect_next :: "txconf_s \<Rightarrow> (target_port_s \<times> txconf_s) res" where
  "tx_tcp_connect_next c =
     (let chosen_target = target_port_cursor c; cursor = target_port_cursor c + 1 in
      if target_port_count c = 0 then Inl Fpe else
      let c = c\<lparr>target_port_cursor := cursor mod target_port_count c\<rparr> in
      bindE (assertE (target_port_cursor c < target_port_count c)) (\<lambda>_.
      Inr (target_ports c ! nat chosen_target, c)))"

text \<open>
  \<open>tx_start_net\<close>, in two parts: finding a connection and the check phrase exchange. \<open>dial k\<close> is the result of the \<open>k\<close>-th \<^verbatim>\<open>tcp_connect\<close>, \<open>done_at k\<close> the \<^verbatim>\<open>done\<close> flag
  read in round \<open>k\<close>, \<open>held\<close> whether the thread holds its own worker mutex: each round locks
  it and none unlocks it, and \<^verbatim>\<open>tx_state_set\<close> locks it too. \<open>wrote\<close> is the result of the
  check phrase's \<^verbatim>\<open>write\<close> with its \<^verbatim>\<open>errno\<close>, \<open>reply\<close> that of the \<^verbatim>\<open>read\<close> with its \<^verbatim>\<open>errno\<close> and \<^verbatim>\<open>readback\<close>.
\<close>

definition tx_state_set_locking :: "bool \<Rightarrow> nat \<Rightarrow> char \<Rightarrow> txconf_s \<Rightarrow> txconf_s res" where
  "tx_state_set_locking held w st c = (if held then Inl Deadlock else Inr (tx_state_set w st c))"

function tx_reconnect ::
  "(nat \<Rightarrow> int res) \<Rightarrow> (nat \<Rightarrow> bool) \<Rightarrow> nat \<Rightarrow> bool \<Rightarrow> nat \<Rightarrow> int \<Rightarrow> nat \<Rightarrow> txconf_s \<Rightarrow>
   (txconf_s \<times> int \<times> nat \<times> bool) res" where
  "tx_reconnect dial done_at k held fuse sockfd w c =
     (if sockfd = -1 \<and> fuse > 0 then
        if done_at k then bindE (tx_state_set_locking held w (CHR ''f'') c) (\<lambda>_. Inl Pthread_exit)
        else if held then Inl Deadlock
        else bindE (tx_tcp_connect_next c) (\<lambda>(_, c).
             bindE (dial (Suc k)) (\<lambda>fd.
             let fuse = (if fd > 0 then kreconnectlimit else fuse) in
             if fd > 0 then Inr (c, fd, fuse - 1, True)
             else tx_reconnect dial done_at (Suc k) True (fuse - 1) fd w c))
      else Inr (c, sockfd, fuse, held))"
  by pat_completeness auto
termination
  by (relation "measure (\<lambda>(dial, done_at, k, held, fuse, sockfd, w, c). fuse)") auto

declare tx_reconnect.simps [simp del]

definition tx_dial :: "(nat \<Rightarrow> int res) \<Rightarrow> (nat \<Rightarrow> bool) \<Rightarrow> nat \<Rightarrow> txconf_s \<Rightarrow> txconf_s res" where
  "tx_dial dial done_at w c =
     (let c = tx_state_set w (CHR ''c'') c in
      bindE (tx_tcp_connect_next c) (\<lambda>(_, c).
      bindE (dial 0) (\<lambda>fd.
      bindE (tx_reconnect dial done_at 0 False kreconnectlimit fd w c) (\<lambda>(c, fd, fuse, held).
      let c = upd_worker (\<lambda>t. t\<lparr>tw_sockfd := fd\<rparr>) w c in
      if fuse = 0 then bindE (tx_state_set_locking held w (CHR ''f'') c) (\<lambda>_. Inl Pthread_exit)
      else Inr c))))"

definition tx_shake :: "int \<times> errno \<Rightarrow> int \<times> errno \<times> string \<Rightarrow> nat \<Rightarrow> txconf_s \<Rightarrow> (txconf_s \<times> int) res" where
  "tx_shake wrote reply w c =
     bindE (checkperror (snd wrote)) (\<lambda>_.
     bindE (assertE (fst wrote = 4)) (\<lambda>_.
     bindE (checkperror (fst (snd reply))) (\<lambda>_.
     bindE (assertE (take 2 (snd (snd reply)) = ''ok'')) (\<lambda>_.
     Inr (upd_worker (\<lambda>t. t\<lparr>tw_writeremainder := -88\<rparr>) w c, fst reply)))))"

definition tx_start_net ::
  "(nat \<Rightarrow> int res) \<Rightarrow> (nat \<Rightarrow> bool) \<Rightarrow> int \<times> errno \<Rightarrow> int \<times> errno \<times> string \<Rightarrow> nat \<Rightarrow> txconf_s \<Rightarrow>
   (txconf_s \<times> int) res" where
  "tx_start_net dial done_at wrote reply w c = bindE (tx_dial dial done_at w c) (tx_shake wrote reply w)"

section \<open>The worker's state machine\<close>

text \<open>Lines 287 to 290: the worker turns idle first and resets its packet afterwards.\<close>

definition sm_online :: "nat \<Rightarrow> txconf_s \<Rightarrow> txconf_s" where
  "sm_online w = tx_state_set w (CHR ''i'')"

definition sm_reset :: "nat \<Rightarrow> txconf_s \<Rightarrow> txconf_s" where
  "sm_reset w = upd_worker (\<lambda>t. t\<lparr>tw_pkt := (tw_pkt t)\<lparr>pkt_size := 0, leg_id := 0,
     preamble := preamble_cannon_ul\<rparr>\<rparr>) w"

datatype sm_next = Sm_idle | Sm_push | Sm_restart

text \<open>The \<^verbatim>\<open>switch\<close> on the state read under the lock, together with the \<^verbatim>\<open>done\<close> flag read there.\<close>

definition sm_switch :: "nat \<Rightarrow> txconf_s \<Rightarrow> (sm_next \<times> bool) res" where
  "sm_switch w c =
     bindE (assertE (0 \<le> tw_id (worker c w) \<and> tw_id (worker c w) < int kthreadmax)) (\<lambda>_.
     let local_state = tx_state c w in
     if local_state = CHR ''i'' then Inr (Sm_idle, tx_done c)
     else if local_state = CHR ''d'' then Inr (Sm_push, tx_done c)
     else if local_state = CHR ''x'' then Inr (Sm_restart, tx_done c)
     else Inl (Exit EDOOFUS))"

section \<open>Set-up and polling\<close>

definition init_worker :: "nat \<Rightarrow> txworker_s \<Rightarrow> txworker_s" where
  "init_worker i t = t\<lparr>tw_id := int i, tw_state := CHR ''E'', tw_sockfd := 0,
     tw_pkt := (tw_pkt t)\<lparr>pkt_size := 0, leg_id := 0\<rparr>, tw_writeremainder := 0\<rparr>"

fun init_workers :: "nat \<Rightarrow> txconf_s \<Rightarrow> txconf_s" where
  "init_workers 0 c = c"
| "init_workers (Suc wcursor) c = init_workers wcursor (upd_worker (init_worker wcursor) wcursor c)"

text \<open>One round of \<^verbatim>\<open>txlaunchworkers\<close>; \<open>mem\<close> says whether \<^verbatim>\<open>calloc\<close> found memory, \<open>thr\<close> what
  \<^verbatim>\<open>pthread_create\<close> returned.\<close>

definition launch_worker :: "nat \<Rightarrow> txworker_s \<Rightarrow> txworker_s" where
  "launch_worker i t = t\<lparr>tw_state := CHR ''L'', tw_pkt := (tw_pkt t)\<lparr>leg_id := 0, pkt_size := -66\<rparr>,
     tw_sockfd := -66, tw_id := int i, tw_buffer := replicate kfootsize 0\<rparr>"

function txlaunchworkers :: "(nat \<Rightarrow> bool) \<Rightarrow> (nat \<Rightarrow> int) \<Rightarrow> nat \<Rightarrow> txconf_s \<Rightarrow> txconf_s res" where
  "txlaunchworkers mem thr worker_cursor c =
     (if int worker_cursor < worker_count c then
        if \<not> worker_cursor < length (tx_workers c) then Inl Segv
        else let c = upd_worker (launch_worker worker_cursor) worker_cursor c in
          bindE (assertE (mem worker_cursor)) (\<lambda>_.
          bindE (assertE (thr worker_cursor = 0)) (\<lambda>_.
          txlaunchworkers mem thr (Suc worker_cursor) c))
      else Inr c)"
  by pat_completeness auto
termination
  by (relation "measure (\<lambda>(mem, thr, wc, c). nat (worker_count c - int wc))")
     (auto simp: upd_worker_def)

declare txlaunchworkers.simps [simp del]

definition tx :: "timespec option \<Rightarrow> (nat \<Rightarrow> bool) \<Rightarrow> (nat \<Rightarrow> int) \<Rightarrow> txconf_s \<Rightarrow> txconf_s res" where
  "tx clk mem thr c =
     bindE (stopwatch_start clk) (\<lambda>t.
     let c = c\<lparr>ticker := t, tx_done := False, input_eof := False\<rparr> in
     txlaunchworkers mem thr 0 (init_workers kthreadmax c))"

text \<open>
  \<open>tx_poll\<close> looks at all workers again and again until none is busy, then at \<^verbatim>\<open>input_eof\<close>;
  it sees a sequence of snapshots of the shared state.
\<close>

definition tx_busy :: "txconf_s \<Rightarrow> bool" where
  "tx_busy c \<longleftrightarrow> (\<exists>i < nat (worker_count c). tx_state c i \<noteq> CHR ''i'' \<and> tx_state c i \<noteq> CHR ''f'')"

fun tx_poll :: "txconf_s list \<Rightarrow> int option" where
  "tx_poll [] = None"
| "tx_poll (c # cs) = (if tx_busy c then tx_poll cs else Some (if input_eof c then 1 else 0))"

section \<open>The worker table\<close>

text \<open>
  Dispatcher, workers and poller share the table of worker states through
  \<^verbatim>\<open>tx_state\<close> and \<^verbatim>\<open>tx_state_set\<close>; what they rely on is that a write is seen at its index
  and nowhere else.
\<close>

locale worker_table =
  fixes get :: "'c \<Rightarrow> nat \<Rightarrow> 'v"
    and put :: "nat \<Rightarrow> 'v \<Rightarrow> 'c \<Rightarrow> 'c"
    and slots :: "'c \<Rightarrow> nat"
  assumes get_put: "i < slots c \<Longrightarrow> get (put i v c) i = v"
    and get_put_other: "i \<noteq> j \<Longrightarrow> get (put i v c) j = get c j"
    and slots_put: "slots (put i v c) = slots c"
begin

lemma get_put_if: "i < slots c \<Longrightarrow> get (put i v c) j = (if j = i then v else get c j)"
  by (simp add: get_put get_put_other)

lemma put_last_wins: "i < slots c \<Longrightarrow> get (put i v (put i u c)) j = get (put i v c) j"
  by (simp add: get_put_if slots_put)

lemma put_commute:
  "i < slots c \<Longrightarrow> j < slots c \<Longrightarrow> i \<noteq> j \<Longrightarrow> get (put i v (put j u c)) k = get (put j u (put i v c)) k"
  by (auto simp: get_put_if slots_put)

end

lemma worker_upd_worker [simp]:
  "w < length (tx_workers c) \<Longrightarrow>
   worker (upd_worker f w c) j = (if j = w then f (worker c w) else worker c j)"
  by (simp add: worker_def upd_worker_def nth_list_update)

lemma upd_worker_frame [simp]:
  "length (tx_workers (upd_worker f w c)) = length (tx_workers c)"
  "worker_count (upd_worker f w c) = worker_count c" "tx_done (upd_worker f w c) = tx_done c"
  "input_eof (upd_worker f w c) = input_eof c" "waits (upd_worker f w c) = waits c"
  "stream_total_bytes (upd_worker f w c) = stream_total_bytes c"
  "target_ports (upd_worker f w c) = target_ports c"
  "target_port_count (upd_worker f w c) = target_port_count c"
  "target_port_cursor (upd_worker f w c) = target_port_cursor c"
  "input_fd (upd_worker f w c) = input_fd c" "ticker (upd_worker f w c) = ticker c"
  by (simp_all add: upd_worker_def)

lemma worker_frame [simp]:
  "worker (c\<lparr>waits := x\<rparr>) j = worker c j" "worker (c\<lparr>tx_done := d\<rparr>) j = worker c j"
  "worker (c\<lparr>input_eof := d\<rparr>) j = worker c j" "worker (c\<lparr>stream_total_bytes := x\<rparr>) j = worker c j"
  "worker (c\<lparr>target_port_cursor := y\<rparr>) j = worker c j" "worker (c\<lparr>ticker := t\<rparr>) j = worker c j"
  by (simp_all add: worker_def)

lemma upd_worker_upd_worker:
  "w < length (tx_workers c) \<Longrightarrow> upd_worker f w (upd_worker h w c) = upd_worker (\<lambda>t. f (h t)) w c"
  by (simp add: upd_worker_def)

interpretation txtable: worker_table tx_state tx_state_set "\<lambda>c. length (tx_workers c)"
  by unfold_locales
     (auto simp: tx_state_def tx_state_set_def worker_def upd_worker_def nth_list_update)

lemma tx_state_set_frame [simp]:
  "length (tx_workers (tx_state_set w x c)) = length (tx_workers c)"
  "worker_count (tx_state_set w x c) = worker_count c" "tx_done (tx_state_set w x c) = tx_done c"
  "input_eof (tx_state_set w x c) = input_eof c" "waits (tx_state_set w x c) = waits c"
  "target_port_count (tx_state_set w x c) = target_port_count c"
  "target_port_cursor (tx_state_set w x c) = target_port_cursor c"
  "target_ports (tx_state_set w x c) = target_ports c"
  by (simp_all add: tx_state_set_def)

section \<open>Dispatch\<close>

definition wf_txconf :: "txconf_s \<Rightarrow> bool" where
  "wf_txconf c \<longleftrightarrow> length (tx_workers c) = kthreadmax \<and> worker_count c \<le> int kthreadmax \<and>
     (\<forall>w < kthreadmax. tw_id (worker c w) = int w)"

lemma dispatch_scan_sound:
  "0 \<le> k \<Longrightarrow> dispatch_scan c k \<noteq> -1 \<Longrightarrow>
   k \<le> dispatch_scan c k \<and> dispatch_scan c k < worker_count c \<and>
   tx_state c (nat (dispatch_scan c k)) = CHR ''i''"
proof (induction c k rule: dispatch_scan.induct)
  case (1 c k)
  then show ?case
    by (cases "k < worker_count c \<and> tx_state c (nat k) \<noteq> CHR ''i''")
       (auto simp: dispatch_scan.simps [of c k] split: if_splits)
qed

lemma dispatch_scan_least:
  "0 \<le> k \<Longrightarrow> k \<le> int j \<Longrightarrow> int j < worker_count c \<Longrightarrow> tx_state c j = CHR ''i'' \<Longrightarrow>
   0 \<le> dispatch_scan c k \<and> dispatch_scan c k \<le> int j"
proof (induction c k rule: dispatch_scan.induct)
  case (1 c k)
  show ?case
  proof (cases "k < worker_count c \<and> tx_state c (nat k) \<noteq> CHR ''i''")
    case True
    with "1.prems" have "k \<noteq> int j" by auto
    with True 1 show ?thesis by (simp add: dispatch_scan.simps [of c k])
  next
    case False
    with "1.prems" show ?thesis by (auto simp: dispatch_scan.simps [of c k])
  qed
qed

lemma dispatch_pass_cases:
  assumes "worker_count c \<le> int kthreadmax"
  obtains (wait) "dispatch_pass c = Inr (c\<lparr>waits := waits c + 1\<rparr>, None)"
      "\<forall>j. int j < worker_count c \<longrightarrow> tx_state c j \<noteq> CHR ''i''"
  | (pick) w where "dispatch_pass c = Inr (c, Some w)" "int w < worker_count c" "w < kthreadmax"
      "tx_state c w = CHR ''i''" "\<forall>j < w. tx_state c j \<noteq> CHR ''i''"
proof (cases "dispatch_scan c 0 = -1")
  case True
  then have "\<forall>j. int j < worker_count c \<longrightarrow> tx_state c j \<noteq> CHR ''i''"
    using dispatch_scan_least [of 0 _ c] by fastforce
  with True show thesis by (intro wait) (simp_all add: dispatch_pass_def kthreadmax_def)
next
  case False
  let ?w = "nat (dispatch_scan c 0)"
  from dispatch_scan_sound [OF _ False]
  have w: "0 \<le> dispatch_scan c 0" "dispatch_scan c 0 < worker_count c" "tx_state c ?w = CHR ''i''" by auto
  have "\<forall>j < ?w. tx_state c j \<noteq> CHR ''i''"
  proof (intro allI impI notI)
    fix j assume "j < ?w" "tx_state c j = CHR ''i''"
    with dispatch_scan_least [of 0 j c] w show False by linarith
  qed
  with w assms show thesis by (intro pick [of ?w]) (auto simp: dispatch_pass_def)
qed

text \<open>C21: a dispatch pass never aborts, returns the lowest-numbered idle worker when one of
  the configured workers is idle, leaving the configuration as it is, and otherwise counts
  one wait and returns none.\<close>

theorem dispatch_lowest_idle:
  assumes "worker_count c \<le> int kthreadmax"
  shows "\<exists>r. dispatch_pass c = Inr r \<and>
     (case r of
        (c', Some w) \<Rightarrow> c' = c \<and> int w < worker_count c \<and> tx_state c w = CHR ''i'' \<and>
          (\<forall>j < w. tx_state c j \<noteq> CHR ''i'')
      | (c', None) \<Rightarrow> c' = c\<lparr>waits := waits c + 1\<rparr> \<and>
          (\<forall>j. int j < worker_count c \<longrightarrow> tx_state c j \<noteq> CHR ''i''))"
  using assms by (cases rule: dispatch_pass_cases) auto

definition pool3 :: txconf_s where
  "pool3 = \<lparr>worker_count = 3, ticker = \<lparr>tv_sec = 0, tv_nsec = 0\<rparr>, stream_total_bytes = 0,
     tx_workers = [blank_worker\<lparr>tw_state := CHR ''P''\<rparr>, blank_worker\<lparr>tw_id := 1, tw_state := CHR ''i''\<rparr>,
       blank_worker\<lparr>tw_id := 2, tw_state := CHR ''i''\<rparr>],
     target_port_count = 3, target_port_cursor = 0,
     target_ports = [\<lparr>tp_name = ''a'', tp_port = 1\<rparr>, \<lparr>tp_name = ''b'', tp_port = 2\<rparr>, \<lparr>tp_name = ''c'', tp_port = 3\<rparr>],
     input_eof = False, tx_done = False, input_fd = 0, waits = 0\<rparr>"

theorem dispatch_lowest_idle_witness: "dispatch_pass pool3 = Inr (pool3, Some 1)"
proof -
  have wc: "worker_count pool3 = 3" "worker_count pool3 \<le> int kthreadmax"
    by (simp_all add: pool3_def kthreadmax_def)
  have st: "tx_state pool3 0 \<noteq> CHR ''i''" "tx_state pool3 1 = CHR ''i''"
    by (simp_all add: pool3_def tx_state_def worker_def blank_worker_def)
  from dispatch_lowest_idle [OF wc(2)] obtain c' r where r: "dispatch_pass pool3 = Inr (c', r)"
    and picked: "case r of Some w \<Rightarrow> c' = pool3 \<and> int w < 3 \<and> tx_state pool3 w = CHR ''i'' \<and>
        (\<forall>j < w. tx_state pool3 j \<noteq> CHR ''i'')
      | None \<Rightarrow> (\<forall>j. int j < 3 \<longrightarrow> tx_state pool3 j \<noteq> CHR ''i'')"
    by (auto simp: wc(1) split: option.splits)
  show ?thesis
  proof (cases r)
    case None
    with picked have "tx_state pool3 1 \<noteq> CHR ''i''" by (simp del: One_nat_def)
    with st(2) show ?thesis by simp
  next
    case (Some w)
    with picked have "c' = pool3" "int w < 3" "tx_state pool3 w = CHR ''i''"
      "\<forall>j < w. tx_state pool3 j \<noteq> CHR ''i''" by auto
    moreover from this st have "w \<noteq> 0" "\<not> 1 < w" by metis+
    then have "w = 1" by linarith
    ultimately show ?thesis using r Some by simp
  qed
qed

section \<open>Push\<close>

lemma sint_small: "n \<le> kfootsize \<Longrightarrow> sint (ucast (of_nat n :: u64) :: u32) = int n"
  by (simp add: kfootsize_def signed_of_nat signed_take_bit_int_eq_self)

lemma sint_pkt_size:
  "unat (sz :: u64) \<le> kfootsize \<Longrightarrow> sint (ucast sz :: u32) = uint sz"
  using sint_small [of "unat sz"] by simp

lemma uint_le_kfootsize: "unat (sz :: u64) \<le> kfootsize \<longleftrightarrow> uint sz \<le> int kfootsize"
  by (metis of_nat_le_iff of_nat_unat)

lemma upd_worker_cong:
  "f (worker c w) = h (worker c w) \<Longrightarrow> upd_worker f w c = upd_worker h w c"
  by (simp add: upd_worker_def worker_def)

lemma length_push_buffer [simp]:
  "length (tw_buffer t) = kfootsize \<Longrightarrow> length (push_buffer g t) = kfootsize"
  by (simp add: push_buffer_def)

text \<open>The segments of \<^verbatim>\<open>txpush\<close> on a worker whose leg fits.\<close>

lemma txpush_begin_eq:
  assumes "w < length (tx_workers c)" "unat (pkt_size (tw_pkt (worker c w))) \<le> kfootsize"
  shows "txpush_begin g w c = Inr (upd_worker (\<lambda>t. t\<lparr>tw_writeremainder := uint (pkt_size (tw_pkt t)),
     tw_buffer := push_buffer g t, tw_state := CHR ''P''\<rparr>) w c)"
  using assms
  by (simp add: txpush_begin_def tx_state_set_def upd_worker_upd_worker Let_def sint_pkt_size
      uint_le_kfootsize [symmetric])
     (auto simp: push_buffer_def sint_pkt_size intro!: upd_worker_cong)

lemma txpush_written_eq:
  "w < length (tx_workers c) \<Longrightarrow> tw_writeremainder (worker c w) + int sizeof_millipacket = n \<Longrightarrow>
   txpush_written w n c = Inr (upd_worker (\<lambda>t. t\<lparr>tw_writeremainder := 0\<rparr>) w c)"
  by (simp add: txpush_written_def)

lemma txpush_finish_eq:
  "w < length (tx_workers c) \<Longrightarrow> tw_writeremainder (worker c w) = 0 \<Longrightarrow>
   txpush_finish w c = Inr (upd_worker (\<lambda>t. t\<lparr>tw_pkt := (tw_pkt t)\<lparr>pkt_size := 0\<rparr>,
     tw_state := CHR ''i''\<rparr>) w c)"
  by (simp add: txpush_finish_def tx_state_set_def upd_worker_upd_worker)

text \<open>C20: pushing a dispatched leg puts exactly one frame on the connection, the packet header
  followed by \<^verbatim>\<open>pkt.size\<close> bytes of the buffer (of the generated payload in prbs mode), leaves
  the worker idle with an empty packet, and touches no other worker.\<close>

theorem txpush_frame:
  assumes "w < length (tx_workers c)" "unat (pkt_size (tw_pkt (worker c w))) \<le> kfootsize"
    and "length (tw_buffer (worker c w)) = kfootsize"
  defines "p \<equiv> tw_pkt (worker c w)"
  shows "\<exists>c'. txpush g w c =
       Inr (c', frame_bytes (p, take (unat (pkt_size p)) (push_buffer g (worker c w)))) \<and>
     tx_state c' w = CHR ''i'' \<and> tw_pkt (worker c' w) = p\<lparr>pkt_size := 0\<rparr> \<and>
     (\<forall>j. j \<noteq> w \<longrightarrow> worker c' j = worker c j)"
  using assms
  by (simp add: txpush_def txpush_begin_eq txpush_written_eq txpush_finish_eq txpush_wire_def
      frame_bytes_def tx_state_def)

definition pushing :: txconf_s where
  "pushing = upd_worker (\<lambda>t. t\<lparr>tw_buffer := replicate kfootsize 7,
     tw_pkt := blank_pkt\<lparr>pkt_size := 2\<rparr>\<rparr>) 1 pool3"

theorem txpush_frame_witness:
  "\<exists>c'. txpush \<lparr>mode = 2, gverbose = 0, gchaos = 0, gchaoscounter = 0, gprbs_seed = 0, gdelay_us = 0,
       gchecksums = False, gcharmode = False, ginitiator_oneshot = 0, gleg_limit = 0, gcheckphrase = []\<rparr> 1 pushing =
     Inr (c', frame_bytes (blank_pkt\<lparr>pkt_size := 2\<rparr>, [7, 7]))"
proof -
  let ?t = "blank_worker\<lparr>tw_id := 1, tw_state := CHR ''i'', tw_buffer := replicate kfootsize 7,
     tw_pkt := blank_pkt\<lparr>pkt_size := 2\<rparr>\<rparr>"
  have w: "worker pushing 1 = ?t" "1 < length (tx_workers pushing)"
    by (simp_all add: pushing_def pool3_def worker_def upd_worker_def)
  have "take 2 (replicate kfootsize 7) = replicate 2 (7 :: byte)" by (simp only: take_replicate) (simp add: kfootsize_def)
  then have t: "replicate (min 2 kfootsize) 7 = [7, 7 :: byte]" by (simp add: numeral_2_eq_2)
  let ?g = "\<lparr>mode = 2, gverbose = 0, gchaos = 0, gchaoscounter = 0, gprbs_seed = 0, gdelay_us = 0,
       gchecksums = False, gcharmode = False, ginitiator_oneshot = 0, gleg_limit = 0, gcheckphrase = []\<rparr>"
  have le: "unat (pkt_size (tw_pkt (worker pushing 1))) \<le> kfootsize" by (simp add: w(1) kfootsize_def del: One_nat_def)
  have len: "length (tw_buffer (worker pushing 1)) = kfootsize" by (simp add: w(1) del: One_nat_def)
  from txpush_frame [OF w(2) le len, of ?g] show ?thesis
    by (auto simp add: w(1) push_buffer_def t simp del: One_nat_def)
qed

section \<open>Targets\<close>

fun connect_targets :: "nat \<Rightarrow> txconf_s \<Rightarrow> (target_port_s list \<times> txconf_s) res" where
  "connect_targets 0 c = Inr ([], c)"
| "connect_targets (Suc n) c =
     bindE (tx_tcp_connect_next c) (\<lambda>(t, c). bindE (connect_targets n c) (\<lambda>(ts, c). Inr (t # ts, c)))"

text \<open>C31: successive connection attempts go through the targets in the order given on the
  command line, round and round: the \<open>i\<close>-th attempt uses target \<open>cursor + i\<close> modulo their
  number, and the cursor stays in range.\<close>

theorem connect_round_robin:
  assumes "0 \<le> target_port_cursor c" "target_port_cursor c < target_port_count c"
  shows "connect_targets n c =
    Inr (map (\<lambda>i. target_ports c ! nat ((target_port_cursor c + int i) mod target_port_count c)) [0..<n],
      c\<lparr>target_port_cursor := (target_port_cursor c + int n) mod target_port_count c\<rparr>)"
  using assms
proof (induction n arbitrary: c)
  case 0
  then show ?case by (cases c) simp
next
  case (Suc n)
  let ?m = "target_port_count c" and ?k = "target_port_cursor c"
  let ?c = "c\<lparr>target_port_cursor := (?k + 1) mod ?m\<rparr>"
  have m: "0 < ?m" using Suc.prems by linarith
  have step: "tx_tcp_connect_next c = Inr (target_ports c ! nat ?k, ?c)"
    using m by (simp add: tx_tcp_connect_next_def Let_def)
  have "connect_targets n ?c =
      Inr (map (\<lambda>i. target_ports c ! nat ((?k + 1 + int i) mod ?m)) [0..<n],
        c\<lparr>target_port_cursor := (?k + 1 + int n) mod ?m\<rparr>)"
    using Suc.IH [of ?c] m by (simp add: mod_add_left_eq)
  moreover have "[0..<Suc n] = 0 # map Suc [0..<n]"
    by (simp only: upt_conv_Cons zero_less_Suc map_Suc_upt)
  ultimately show ?case
    using Suc.prems by (simp add: step add.assoc comp_def ac_simps)
qed

theorem connect_round_robin_witness:
  "map_sum id (\<lambda>r. map tp_port (fst r)) (connect_targets 5 pool3) = Inr [1, 2, 3, 1, 2]"
  using connect_round_robin [of pool3 5] by (simp add: pool3_def upt_rec)

section \<open>Connecting and reconnecting\<close>

lemma connect_next_ok:
  "target_port_count c > 0 \<Longrightarrow> \<exists>t c'. tx_tcp_connect_next c = Inr (t, c') \<and> target_port_count c' = target_port_count c"
  by (simp add: tx_tcp_connect_next_def Let_def)




text \<open>a worker whose first connection attempt succeeds and whose peer answers \<^verbatim>\<open>ok\<close> comes
  back with its socket, in state \<open>c\<close>; the target cursor has moved on by one.\<close>

lemma first_connect_online:
  assumes "target_port_count c > 0" "w < length (tx_workers c)" "dial 0 = Inr fd" "0 < fd"
    and "take 2 ph = ''ok''"
  shows "\<exists>c'. tx_start_net dial done_at (4, 0) (2, 0, ph) w c = Inr (c', 2) \<and> tx_state c' w = CHR ''c'' \<and>
     tw_sockfd (worker c' w) = fd \<and>
     target_port_cursor c' = (target_port_cursor c + 1) mod target_port_count c"
  using assms
  by (simp add: tx_start_net_def tx_dial_def tx_shake_def tx_tcp_connect_next_def Let_def tx_reconnect.simps tx_state_set_def
      tx_state_def kreconnectlimit_def)

section \<open>Set-up\<close>

lemma init_workers_frame [simp]:
  "worker_count (init_workers n c) = worker_count c"
  "length (tx_workers (init_workers n c)) = length (tx_workers c)"
  "tx_done (init_workers n c) = tx_done c" "input_eof (init_workers n c) = input_eof c"
  "target_port_count (init_workers n c) = target_port_count c"
  by (induction n arbitrary: c) auto

lemma worker_init_workers:
  "n \<le> length (tx_workers c) \<Longrightarrow>
   worker (init_workers n c) j = (if j < n then init_worker j (worker c j) else worker c j)"
  by (induction n arbitrary: c) (auto simp: less_Suc_eq)

lemma txlaunchworkers_ok:
  assumes "worker_count c \<le> int (length (tx_workers c))"
  shows "\<exists>c'. txlaunchworkers (\<lambda>_. True) (\<lambda>_. 0) k c = Inr c' \<and> worker_count c' = worker_count c \<and>
     length (tx_workers c') = length (tx_workers c) \<and> tx_done c' = tx_done c \<and> input_eof c' = input_eof c \<and>
     target_port_count c' = target_port_count c \<and>
     (\<forall>j. worker c' j = (if k \<le> j \<and> int j < worker_count c then launch_worker j (worker c j) else worker c j))"
  using assms
proof (induction "nat (worker_count c - int k)" arbitrary: k c)
  case 0
  then show ?case by (subst txlaunchworkers.simps) auto
next
  case (Suc n)
  let ?c = "upd_worker (launch_worker k) k c"
  have k: "int k < worker_count c" "k < length (tx_workers c)" using Suc by auto
  have "n = nat (worker_count ?c - int (Suc k))" using Suc.hyps(2) k by simp
  then obtain c' where c': "txlaunchworkers (\<lambda>_. True) (\<lambda>_. 0) (Suc k) ?c = Inr c'"
    "worker_count c' = worker_count c" "length (tx_workers c') = length (tx_workers c)"
    "tx_done c' = tx_done c" "input_eof c' = input_eof c" "target_port_count c' = target_port_count c"
    "\<forall>j. worker c' j = (if Suc k \<le> j \<and> int j < worker_count c then launch_worker j (worker ?c j) else worker ?c j)"
    using Suc.hyps(1) [of ?c "Suc k"] Suc.prems by auto
  with k show ?case
    by (subst txlaunchworkers.simps) (auto simp: Let_def Suc_le_eq)
qed

text \<open>With memory and threads to be had, \<^verbatim>\<open>tx\<close> launches the configured workers and leaves the rest unused.\<close>

lemma tx_starts:
  assumes "length (tx_workers c) = kthreadmax" "worker_count c \<le> int kthreadmax"
  shows "\<exists>c'. tx (Some t) (\<lambda>_. True) (\<lambda>_. 0) c = Inr c' \<and> wf_txconf c' \<and> \<not> tx_done c' \<and> \<not> input_eof c' \<and>
     worker_count c' = worker_count c \<and> target_port_count c' = target_port_count c \<and>
     (\<forall>w < kthreadmax. if int w < worker_count c
        then tx_state c' w = CHR ''L'' \<and> tw_buffer (worker c' w) = replicate kfootsize 0
        else tx_state c' w = CHR ''E'')"
proof -
  let ?c = "c\<lparr>ticker := t, tx_done := False, input_eof := False\<rparr>"
  obtain c' where c': "txlaunchworkers (\<lambda>_. True) (\<lambda>_. 0) 0 (init_workers kthreadmax ?c) = Inr c'"
    "worker_count c' = worker_count c" "length (tx_workers c') = kthreadmax" "\<not> tx_done c'" "\<not> input_eof c'"
    "target_port_count c' = target_port_count c"
    and wk: "\<And>j. worker c' j = (if int j < worker_count c
       then launch_worker j (worker (init_workers kthreadmax ?c) j) else worker (init_workers kthreadmax ?c) j)"
    using txlaunchworkers_ok [of "init_workers kthreadmax ?c" 0] assms by auto
  have "worker (init_workers kthreadmax ?c) j = init_worker j (worker ?c j)" if "j < kthreadmax" for j
    using that assms(1) by (simp add: worker_init_workers)
  with c' wk assms show ?thesis
    by (simp add: tx_def stopwatch_start_def wf_txconf_def tx_state_def launch_worker_def init_worker_def)
qed

end
