(* ===== verification/Vm_Rx.thy ===== *)
theory Vm_Rx
  imports Vm_Plumbing Vm_Prbs Vm_Tcp Vm_Terminate
begin

text \<open>
  The receiver, \<^verbatim>\<open>rx.c\<close>. \<^verbatim>\<open>rxworker\<close> is one long function; it is split at the points where
  it blocks or where another thread sees its effects. The segments are the atomic actions of
  theory \<open>Vm_Pipeline\<close>; \<open>rx_leg\<close> composes those of one leg. Exit statuses are the numbers
  of FreeBSD's \<^verbatim>\<open>errno.h\<close>.
\<close>

definition EDOM :: int where "EDOM = 33"
definition ENOTSOCK :: int where "ENOTSOCK = 38"
definition ENOTCONN :: int where "ENOTCONN = 57"
definition EBADRPC :: int where "EBADRPC = 72"

definition rxw :: "rxconf_s \<Rightarrow> nat \<Rightarrow> rxworker_s" where
  "rxw c r = rx_workers c ! r"

definition upd_rxworker :: "(rxworker_s \<Rightarrow> rxworker_s) \<Rightarrow> nat \<Rightarrow> rxconf_s \<Rightarrow> rxconf_s" where
  "upd_rxworker f r c = c\<lparr>rx_workers := (rx_workers c)[r := f (rx_workers c ! r)]\<rparr>"

section \<open>Accepting a connection\<close>

definition rx_accept :: "nat \<Rightarrow> int \<Rightarrow> rxconf_s \<Rightarrow> rxconf_s res" where
  "rx_accept r fd c =
     bindE (assertE (rw_id (rxw c r) < int kthreadmax)) (\<lambda>_.
     let c = upd_rxworker (\<lambda>t. t\<lparr>rw_sockfd := fd\<rparr>) r c;
         c = c\<lparr>workercount := workercount c + 1\<rparr>
     in Inr (upd_rxworker (\<lambda>t. t\<lparr>rw_state := CHR ''a''\<rparr>) r c))"

text \<open>
  Both sides use four bytes at \<^verbatim>\<open>gcheckphrase\<close>, its terminator and the memory \<open>mem\<close> behind it
  included when the phrase is shorter.
\<close>

definition phrase_bytes :: "globals \<Rightarrow> byte list \<Rightarrow> byte list" where
  "phrase_bytes g mem = take 4 (map of_char (gcheckphrase g) @ [0] @ mem)"

text \<open>
  Lines 35 to 51: \<open>got\<close> is what \<^verbatim>\<open>read\<close> delivered, \<open>err\<close> the \<^verbatim>\<open>errno\<close> at \<^verbatim>\<open>checkperror\<close>, \<open>wrote\<close> the
  result of writing \<^verbatim>\<open>ok\<close> and \<open>werr\<close> the \<^verbatim>\<open>errno\<close> after it.
\<close>

definition rx_handshake ::
  "byte list \<Rightarrow> byte list \<Rightarrow> errno \<Rightarrow> int \<Rightarrow> errno \<Rightarrow> nat \<Rightarrow> rxconf_s \<Rightarrow> rxconf_s res" where
  "rx_handshake phrase got err wrote werr r c =
     bindE (assertE (length got = 4)) (\<lambda>_.
     if got \<noteq> phrase then Inl (Exit EDOM) else
     bindE (checkperror err) (\<lambda>_.
     if wrote \<noteq> 2 then Inl (Exit ENOTCONN) else
     let c = upd_rxworker (\<lambda>t. t\<lparr>rw_state := CHR ''s''\<rparr>) r c in
     bindE (checkperror werr) (\<lambda>_. Inr c)))"

section \<open>Reading a leg\<close>

text \<open>
  Lines 54 to 82: whatever \<^verbatim>\<open>readv\<close> delivered overwrites the front of \<^verbatim>\<open>pkt\<close>, whose memory was
  \<open>stale\<close>. A short read and a wrong preamble are reported and otherwise ignored
  (\<^verbatim>\<open>assert(-1)\<close> holds); only the size is checked.
\<close>

definition rx_header :: "nat \<Rightarrow> millipacket_s \<Rightarrow> byte list \<Rightarrow> rxconf_s \<Rightarrow> (rxconf_s \<times> millipacket_s) res" where
  "rx_header r stale got c =
     (let c = upd_rxworker (\<lambda>t. t\<lparr>rw_state := CHR ''a''\<rparr>) r c;
          pkt = pkt_of_bytes (overwrite (pkt_bytes stale) 0 got) in
      bindE (assertE (unat (pkt_size pkt) \<le> kfootsize)) (\<lambda>_.
      Inr (upd_rxworker (\<lambda>t. t\<lparr>rw_leg := leg_id pkt, rw_legop := opcode pkt\<rparr>) r c, pkt)))"

text \<open>What one successful \<^verbatim>\<open>read\<close> of the payload does to \<^verbatim>\<open>buffer\<close>, \<^verbatim>\<open>cursor\<close> and \<^verbatim>\<open>remainder\<close>.\<close>

definition rx_read_round :: "byte list \<Rightarrow> nat \<Rightarrow> nat \<Rightarrow> byte list \<Rightarrow> (byte list \<times> nat \<times> nat) res" where
  "rx_read_round buf cursor remainder bs =
     bindE (assertE (cursor + length bs \<le> kfootsize)) (\<lambda>_.
     bindE (assertE (length bs \<le> remainder)) (\<lambda>_.
     Inr (overwrite buf cursor bs, cursor + length bs, remainder - length bs)))"

text \<open>
  The payload loop; the boolean of the result is \<^verbatim>\<open>restartme\<close>. A failed read exits in
  \<^verbatim>\<open>checkperror\<close> unless \<^verbatim>\<open>errno\<close> is 0; end of file sets \<^verbatim>\<open>restartme\<close>.
\<close>

function rx_body ::
  "'s reader \<Rightarrow> 's \<Rightarrow> byte list \<Rightarrow> nat \<Rightarrow> nat \<Rightarrow> ('s \<times> byte list \<times> nat \<times> bool) res" where
  "rx_body rd s buf cursor remainder =
     (if remainder = 0 then Inr (s, buf, cursor, False)
      else case rd s (min remainder maxbsize) of
        (s', Inl e) \<Rightarrow> if e \<noteq> 0 then Inl (Exit 4) else Inr (s', buf, cursor, True)
      | (s', Inr bs) \<Rightarrow>
          (if bs = [] then Inr (s', buf, cursor, True)
           else case rx_read_round buf cursor remainder bs of
             Inl f \<Rightarrow> Inl f
           | Inr (buf', cursor', remainder') \<Rightarrow> rx_body rd s' buf' cursor' remainder'))"
  by pat_completeness auto
termination
  by (relation "measure (\<lambda>(rd, s, buf, cursor, remainder). remainder)")
     (auto simp: rx_read_round_def res_iff)

declare rx_body.simps [simp del]

text \<open>Lines 125 to 136. The whole buffer is verified, whatever the size of the leg.\<close>

definition rx_prbs_check :: "globals \<Rightarrow> millipacket_s \<Rightarrow> byte list \<Rightarrow> unit res" where
  "rx_prbs_check g pkt buf =
     (if gprbs_seed g > 0 \<and> prbs_verify buf (gprbs_seed g + leg_id pkt) kfootsize = 0 \<and>
         opcode pkt \<noteq> end_of_millipede
      then Inl (Exit EDOOFUS) else Inr ())"

section \<open>The sequencer\<close>

definition rx_ready :: "millipacket_s \<Rightarrow> rxconf_s \<Rightarrow> bool" where
  "rx_ready pkt c \<longleftrightarrow> leg_id pkt = next_leg c"

text \<open>Lines 160 to 175: \<open>writesize\<close> and \<open>werr\<close> are the result and the \<^verbatim>\<open>errno\<close> of the \<^verbatim>\<open>writev\<close>.\<close>

definition rx_write_bytes :: "millipacket_s \<Rightarrow> byte list \<Rightarrow> byte list" where
  "rx_write_bytes pkt buf = take (unat (pkt_size pkt)) buf"

definition rx_written :: "nat \<Rightarrow> millipacket_s \<Rightarrow> nat \<Rightarrow> errno \<Rightarrow> rxconf_s \<Rightarrow> rxconf_s res" where
  "rx_written r pkt writesize werr c =
     (let c = upd_rxworker (\<lambda>t. t\<lparr>rw_state := CHR ''P''\<rparr>) r c in
      bindE (checkperror werr) (\<lambda>_.
      bindE (assertE (writesize = unat (pkt_size pkt))) (\<lambda>_. Inr c)))"

text \<open>
  Lines 177 to 200, with \<^verbatim>\<open>grx_saved_checksum\<close> as an argument and a result; \<open>None\<close> is a checksum
  that is never computed to the end. A zero checksum is taken for an absent one.
\<close>

definition rx_opcode :: "millipacket_s \<Rightarrow> byte list \<Rightarrow> rxconf_s \<Rightarrow> u64 \<Rightarrow> (rxconf_s \<times> u64) res option" where
  "rx_opcode pkt buf c saved =
     (if opcode pkt = end_of_millipede then Some (Inr (c\<lparr>done_mbox := True\<rparr>, saved))
      else if opcode pkt = feed_more then
        if checksum pkt \<noteq> 0 then
          map_option (\<lambda>rx_checksum.
            bindE (assertE (rx_checksum = checksum pkt)) (\<lambda>_. Inr (c, rx_checksum)))
          (mix (ucast (saved + leg_id pkt)) buf (pkt_size pkt))
        else Some (Inr (c, saved))
      else Some (Inl (Exit EBADRPC)))"

definition rx_next :: "nat \<Rightarrow> rxconf_s \<Rightarrow> rxconf_s" where
  "rx_next r c = upd_rxworker (\<lambda>t. t\<lparr>rw_state := CHR ''i''\<rparr>) r (c\<lparr>next_leg := next_leg c + 1\<rparr>)"

text \<open>
  One leg from its header to the sequencer's step, on a worker whose turn it is: the bytes
  written to the output, or none when the leg is retired (\<^verbatim>\<open>restartme\<close>).
\<close>

record 's rxleg =
  rl_conn :: 's
  rl_buffer :: "byte list"
  rl_conf :: rxconf_s
  rl_saved :: u64
  rl_written :: "byte list"
  rl_restart :: bool

definition rx_leg ::
  "globals \<Rightarrow> 's reader \<Rightarrow> nat \<Rightarrow> millipacket_s \<Rightarrow> byte list \<Rightarrow> 's \<Rightarrow> byte list \<Rightarrow> rxconf_s \<Rightarrow> u64 \<Rightarrow>
   's rxleg res option" where
  "rx_leg g rd r stale got s buf c saved =
     (case rx_header r stale got c of
        Inl f \<Rightarrow> Some (Inl f)
      | Inr (c, pkt) \<Rightarrow>
     (case rx_body rd s buf 0 (unat (pkt_size pkt)) of
        Inl f \<Rightarrow> Some (Inl f)
      | Inr (s, buf, cursor, restartme) \<Rightarrow>
     if restartme then Some (Inr \<lparr>rl_conn = s, rl_buffer = buf, rl_conf = c, rl_saved = saved,
       rl_written = [], rl_restart = True\<rparr>) else
     (case rx_prbs_check g pkt buf of
        Inl f \<Rightarrow> Some (Inl f)
      | Inr _ \<Rightarrow>
     (case rx_written r pkt (length (rx_write_bytes pkt buf)) 0 c of
        Inl f \<Rightarrow> Some (Inl f)
      | Inr c \<Rightarrow>
     (case rx_opcode pkt buf c saved of
        None \<Rightarrow> None
      | Some (Inl f) \<Rightarrow> Some (Inl f)
      | Some (Inr (c, saved)) \<Rightarrow>
          Some (Inr \<lparr>rl_conn = s, rl_buffer = buf, rl_conf = rx_next r c, rl_saved = saved,
            rl_written = rx_write_bytes pkt buf, rl_restart = False\<rparr>))))))"

section \<open>Set-up and polling\<close>

function rx_launch_loop :: "(nat \<Rightarrow> int) \<Rightarrow> (nat \<Rightarrow> errno) \<Rightarrow> nat \<Rightarrow> rxconf_s \<Rightarrow> rxconf_s res" where
  "rx_launch_loop thr err worker_cursor c =
     (let c = upd_rxworker (\<lambda>t. t\<lparr>rw_id := int worker_cursor\<rparr>) worker_cursor c in
      bindE (checkperror (err worker_cursor)) (\<lambda>_.
      bindE (assertE (thr worker_cursor = 0)) (\<lambda>_.
      if Suc worker_cursor < kthreadmax then rx_launch_loop thr err (Suc worker_cursor) c else Inr c)))"
  by pat_completeness auto
termination
  by (relation "measure (\<lambda>(thr, err, wc, c). kthreadmax - wc)") auto

declare rx_launch_loop.simps [simp del]

definition rxlaunchworkers ::
  "sockenv \<Rightarrow> (nat \<Rightarrow> int) \<Rightarrow> (nat \<Rightarrow> errno) \<Rightarrow> rxconf_s \<Rightarrow> rxconf_s res" where
  "rxlaunchworkers env thr err c =
     (let c = c\<lparr>done_mbox := False, next_leg := 0\<rparr> in
      bindE (tcp_recieve_prep env 0) (\<lambda>(ret, sock).
      let c = c\<lparr>rx_socknum := sock\<rparr> in
      if ret \<noteq> 0 then Inl (Exit ENOTSOCK) else rx_launch_loop thr err 0 c))"

definition rx_poll :: "rxconf_s \<Rightarrow> bool" where
  "rx_poll c = done_mbox c"

definition rx :: "sockenv \<Rightarrow> (nat \<Rightarrow> int) \<Rightarrow> (nat \<Rightarrow> errno) \<Rightarrow> rxconf_s \<Rightarrow> rxconf_s res" where
  "rx env thr err c = rxlaunchworkers env thr err (c\<lparr>done_mbox := False\<rparr>)"

section \<open>Frame lemmas\<close>

lemma upd_rxworker_frame [simp]:
  "length (rx_workers (upd_rxworker f r c)) = length (rx_workers c)"
  "next_leg (upd_rxworker f r c) = next_leg c" "done_mbox (upd_rxworker f r c) = done_mbox c"
  "output_fd (upd_rxworker f r c) = output_fd c" "workercount (upd_rxworker f r c) = workercount c"
  by (simp_all add: upd_rxworker_def)

lemma rxw_upd_rxworker [simp]:
  "r < length (rx_workers c) \<Longrightarrow>
   rxw (upd_rxworker f r c) j = (if j = r then f (rxw c r) else rxw c j)"
  by (simp add: rxw_def upd_rxworker_def nth_list_update)

section \<open>The payload loop\<close>

lemma rx_read_round_ok:
  "cursor + remainder \<le> kfootsize \<Longrightarrow> length bs \<le> remainder \<Longrightarrow>
   rx_read_round buf cursor remainder bs =
     Inr (overwrite buf cursor bs, cursor + length bs, remainder - length bs)"
  by (simp add: rx_read_round_def)

context byte_reader
begin

lemma rx_body_reads:
  assumes "ok s" "cursor + remainder \<le> kfootsize" "length buf = kfootsize"
  shows "\<exists>s'. rx_body rd s buf cursor remainder =
      Inr (s', overwrite buf cursor (take remainder (avail s)), cursor + length (take remainder (avail s)),
        length (avail s) < remainder) \<and> ok s' \<and>
      (remainder \<le> length (avail s) \<longrightarrow> avail s' = drop remainder (avail s))"
  using assms
proof (induction remainder arbitrary: s buf cursor rule: less_induct)
  case (less n)
  show ?case
  proof (cases "n = 0")
    case True
    with less.prems show ?thesis by (subst rx_body.simps) (simp add: overwrite_def)
  next
    case False
    let ?req = "min n maxbsize"
    have req: "0 < ?req" using False by simp
    obtain s' bs where rd: "rd s ?req = (s', Inr bs)" and ok': "ok s'" and len: "length bs \<le> ?req"
      and eof: "bs = [] \<Longrightarrow> avail s = []" and more: "bs \<noteq> [] \<Longrightarrow> avail s = bs @ avail s'"
      using rd_ok [OF less.prems(1) req] by blast
    show ?thesis
    proof (cases "bs = []")
      case True
      with False rd ok' eof show ?thesis by (subst rx_body.simps) (simp add: overwrite_def)
    next
      case nonempty: False
      let ?m = "n - length bs"
      have m: "?m < n" "cursor + length bs + ?m \<le> kfootsize" "length bs \<le> n"
        using nonempty len False less.prems by auto
      have "\<exists>t. rx_body rd s' (overwrite buf cursor bs) (cursor + length bs) ?m =
          Inr (t, overwrite (overwrite buf cursor bs) (cursor + length bs) (take ?m (avail s')),
            cursor + length bs + length (take ?m (avail s')), length (avail s') < ?m) \<and> ok t \<and>
          (?m \<le> length (avail s') \<longrightarrow> avail t = drop ?m (avail s'))"
        using less.prems m by (intro less.IH [OF m(1) ok' m(2)]) simp
      with rd nonempty more m False less.prems show ?thesis
        by (subst rx_body.simps)
           (auto simp: rx_read_round_ok overwrite_overwrite less_diff_conv2 le_diff_conv2)
    qed
  qed
qed

end

section \<open>Properties\<close>

subsection \<open>Handshake and header\<close>


lemma overwrite_full: "length bs = length buf \<Longrightarrow> overwrite buf 0 bs = bs"
  by (simp add: overwrite_def)

lemma rx_header_eq:
  "rx_header r stale (pkt_bytes p) c =
     (if unat (pkt_size p) \<le> kfootsize
      then Inr (upd_rxworker (\<lambda>t. t\<lparr>rw_leg := leg_id p, rw_legop := opcode p\<rparr>) r
             (upd_rxworker (\<lambda>t. t\<lparr>rw_state := CHR ''a''\<rparr>) r c), p)
      else Inl Abort)"
  by (simp add: rx_header_def Let_def overwrite_full)

text \<open>C33: the size is the only field of a header that is checked. Any header that announces at
  most one foot is accepted, whatever its preamble and opcode, and recorded for the status
  display; and when \<^verbatim>\<open>readv\<close> meets end of file the receiver goes on with the packet that was
  in memory before.\<close>

theorem rx_header_checks_size_only:
  assumes "unat (pkt_size p) \<le> kfootsize" "unat (pkt_size stale) \<le> kfootsize" "r < length (rx_workers c)"
  shows "(\<exists>c'. rx_header r stale (pkt_bytes p) c = Inr (c', p) \<and> rw_leg (rxw c' r) = leg_id p \<and>
        rw_legop (rxw c' r) = opcode p) \<and>
     (\<exists>c'. rx_header r stale [] c = Inr (c', stale))"
  using assms by (simp add: rx_header_eq) (simp add: rx_header_def overwrite_def)

definition bad_pkt :: millipacket_s where
  "bad_pkt = \<lparr>preamble = 0, leg_id = 5, pkt_size = 1, checksum = 0, opcode = 3\<rparr>"

definition rx16 :: rxconf_s where
  "rx16 = plain_rxconf\<lparr>rx_workers := replicate kthreadmax
     \<lparr>rw_id = 0, rw_state = CHR 0x00, rw_leg = 0, rw_legop = 0, rw_sockfd = 0\<rparr>\<rparr>"

theorem rx_header_checks_size_only_witness:
  "\<exists>c'. rx_header 0 bad_pkt (pkt_bytes bad_pkt) rx16 = Inr (c', bad_pkt) \<and> preamble bad_pkt \<noteq> preamble_cannon_ul"
  using rx_header_checks_size_only [of bad_pkt bad_pkt 0 rx16]
  by (auto simp: bad_pkt_def rx16_def kfootsize_def kthreadmax_def preamble_cannon_ul_def)

subsection \<open>One leg\<close>

text \<open>What a leg needs to pass the receiver's checks.\<close>

definition leg_passes :: "globals \<Rightarrow> millipacket_s \<Rightarrow> byte list \<Rightarrow> u64 \<Rightarrow> bool" where
  "leg_passes g p buf saved \<longleftrightarrow>
     (opcode p = end_of_millipede \<or>
      opcode p = feed_more \<and>
        (checksum p = 0 \<or> mix (ucast (saved + leg_id p)) buf (pkt_size p) = Some (checksum p)) \<and>
        (gprbs_seed g = 0 \<or> prbs_verify buf (gprbs_seed g + leg_id p) kfootsize = 1))"

lemma prbs_verify_cases: "prbs_verify buf p sz = 0 \<or> prbs_verify buf p sz = 1"
proof -
  have "prbs_verify_loop buf p i n = 0 \<or> prbs_verify_loop buf p i n = 1" for i n
    by (induction buf p i n rule: prbs_verify_loop.induct) (subst (1 2) prbs_verify_loop.simps, simp)
  then show ?thesis by (simp add: prbs_verify_def)
qed

lemma rx_prbs_check_passes: "leg_passes g p buf saved \<Longrightarrow> rx_prbs_check g p buf = Inr ()"
  by (auto simp: leg_passes_def rx_prbs_check_def)

definition next_saved :: "millipacket_s \<Rightarrow> u64 \<Rightarrow> u64" where
  "next_saved p saved = (if opcode p = feed_more \<and> checksum p \<noteq> 0 then checksum p else saved)"

lemma rx_opcode_passes:
  "leg_passes g p buf saved \<Longrightarrow>
   rx_opcode p buf c saved =
     Some (Inr (if opcode p = end_of_millipede then c\<lparr>done_mbox := True\<rparr> else c, next_saved p saved))"
  by (auto simp: leg_passes_def rx_opcode_def next_saved_def)


definition leg_pkt :: millipacket_s where
  "leg_pkt = \<lparr>preamble = preamble_cannon_ul, leg_id = 0, pkt_size = 3, checksum = 0, opcode = feed_more\<rparr>"

lemma leg_pkt_size: "unat (pkt_size leg_pkt) = 3" "3 \<le> kfootsize" "unat (pkt_size bad_pkt) = 1" "1 \<le> kfootsize"
  by (simp_all add: leg_pkt_def bad_pkt_def kfootsize_def)


text \<open>C19: a leg whose connection ends before its last byte is dropped: nothing is written and the
  sequencer does not move, so the leg's number stays the one every later leg waits for.\<close>

theorem rx_leg_truncated:
  assumes "fd_ok evs" "length (fd_avail evs) < unat (pkt_size p)" "unat (pkt_size p) \<le> kfootsize"
    and "length buf = kfootsize"
  shows "\<exists>l. rx_leg g fd_read r stale (pkt_bytes p) evs buf c saved = Some (Inr l) \<and>
     rl_restart l \<and> rl_written l = [] \<and> next_leg (rl_conf l) = next_leg c \<and>
     done_mbox (rl_conf l) = done_mbox c \<and> rl_saved l = saved"
proof -
  obtain evs' buf' k where body: "rx_body fd_read evs buf 0 (unat (pkt_size p)) = Inr (evs', buf', k, True)"
    using fd.rx_body_reads [of evs 0 "unat (pkt_size p)" buf] assms by auto
  with assms(3) show ?thesis by (simp add: rx_leg_def rx_header_eq)
qed

theorem rx_leg_truncated_witness:
  "\<exists>l. rx_leg plain_globals fd_read 0 leg_pkt (pkt_bytes leg_pkt) [Data [1, 2]]
        (replicate kfootsize 0) plain_rxconf 0xff = Some (Inr l) \<and> rl_restart l"
  using rx_leg_truncated [of "[Data [1, 2]]" leg_pkt "replicate kfootsize 0" plain_globals 0 leg_pkt plain_rxconf "0xff"]
  by (auto simp: leg_pkt_size)



subsection \<open>Set-up\<close>

lemma rx_launch_loop_ok:
  assumes "k < kthreadmax" "length (rx_workers c) = kthreadmax"
  shows "\<exists>c'. rx_launch_loop (\<lambda>_. 0) (\<lambda>_. 0) k c = Inr c' \<and> length (rx_workers c') = kthreadmax \<and>
     next_leg c' = next_leg c \<and> done_mbox c' = done_mbox c \<and>
     (\<forall>j. rw_id (rxw c' j) = (if k \<le> j \<and> j < kthreadmax then int j else rw_id (rxw c j)))"
  using assms
proof (induction "kthreadmax - k" arbitrary: k c)
  case 0
  then show ?case by simp
next
  case (Suc n)
  let ?c = "upd_rxworker (\<lambda>t. t\<lparr>rw_id := int k\<rparr>) k c"
  show ?case
  proof (cases "Suc k < kthreadmax")
    case True
    with Suc.hyps(2) have "n = kthreadmax - Suc k" by simp
    from Suc.hyps(1) [OF this True, of ?c] Suc.prems True show ?thesis
      by (subst rx_launch_loop.simps) (auto simp: Let_def)
  next
    case False
    with Suc.prems have "Suc k = kthreadmax" by simp
    with Suc.prems False show ?thesis by (subst rx_launch_loop.simps) (auto simp: Let_def)
  qed
qed

text \<open>\<^verbatim>\<open>rx\<close> launches all workers, numbered, with the sequencer at leg 0.\<close>

lemma rx_starts:
  assumes "length (rx_workers c) = kthreadmax" "tcp_recieve_prep env 0 = Inr (0, sock)"
  shows "\<exists>c'. rx env (\<lambda>_. 0) (\<lambda>_. 0) c = Inr c' \<and> next_leg c' = 0 \<and> \<not> rx_poll c' \<and>
     length (rx_workers c') = kthreadmax \<and> (\<forall>j < kthreadmax. rw_id (rxw c' j) = int j)"
  using rx_launch_loop_ok [of 0 "c\<lparr>done_mbox := False, next_leg := 0, rx_socknum := sock\<rparr>"] assms
  by (auto simp: rx_def rxlaunchworkers_def rx_poll_def kthreadmax_def)

end
