(* ===== verification/Vm_Pipeline.thy ===== *)
theory Vm_Pipeline
  imports Vm_Tx Vm_Rx
begin

text \<open>
  The running program: one transmitting and one receiving process with all their threads, the
  connections between them and the output. A state holds the two configurations, the program
  counter of every thread, the bytes in flight, and the bytes written; an action is one segment
  of \<open>Vm_Tx\<close> or \<open>Vm_Rx\<close> run by one thread, and any interleaving of enabled actions is a
  run. Program counters name the point where a thread may be suspended; locks only remove
  interleavings, so they are left out. Connections are numbered by the transmitting worker, each
  worker connecting once; they stay open, deliver in order and never fail, and the kernel
  takes a \<^verbatim>\<open>writev\<close> whole. A read may deliver any number of available bytes, except that
  a header is read whole. The check phrases travel beside the legs in \<open>hello\<close> and \<open>reply\<close>.
\<close>

section \<open>Threads\<close>

text \<open>
  \<^verbatim>\<open>txworker_sm\<close>: connecting, waiting for \<^verbatim>\<open>ok\<close>, between line 287 and line 290, at the top of
  the loop, and the three segments of \<^verbatim>\<open>txpush\<close>, which remember the local \<^verbatim>\<open>done\<close>.
\<close>

datatype wpc = Wconn | Wok | Wwindow | Wloop | Wpush bool | Wwrite bool | Wfin bool | Wexit

text \<open>\<^verbatim>\<open>txingest\<close>: loop test, scan for an idle worker, fill, load, and the second half of a shutdown.\<close>

datatype ipc = Itop | Iscan nat | Ifill nat | Iload nat nat | Isend nat | Iend

text \<open>\<^verbatim>\<open>rxworker\<close>: the connection, the packet, and in \<open>Rbody\<close> cursor and remainder.\<close>

datatype rpc =
    Rtop | Raccept | Rhello nat | Rloop nat | Rhead nat
  | Rbody nat millipacket_s nat nat
  | Rwait nat millipacket_s | Rwrite nat millipacket_s | Rop nat millipacket_s | Rnext nat millipacket_s
  | Rexit

text \<open>What does not change during a run: the kernel, the transmitter's options, and the four bytes
  each side has at \<^verbatim>\<open>gcheckphrase\<close>.\<close>

record world =
  su_env :: sockenv
  su_g :: globals
  tx_phrase :: "byte list"
  rx_phrase :: "byte list"

record sys =
  txc :: txconf_s
  wpcs :: "nat \<Rightarrow> wpc"
  ipcs :: ipc
  ig :: ingest
  inp :: "rd_event list"
  hello :: "nat \<Rightarrow> byte list"
  reply :: "nat \<Rightarrow> string"
  backlog :: "nat list"
  owner :: "nat \<Rightarrow> nat option"
  chan :: "nat \<Rightarrow> byte list"
  rxc :: rxconf_s
  rpcs :: "nat \<Rightarrow> rpc"
  rbuf :: "nat \<Rightarrow> byte list"
  rxsum :: u64
  rxg :: globals
  rtxc :: txconf_s
  rioc :: ioconf_s
  out :: "byte list"
  legs :: "byte list list"

text \<open>
  \<open>owner\<close> and \<open>legs\<close> are history: which receiving worker accepted a connection, and the payload of
  every leg in the order the ingest thread numbered them.
\<close>

datatype action =
    TxConnect nat | TxOk nat | TxReset nat | TxLoop nat | TxPush nat | TxWrite nat | TxFin nat
  | IngestTop | IngestScan | IngestFill | IngestLoad | IngestSend
  | RxTop nat | RxAccept nat | RxHello nat | RxHead nat | RxBody nat nat | RxCheck nat
  | RxSeq nat | RxWrite nat | RxOp nat | RxNext nat

section \<open>Actions\<close>

text \<open>An action that is not enabled gives \<open>None\<close>; one that stops the process gives its fault.\<close>

definition after :: "'a res \<Rightarrow> ('a \<Rightarrow> sys) \<Rightarrow> sys res option" where
  "after r f = Some (case r of Inl e \<Rightarrow> Inl e | Inr x \<Rightarrow> Inr (f x))"

definition wgo :: "nat \<Rightarrow> wpc \<Rightarrow> sys \<Rightarrow> txconf_s \<Rightarrow> sys" where
  "wgo w pc s c = s\<lparr>txc := c, wpcs := (wpcs s)(w := pc)\<rparr>"

definition rgo :: "nat \<Rightarrow> rpc \<Rightarrow> sys \<Rightarrow> rxconf_s \<Rightarrow> sys" where
  "rgo r pc s c = s\<lparr>rxc := c, rpcs := (rpcs s)(r := pc)\<rparr>"

definition t_at :: "sys \<Rightarrow> nat \<Rightarrow> wpc \<Rightarrow> bool" where
  "t_at s w pc \<longleftrightarrow> int w < worker_count (txc s) \<and> wpcs s w = pc"

text \<open>The transmitting worker \<open>w\<close>. State \<open>x\<close> is never entered, so its branch has no action.\<close>

definition tx_connect :: "world \<Rightarrow> nat \<Rightarrow> sys \<Rightarrow> sys res option" where
  "tx_connect su w s =
     (if \<not> t_at s w Wconn then None
      else after (tx_dial (\<lambda>_. Inr (int w + 3)) (\<lambda>_. tx_done (txc s)) w (txc s)) (\<lambda>c.
        (wgo w Wok s c)\<lparr>hello := (hello s)(w := tx_phrase su), backlog := backlog s @ [w]\<rparr>))"

definition tx_ok :: "nat \<Rightarrow> sys \<Rightarrow> sys res option" where
  "tx_ok w s =
     (if \<not> t_at s w Wok \<or> reply s w = [] then None
      else after (bindE (tx_shake (4, 0) (int (length (reply s w)), 0, reply s w) w (txc s)) (\<lambda>(c, retcode).
        bindE (assertE (retcode > 0)) (\<lambda>_. Inr (sm_online w c)))) (wgo w Wwindow s))"

definition tx_reset :: "nat \<Rightarrow> sys \<Rightarrow> sys res option" where
  "tx_reset w s =
     (if \<not> t_at s w Wwindow then None else Some (Inr (wgo w Wloop s (sm_reset w (txc s)))))"

definition tx_loop :: "nat \<Rightarrow> sys \<Rightarrow> sys res option" where
  "tx_loop w s =
     (if \<not> t_at s w Wloop then None
      else case sm_switch w (txc s) of
          Inl f \<Rightarrow> Some (Inl f)
        | Inr (Sm_idle, d) \<Rightarrow> Some (Inr (wgo w (if d then Wexit else Wloop) s (txc s)))
        | Inr (Sm_push, d) \<Rightarrow> Some (Inr (wgo w (Wpush d) s (txc s)))
        | Inr (Sm_restart, d) \<Rightarrow> None)"

definition tx_push :: "world \<Rightarrow> nat \<Rightarrow> sys \<Rightarrow> sys res option" where
  "tx_push su w s =
     (case wpcs s w of
        Wpush d \<Rightarrow> if t_at s w (Wpush d) then after (txpush_begin (su_g su) w (txc s)) (wgo w (Wwrite d) s)
                   else None
      | _ \<Rightarrow> None)"

definition tx_write :: "nat \<Rightarrow> sys \<Rightarrow> sys res option" where
  "tx_write w s =
     (case wpcs s w of
        Wwrite d \<Rightarrow>
          if t_at s w (Wwrite d) then
            let wire = txpush_wire (worker (txc s) w) in
            after (txpush_written w (int (length wire)) (txc s)) (\<lambda>c.
              (wgo w (Wfin d) s c)\<lparr>chan := (chan s)(w := chan s w @ wire)\<rparr>)
          else None
      | _ \<Rightarrow> None)"

definition tx_fin :: "nat \<Rightarrow> sys \<Rightarrow> sys res option" where
  "tx_fin w s =
     (case wpcs s w of
        Wfin d \<Rightarrow> if t_at s w (Wfin d)
                  then after (txpush_finish w (txc s)) (wgo w (if d then Wexit else Wloop) s) else None
      | _ \<Rightarrow> None)"

text \<open>
  The ingest thread. A step of the scan reads one worker's state, as \<^verbatim>\<open>dispatch_idle_worker\<close>
  does under that worker's mutex. Loading a leg and starting its worker is one action.
\<close>

definition ingest_top :: "sys \<Rightarrow> sys res option" where
  "ingest_top s =
     (if ipcs s \<noteq> Itop then None
      else Some (Inr (s\<lparr>ipcs := if tx_done (txc s) then Iend else Iscan 0\<rparr>)))"

definition ingest_scan :: "sys \<Rightarrow> sys res option" where
  "ingest_scan s =
     (case ipcs s of
        Iscan k \<Rightarrow>
          if int k < worker_count (txc s) then
            if tx_state (txc s) k = CHR ''i''
            then after (assertE (k < kthreadmax)) (\<lambda>_. s\<lparr>ipcs := Ifill k\<rparr>)
            else Some (Inr (s\<lparr>ipcs := Iscan (Suc k)\<rparr>))
          else Some (Inr (s\<lparr>txc := (txc s)\<lparr>waits := waits (txc s) + 1\<rparr>, ipcs := Iscan 0\<rparr>))
      | _ \<Rightarrow> None)"

definition ingest_read :: "world \<Rightarrow> sys \<Rightarrow> sys res option" where
  "ingest_read su s =
     (case ipcs s of
        Ifill w \<Rightarrow> after (ingest_fill (su_g su) fd_read (inp s) w (txc s)) (\<lambda>(evs, c, n).
          s\<lparr>txc := c, ipcs := Iload w n, inp := evs\<rparr>)
      | _ \<Rightarrow> None)"

definition load_leg :: "world \<Rightarrow> nat \<Rightarrow> nat \<Rightarrow> sys \<Rightarrow> sys res option" where
  "load_leg su w n s =
     (case ingest_feed (su_g su) w n (txc s) (ig s) of
        None \<Rightarrow> None
      | Some r \<Rightarrow> after r (\<lambda>(c, i). s\<lparr>txc := c, ipcs := Itop, ig := i,
          legs := legs s @ [take n (push_buffer (su_g su) (worker c w))]\<rparr>))"

definition ingest_load :: "world \<Rightarrow> sys \<Rightarrow> sys res option" where
  "ingest_load su s =
     (case ipcs s of
        Iload w n \<Rightarrow>
          if ingest_feeds (su_g su) (ig s) n then load_leg su w n s
          else Some (Inr (s\<lparr>txc := txshutdown_mark (txc s), ipcs := Isend w\<rparr>))
      | _ \<Rightarrow> None)"

definition ingest_send :: "sys \<Rightarrow> sys res option" where
  "ingest_send s =
     (case ipcs s of
        Isend w \<Rightarrow>
          after (txshutdown_send w (ingest_leg_counter (ig s)) (txc s)) (\<lambda>c.
            s\<lparr>txc := c, ipcs := Itop, ig := (ig s)\<lparr>ingest_leg_counter := ingest_leg_counter (ig s) + 1\<rparr>,
              legs := legs s @ [[]]\<rparr>)
      | _ \<Rightarrow> None)"

text \<open>The receiving worker \<open>r\<close>.\<close>

definition rx_top :: "nat \<Rightarrow> sys \<Rightarrow> sys res option" where
  "rx_top r s =
     (case rpcs s r of
        Rtop \<Rightarrow> Some (Inr (rgo r (if done_mbox (rxc s) then Rexit else Raccept) s (rxc s)))
      | Rloop c \<Rightarrow> Some (Inr (rgo r (if done_mbox (rxc s) then Rtop else Rhead c) s (rxc s)))
      | _ \<Rightarrow> None)"

definition rx_take :: "nat \<Rightarrow> sys \<Rightarrow> sys res option" where
  "rx_take r s =
     (case (rpcs s r, backlog s) of
        (Raccept, c # cs) \<Rightarrow> after (rx_accept r (int c + 3) (rxc s)) (\<lambda>rc.
          (rgo r (Rhello c) s rc)\<lparr>backlog := cs, owner := (owner s)(c := Some r)\<rparr>)
      | _ \<Rightarrow> None)"

definition rx_hello :: "world \<Rightarrow> nat \<Rightarrow> sys \<Rightarrow> sys res option" where
  "rx_hello su r s =
     (case rpcs s r of
        Rhello c \<Rightarrow> after (rx_handshake (rx_phrase su) (hello s c) 0 2 0 r (rxc s)) (\<lambda>rc.
          (rgo r (Rloop c) s rc)\<lparr>reply := (reply s)(c := ''ok'')\<rparr>)
      | _ \<Rightarrow> None)"

definition rx_head :: "nat \<Rightarrow> sys \<Rightarrow> sys res option" where
  "rx_head r s =
     (case rpcs s r of
        Rhead c \<Rightarrow>
          if length (chan s c) < sizeof_millipacket then None
          else after (rx_header r blank_pkt (take sizeof_millipacket (chan s c)) (rxc s)) (\<lambda>(rc, pkt).
            (rgo r (Rbody c pkt 0 (unat (pkt_size pkt))) s rc)\<lparr>
               chan := (chan s)(c := drop sizeof_millipacket (chan s c))\<rparr>)
      | _ \<Rightarrow> None)"

definition rx_read :: "nat \<Rightarrow> nat \<Rightarrow> sys \<Rightarrow> sys res option" where
  "rx_read r k s =
     (case rpcs s r of
        Rbody c pkt cursor remainder \<Rightarrow>
          if 0 < k \<and> k \<le> min remainder maxbsize \<and> k \<le> length (chan s c)
          then after (rx_read_round (rbuf s r) cursor remainder (take k (chan s c)))
            (\<lambda>(buf, cursor, remainder). (rgo r (Rbody c pkt cursor remainder) s (rxc s))\<lparr>
               chan := (chan s)(c := drop k (chan s c)), rbuf := (rbuf s)(r := buf)\<rparr>)
          else None
      | _ \<Rightarrow> None)"

definition rx_relay :: "world \<Rightarrow> millipacket_s \<Rightarrow> sys \<Rightarrow> (globals \<times> txconf_s \<times> rxconf_s) res" where
  "rx_relay su pkt s =
     (if leg_id pkt = 0
      then bindE (initiate_relay (su_env su) 0 (rxg s) (rtxc s) (rxc s) (rioc s)) (\<lambda>(_, g, tc, rc, _).
             Inr (g, tc, rc))
      else Inr (rxg s, rtxc s, rxc s))"

definition rx_check :: "world \<Rightarrow> nat \<Rightarrow> sys \<Rightarrow> sys res option" where
  "rx_check su r s =
     (case rpcs s r of
        Rbody c pkt cursor remainder \<Rightarrow>
          if remainder = 0
          then after (bindE (rx_prbs_check (rxg s) pkt (rbuf s r)) (\<lambda>_. rx_relay su pkt s))
            (\<lambda>(g, tc, rc). (rgo r (Rwait c pkt) s rc)\<lparr>rxg := g, rtxc := tc\<rparr>)
          else None
      | _ \<Rightarrow> None)"

definition rx_seq :: "nat \<Rightarrow> sys \<Rightarrow> sys res option" where
  "rx_seq r s =
     (case rpcs s r of
        Rwait c pkt \<Rightarrow>
          if rx_ready pkt (rxc s) then Some (Inr (rgo r (Rwrite c pkt) s (rxc s))) else None
      | _ \<Rightarrow> None)"

definition rx_write :: "nat \<Rightarrow> sys \<Rightarrow> sys res option" where
  "rx_write r s =
     (case rpcs s r of
        Rwrite c pkt \<Rightarrow>
          let bytes = rx_write_bytes pkt (rbuf s r) in
          after (rx_written r pkt (length bytes) 0 (rxc s)) (\<lambda>rc.
            (rgo r (Rop c pkt) s rc)\<lparr>out := out s @ bytes\<rparr>)
      | _ \<Rightarrow> None)"

definition rx_op :: "nat \<Rightarrow> sys \<Rightarrow> sys res option" where
  "rx_op r s =
     (case rpcs s r of
        Rop c pkt \<Rightarrow>
          (case rx_opcode pkt (rbuf s r) (rxc s) (rxsum s) of
             None \<Rightarrow> None
           | Some x \<Rightarrow> after x (\<lambda>(rc, saved). (rgo r (Rnext c pkt) s rc)\<lparr>rxsum := saved\<rparr>))
      | _ \<Rightarrow> None)"

definition rx_step :: "nat \<Rightarrow> sys \<Rightarrow> sys res option" where
  "rx_step r s =
     (case rpcs s r of
        Rnext c pkt \<Rightarrow> Some (Inr (rgo r (Rloop c) s (rx_next r (rxc s))))
      | _ \<Rightarrow> None)"

text \<open>Receiving workers are numbered below \<^verbatim>\<open>kthreadmax\<close>.\<close>

definition rx_thread :: "nat \<Rightarrow> sys res option \<Rightarrow> sys res option" where
  "rx_thread r x = (if r < kthreadmax then x else None)"

fun do_action :: "world \<Rightarrow> action \<Rightarrow> sys \<Rightarrow> sys res option" where
  "do_action su (TxConnect w) s = tx_connect su w s"
| "do_action su (TxOk w) s = tx_ok w s"
| "do_action su (TxReset w) s = tx_reset w s"
| "do_action su (TxLoop w) s = tx_loop w s"
| "do_action su (TxPush w) s = tx_push su w s"
| "do_action su (TxWrite w) s = tx_write w s"
| "do_action su (TxFin w) s = tx_fin w s"
| "do_action su IngestTop s = ingest_top s"
| "do_action su IngestScan s = ingest_scan s"
| "do_action su IngestFill s = ingest_read su s"
| "do_action su IngestLoad s = ingest_load su s"
| "do_action su IngestSend s = ingest_send s"
| "do_action su (RxTop r) s = rx_thread r (rx_top r s)"
| "do_action su (RxAccept r) s = rx_thread r (rx_take r s)"
| "do_action su (RxHello r) s = rx_thread r (rx_hello su r s)"
| "do_action su (RxHead r) s = rx_thread r (rx_head r s)"
| "do_action su (RxBody r k) s = rx_thread r (rx_read r k s)"
| "do_action su (RxCheck r) s = rx_thread r (rx_check su r s)"
| "do_action su (RxSeq r) s = rx_thread r (rx_seq r s)"
| "do_action su (RxWrite r) s = rx_thread r (rx_write r s)"
| "do_action su (RxOp r) s = rx_thread r (rx_op r s)"
| "do_action su (RxNext r) s = rx_thread r (rx_step r s)"

section \<open>Runs\<close>

text \<open>
  Both processes after their set-up: all workers launched, nothing sent, the sequencer at leg 0.
  The input is steady: deliveries, none empty, then its end.
\<close>

definition sys_start :: "world \<Rightarrow> sys \<Rightarrow> bool" where
  "sys_start su s \<longleftrightarrow>
     wf_txconf (txc s) \<and> 0 < worker_count (txc s) \<and> 0 < target_port_count (txc s) \<and>
     \<not> tx_done (txc s) \<and> \<not> input_eof (txc s) \<and>
     (\<forall>w. int w < worker_count (txc s) \<longrightarrow> tx_state (txc s) w = CHR ''L'' \<and> length (tw_buffer (worker (txc s) w)) = kfootsize) \<and>
     wpcs s = (\<lambda>_. Wconn) \<and> ipcs s = Itop \<and> ig s = ingest_begin \<and> fd_steady (inp s) \<and>
     hello s = (\<lambda>_. []) \<and> reply s = (\<lambda>_. []) \<and> backlog s = [] \<and> owner s = (\<lambda>_. None) \<and> chan s = (\<lambda>_. []) \<and>
     length (rx_workers (rxc s)) = kthreadmax \<and> (\<forall>r < kthreadmax. rw_id (rxw (rxc s) r) = int r) \<and>
     next_leg (rxc s) = 0 \<and> \<not> done_mbox (rxc s) \<and>
     rpcs s = (\<lambda>_. Rtop) \<and> (\<forall>r. length (rbuf s r) = kfootsize) \<and> rxsum s = 0xff \<and>
     ginitiator_oneshot (rxg s) = 0 \<and> out s = [] \<and> legs s = []"

text \<open>
  A step of any run, and of a calm run: the ingest thread does not dispatch to a worker that is
  between turning idle and resetting its packet, and fewer than \<open>2 ^ 64 - 1\<close> legs are sent.
\<close>

inductive any_step :: "world \<Rightarrow> sys \<Rightarrow> sys \<Rightarrow> bool" for su where
  act: "do_action su a s = Some (Inr t) \<Longrightarrow> any_step su s t"

definition calm :: "sys \<Rightarrow> action \<Rightarrow> bool" where
  "calm s a \<longleftrightarrow> length (legs s) < 2 ^ 64 - 1 \<and>
     (a = IngestScan \<longrightarrow> (case ipcs s of Iscan k \<Rightarrow> wpcs s k \<noteq> Wwindow | _ \<Rightarrow> True))"

inductive calm_step :: "world \<Rightarrow> sys \<Rightarrow> sys \<Rightarrow> bool" for su where
  calm_act: "calm s a \<Longrightarrow> do_action su a s = Some (Inr t) \<Longrightarrow> calm_step su s t"

inductive_cases calm_stepE: "calm_step su s t"

text \<open>A schedule, run from a state; \<open>None\<close> when an action is not enabled or stops the process, and
  in a calm run also when it is not calm.\<close>

fun run :: "world \<Rightarrow> action list \<Rightarrow> sys \<Rightarrow> sys option" where
  "run su [] s = Some s"
| "run su (a # as) s = (case do_action su a s of Some (Inr t) \<Rightarrow> run su as t | _ \<Rightarrow> None)"

fun calm_run :: "world \<Rightarrow> action list \<Rightarrow> sys \<Rightarrow> sys option" where
  "calm_run su [] s = Some s"
| "calm_run su (a # as) s =
     (if calm s a then case do_action su a s of Some (Inr t) \<Rightarrow> calm_run su as t | _ \<Rightarrow> None else None)"

lemma run_reach:
  "run su as s = Some t \<Longrightarrow> reach I (any_step su) s \<Longrightarrow> reach I (any_step su) t"
  by (induction su as s rule: run.induct)
     (auto split: option.splits sum.splits intro: reach.reach_step any_step.intros)

lemma calm_run_reach:
  "calm_run su as s = Some t \<Longrightarrow> reach I (calm_step su) s \<Longrightarrow> reach I (calm_step su) t"
  by (induction su as s rule: calm_run.induct)
     (auto split: option.splits sum.splits if_splits intro: reach.reach_step calm_step.intros)

lemma calm_any: "calm_step su s t \<Longrightarrow> any_step su s t"
  by (auto elim: calm_stepE intro: any_step.intros)

end
