(* ===== verification/Vm_Invariant.thy ===== *)
theory Vm_Invariant
  imports Vm_Pipeline
begin

text \<open>
  The invariant of calm runs. It follows every leg number from the ingest thread to the output:
  between the sequencer's \<^verbatim>\<open>next_leg\<close> and the number of legs read, each number is held by exactly
  one transmitting worker, connection or receiving worker, with the right payload.
\<close>

section \<open>What holds a leg\<close>

text \<open>
  A packet with the payload it announces, against the legs numbered so far; \<open>e\<close> says that the
  shutdown leg is among them.
\<close>

definition pkt_good :: "globals \<Rightarrow> byte list list \<Rightarrow> bool \<Rightarrow> millipacket_s \<Rightarrow> byte list \<Rightarrow> bool" where
  "pkt_good g ls e p pl \<longleftrightarrow>
     preamble p = preamble_cannon_ul \<and>
     unat (leg_id p) < length ls \<and> pl = ls ! unat (leg_id p) \<and> unat (pkt_size p) = length pl \<and>
     length pl \<le> kfootsize \<and> (opcode p = feed_more \<or> opcode p = end_of_millipede) \<and>
     (opcode p = end_of_millipede \<longleftrightarrow> e \<and> Suc (unat (leg_id p)) = length ls) \<and>
     (opcode p = feed_more \<and> \<not> gchecksums g \<longrightarrow> checksum p = 0)"

definition tx_good :: "globals \<Rightarrow> byte list list \<Rightarrow> bool \<Rightarrow> txworker_s \<Rightarrow> wpc \<Rightarrow> bool" where
  "tx_good g ls e t pc \<longleftrightarrow>
     length (tw_buffer t) = kfootsize \<and>
     (case pc of
        Wconn \<Rightarrow> tw_state t = CHR ''L''
      | Wok \<Rightarrow> tw_state t = CHR ''c''
      | Wwindow \<Rightarrow> tw_state t = CHR ''i''
      | Wpush d \<Rightarrow> tw_state t = CHR ''d''
      | Wwrite d \<Rightarrow> tw_state t = CHR ''P'' \<and> tw_writeremainder t = uint (pkt_size (tw_pkt t)) \<and>
          pkt_good g ls e (tw_pkt t) (take (unat (pkt_size (tw_pkt t))) (tw_buffer t))
      | Wfin d \<Rightarrow> tw_state t = CHR ''P'' \<and> tw_writeremainder t = 0
      | _ \<Rightarrow> tw_state t = CHR ''i'' \<or> tw_state t = CHR ''d'') \<and>
     (pc \<notin> {Wconn, Wok, Wwindow} \<longrightarrow> preamble (tw_pkt t) = preamble_cannon_ul) \<and>
     (tw_state t = CHR ''d'' \<longrightarrow>
        pkt_good g ls e (tw_pkt t) (take (unat (pkt_size (tw_pkt t))) (push_buffer g t)))"

definition is_Wwrite :: "wpc \<Rightarrow> bool" where
  "is_Wwrite pc \<longleftrightarrow> (case pc of Wwrite d \<Rightarrow> True | _ \<Rightarrow> False)"

lemma is_Wwrite_simps [simp]:
  "is_Wwrite (Wwrite d)" "\<not> is_Wwrite Wconn" "\<not> is_Wwrite Wok" "\<not> is_Wwrite Wwindow" "\<not> is_Wwrite Wloop"
  "\<not> is_Wwrite (Wpush d)" "\<not> is_Wwrite (Wfin d)" "\<not> is_Wwrite Wexit"
  by (simp_all add: is_Wwrite_def)

definition tx_holds :: "txworker_s \<Rightarrow> wpc \<Rightarrow> nat multiset" where
  "tx_holds t pc = (if tw_state t = CHR ''d'' \<or> is_Wwrite pc then {#unat (leg_id (tw_pkt t))#} else {#})"

definition ch_good :: "globals \<Rightarrow> byte list list \<Rightarrow> bool \<Rightarrow> byte list \<Rightarrow> bool" where
  "ch_good g ls e bs \<longleftrightarrow> whole bs \<and> (\<forall>f \<in> set (frames bs). pkt_good g ls e (fst f) (snd f))"

definition ch_holds :: "byte list \<Rightarrow> nat multiset" where
  "ch_holds bs = mset (map (\<lambda>f. unat (leg_id (fst f))) (frames bs))"

text \<open>How many bytes at the front of a connection belong to the leg its owner is reading.\<close>

definition body_left :: "nat \<Rightarrow> rpc \<Rightarrow> nat" where
  "body_left c pc = (case pc of Rbody c' p cursor remainder \<Rightarrow> if c' = c then remainder else 0 | _ \<Rightarrow> 0)"

definition cut :: "(nat \<Rightarrow> nat option) \<Rightarrow> (nat \<Rightarrow> rpc) \<Rightarrow> nat \<Rightarrow> nat" where
  "cut own pcs c = (case own c of None \<Rightarrow> 0 | Some r \<Rightarrow> body_left c (pcs r))"

definition rx_conn :: "rpc \<Rightarrow> nat option" where
  "rx_conn pc = (case pc of Rhello c \<Rightarrow> Some c | Rloop c \<Rightarrow> Some c | Rhead c \<Rightarrow> Some c
     | Rbody c p cursor remainder \<Rightarrow> Some c | Rwait c p \<Rightarrow> Some c | Rwrite c p \<Rightarrow> Some c
     | Rop c p \<Rightarrow> Some c | Rnext c p \<Rightarrow> Some c | _ \<Rightarrow> None)"

definition rx_pkt :: "rpc \<Rightarrow> millipacket_s option" where
  "rx_pkt pc = (case pc of Rbody c p cursor remainder \<Rightarrow> Some p | Rwait c p \<Rightarrow> Some p
     | Rwrite c p \<Rightarrow> Some p | Rop c p \<Rightarrow> Some p | Rnext c p \<Rightarrow> Some p | _ \<Rightarrow> None)"

definition rx_holds :: "rpc \<Rightarrow> nat multiset" where
  "rx_holds pc = (case rx_pkt pc of None \<Rightarrow> {#} | Some p \<Rightarrow> {#unat (leg_id p)#})"

text \<open>The sequencer's turn, and the part of it after the output was written.\<close>

definition in_turn :: "rpc \<Rightarrow> bool" where
  "in_turn pc \<longleftrightarrow> (case pc of Rwrite c p \<Rightarrow> True | Rop c p \<Rightarrow> True | Rnext c p \<Rightarrow> True | _ \<Rightarrow> False)"

definition has_written :: "rpc \<Rightarrow> bool" where
  "has_written pc \<longleftrightarrow> (case pc of Rop c p \<Rightarrow> True | Rnext c p \<Rightarrow> True | _ \<Rightarrow> False)"

definition is_Rnext :: "rpc \<Rightarrow> bool" where
  "is_Rnext pc \<longleftrightarrow> (case pc of Rnext c p \<Rightarrow> True | _ \<Rightarrow> False)"

lemmas rpc_views = body_left_def rx_conn_def rx_pkt_def rx_holds_def in_turn_def has_written_def is_Rnext_def

lemma rpc_view_simps [simp]:
  "rx_pkt (Rbody c p i n) = Some p" "rx_pkt (Rwait c p) = Some p" "rx_pkt (Rwrite c p) = Some p"
  "rx_pkt (Rop c p) = Some p" "rx_pkt (Rnext c p) = Some p"
  "rx_pkt Rtop = None" "rx_pkt Raccept = None" "rx_pkt (Rhello c) = None" "rx_pkt (Rloop c) = None"
  "rx_pkt (Rhead c) = None" "rx_pkt Rexit = None"
  "rx_conn (Rbody c p i n) = Some c" "rx_conn (Rwait c p) = Some c" "rx_conn (Rwrite c p) = Some c"
  "rx_conn (Rop c p) = Some c" "rx_conn (Rnext c p) = Some c"
  "rx_conn Rtop = None" "rx_conn Raccept = None" "rx_conn (Rhello c) = Some c" "rx_conn (Rloop c) = Some c"
  "rx_conn (Rhead c) = Some c" "rx_conn Rexit = None"
  "body_left c (Rbody c' p i n) = (if c' = c then n else 0)" "body_left c (Rwait c' p) = 0" "body_left c (Rwrite c' p) = 0"
  "body_left c (Rop c' p) = 0" "body_left c (Rnext c' p) = 0"
  "body_left c Rtop = 0" "body_left c Raccept = 0" "body_left c (Rhello c') = 0" "body_left c (Rloop c') = 0"
  "body_left c (Rhead c') = 0" "body_left c Rexit = 0"
  by (simp_all add: rpc_views)

lemma rpc_turn_simps [simp]:
  "\<not> in_turn (Rbody c p i n)" "\<not> in_turn (Rwait c p)" "in_turn (Rwrite c p)" "in_turn (Rop c p)"
  "in_turn (Rnext c p)" "\<not> in_turn Rtop" "\<not> in_turn Raccept" "\<not> in_turn (Rhello c)" "\<not> in_turn (Rloop c)"
  "\<not> in_turn (Rhead c)" "\<not> in_turn Rexit"
  "\<not> has_written (Rbody c p i n)" "\<not> has_written (Rwait c p)" "\<not> has_written (Rwrite c p)"
  "has_written (Rop c p)" "has_written (Rnext c p)" "\<not> has_written Rtop" "\<not> has_written Raccept"
  "\<not> has_written (Rhello c)" "\<not> has_written (Rloop c)" "\<not> has_written (Rhead c)" "\<not> has_written Rexit"
  "\<not> is_Rnext (Rbody c p i n)" "\<not> is_Rnext (Rwait c p)" "\<not> is_Rnext (Rwrite c p)" "\<not> is_Rnext (Rop c p)"
  "is_Rnext (Rnext c p)" "\<not> is_Rnext Rtop" "\<not> is_Rnext Raccept" "\<not> is_Rnext (Rhello c)"
  "\<not> is_Rnext (Rloop c)" "\<not> is_Rnext (Rhead c)" "\<not> is_Rnext Rexit"
  by (simp_all add: rpc_views)

lemma has_written_turn: "has_written pc \<Longrightarrow> in_turn pc"
  by (cases pc) simp_all

lemma is_Rnext_written: "is_Rnext pc \<Longrightarrow> has_written pc"
  by (cases pc) simp_all

definition rx_good ::
  "globals \<Rightarrow> byte list list \<Rightarrow> bool \<Rightarrow> (nat \<Rightarrow> byte list) \<Rightarrow> u64 \<Rightarrow> rpc \<Rightarrow> byte list \<Rightarrow> bool" where
  "rx_good g ls e ch nxt pc buf \<longleftrightarrow>
     length buf = kfootsize \<and>
     (case pc of
        Rbody c p cursor remainder \<Rightarrow>
          cursor + remainder = unat (pkt_size p) \<and> remainder \<le> length (ch c) \<and>
          pkt_good g ls e p (take cursor buf @ take remainder (ch c))
      | _ \<Rightarrow> \<forall>p. rx_pkt pc = Some p \<longrightarrow> pkt_good g ls e p (take (unat (pkt_size p)) buf)) \<and>
     (in_turn pc \<longrightarrow> (\<forall>p. rx_pkt pc = Some p \<longrightarrow> leg_id p = nxt))"

section \<open>The invariant\<close>

definition ended :: "sys \<Rightarrow> bool" where
  "ended s \<longleftrightarrow> tx_done (txc s) \<and> (\<forall>w. ipcs s \<noteq> Isend w)"

definition cfg_inv :: "txconf_s \<Rightarrow> rxconf_s \<Rightarrow> byte list list \<Rightarrow> bool" where
  "cfg_inv tc rc ls \<longleftrightarrow>
     wf_txconf tc \<and> 0 < worker_count tc \<and> 0 < target_port_count tc \<and>
     length (rx_workers rc) = kthreadmax \<and> (\<forall>r < kthreadmax. rw_id (rxw rc r) = int r) \<and>
     length ls < 2 ^ 64 \<and> unat (next_leg rc) \<le> length ls"

text \<open>
  The ingest thread: its counter numbers the legs; outside a load, legs and unread input make up
  the source; a worker it is serving is idle. A leg limit drops what was read for the leg
  after the last.
\<close>

definition serves :: "ipc \<Rightarrow> nat option" where
  "serves pc = (case pc of Ifill w \<Rightarrow> Some w | Iload w n \<Rightarrow> Some w | Isend w \<Rightarrow> Some w | _ \<Rightarrow> None)"

definition source_inv ::
  "globals \<Rightarrow> byte list \<Rightarrow> rd_event list \<Rightarrow> txconf_s \<Rightarrow> ipc \<Rightarrow> byte list list \<Rightarrow> bool" where
  "source_inv g src evs tc pc ls \<longleftrightarrow>
     fd_steady evs \<and>
     (gprbs_seed g = 0 \<longrightarrow>
        (case pc of
           Iload w n \<Rightarrow> n \<le> kfootsize \<and> concat ls @ take n (tw_buffer (worker tc w)) @ fd_avail evs = src \<and>
             (n = 0 \<longrightarrow> fd_avail evs = [])
         | _ \<Rightarrow> if tx_done tc \<and> gleg_limit g > 0 then \<exists>more. concat ls @ more = src
                else concat ls @ fd_avail evs = src \<and> (tx_done tc \<longrightarrow> fd_avail evs = []))) \<and>
     (gprbs_seed g \<noteq> 0 \<longrightarrow> (\<forall>w n. pc = Iload w n \<longrightarrow> n = kfootsize))"

definition ingest_inv :: "ingest \<Rightarrow> txconf_s \<Rightarrow> ipc \<Rightarrow> (nat \<Rightarrow> wpc) \<Rightarrow> byte list list \<Rightarrow> bool" where
  "ingest_inv i tc pc pcs ls \<longleftrightarrow>
     ingest_leg_counter i = of_nat (length ls) \<and>
     (\<forall>w. serves pc = Some w \<longrightarrow> int w < worker_count tc \<and> tx_state tc w = CHR ''i'' \<and>
        (pcs w = Wloop \<or> pcs w = Wexit)) \<and>
     (tx_done tc \<longrightarrow> pc = Itop \<or> pc = Iend \<or> (\<exists>w. pc = Isend w)) \<and>
     (\<forall>w. pc = Isend w \<longrightarrow> tx_done tc)"

definition tx_inv :: "globals \<Rightarrow> byte list list \<Rightarrow> bool \<Rightarrow> txconf_s \<Rightarrow> (nat \<Rightarrow> wpc) \<Rightarrow> bool" where
  "tx_inv g ls e tc pcs \<longleftrightarrow> (\<forall>w. int w < worker_count tc \<longrightarrow> tx_good g ls e (worker tc w) (pcs w))"

text \<open>Connections: a receiving worker owns the one it works on; a queued one is not owned.\<close>

definition conn_inv ::
  "world \<Rightarrow> nat \<Rightarrow> (nat \<Rightarrow> wpc) \<Rightarrow> (nat \<Rightarrow> byte list) \<Rightarrow> (nat \<Rightarrow> string) \<Rightarrow> nat list \<Rightarrow> (nat \<Rightarrow> nat option) \<Rightarrow>
   (nat \<Rightarrow> rpc) \<Rightarrow> bool" where
  "conn_inv su n wp hel rep bl own rp \<longleftrightarrow>
     distinct bl \<and> (\<forall>c \<in> set bl. own c = None \<and> c < n \<and> wp c \<noteq> Wconn \<and> hel c = tx_phrase su) \<and>
     (\<forall>c r. own c = Some r \<longrightarrow> c < n \<and> r < kthreadmax \<and> wp c \<noteq> Wconn \<and> hel c = tx_phrase su) \<and>
     (\<forall>r c. rx_conn (rp r) = Some c \<longrightarrow> own c = Some r) \<and>
     (\<forall>c. rep c = [] \<or> rep c = ''ok'')"

definition chan_inv ::
  "globals \<Rightarrow> byte list list \<Rightarrow> bool \<Rightarrow> nat \<Rightarrow> (nat \<Rightarrow> byte list) \<Rightarrow> (nat \<Rightarrow> nat option) \<Rightarrow> (nat \<Rightarrow> rpc) \<Rightarrow> bool" where
  "chan_inv g ls e n ch own rp \<longleftrightarrow>
     (\<forall>c < n. cut own rp c \<le> length (ch c) \<and> ch_good g ls e (drop (cut own rp c) (ch c)))"

definition rx_inv ::
  "globals \<Rightarrow> byte list list \<Rightarrow> bool \<Rightarrow> (nat \<Rightarrow> byte list) \<Rightarrow> u64 \<Rightarrow> (nat \<Rightarrow> rpc) \<Rightarrow> (nat \<Rightarrow> byte list) \<Rightarrow> bool" where
  "rx_inv g ls e ch nxt rp bufs \<longleftrightarrow> (\<forall>r. rx_good g ls e ch nxt (rp r) (bufs r))"

definition tx_part :: "txconf_s \<Rightarrow> (nat \<Rightarrow> wpc) \<Rightarrow> nat multiset" where
  "tx_part tc pcs = (\<Sum>w < nat (worker_count tc). tx_holds (worker tc w) (pcs w))"

definition ch_part :: "nat \<Rightarrow> (nat \<Rightarrow> byte list) \<Rightarrow> (nat \<Rightarrow> nat option) \<Rightarrow> (nat \<Rightarrow> rpc) \<Rightarrow> nat multiset" where
  "ch_part n ch own rp = (\<Sum>c < n. ch_holds (drop (cut own rp c) (ch c)))"

definition rx_part :: "(nat \<Rightarrow> rpc) \<Rightarrow> nat multiset" where
  "rx_part rp = (\<Sum>r < kthreadmax. rx_holds (rp r))"

definition in_flight :: "sys \<Rightarrow> nat multiset" where
  "in_flight s = tx_part (txc s) (wpcs s) + ch_part (nat (worker_count (txc s))) (chan s) (owner s) (rpcs s)
     + rx_part (rpcs s)"

definition out_inv :: "u64 \<Rightarrow> (nat \<Rightarrow> rpc) \<Rightarrow> byte list list \<Rightarrow> byte list \<Rightarrow> bool" where
  "out_inv nxt rp ls o' \<longleftrightarrow>
     o' = concat (take (if \<exists>r < kthreadmax. has_written (rp r) then Suc (unat nxt) else unat nxt) ls)"

definition done_inv :: "rxconf_s \<Rightarrow> (nat \<Rightarrow> rpc) \<Rightarrow> byte list list \<Rightarrow> bool \<Rightarrow> bool" where
  "done_inv rc rp ls e \<longleftrightarrow>
     (done_mbox rc \<longleftrightarrow> e \<and>
        (if \<exists>r < kthreadmax. is_Rnext (rp r) then Suc (unat (next_leg rc)) = length ls
         else unat (next_leg rc) = length ls))"

definition relay_inv :: "u64 \<Rightarrow> (nat \<Rightarrow> rpc) \<Rightarrow> globals \<Rightarrow> bool" where
  "relay_inv nxt rp g \<longleftrightarrow>
     ginitiator_oneshot g \<ge> 0 \<and> (nxt \<noteq> 0 \<longrightarrow> ginitiator_oneshot g > 0) \<and>
     (\<forall>r p. rx_pkt (rp r) = Some p \<and> leg_id p = 0 \<and> (\<forall>c i n. rp r \<noteq> Rbody c p i n) \<longrightarrow>
        ginitiator_oneshot g > 0)"

text \<open>In prbs mode every leg but the shutdown leg carries the generated words of its number.\<close>

definition prbs_inv :: "globals \<Rightarrow> byte list list \<Rightarrow> bool \<Rightarrow> bool" where
  "prbs_inv g ls e \<longleftrightarrow>
     (gprbs_seed g \<noteq> 0 \<longrightarrow> (\<forall>i < length ls. \<not> (e \<and> Suc i = length ls) \<longrightarrow>
        ls ! i = prbs_bytes (gprbs_seed g + of_nat i) 0 (kfootsize div 8)))"

text \<open>
  The legs of one connection, from the receiving worker that owns it back to the transmitting worker:
  their numbers increase, so a leg never waits behind a later one on its own connection.
\<close>

definition tx_list :: "txworker_s \<Rightarrow> wpc \<Rightarrow> nat list" where
  "tx_list t pc = (if tw_state t = CHR ''d'' \<or> is_Wwrite pc then [unat (leg_id (tw_pkt t))] else [])"

definition ch_list :: "byte list \<Rightarrow> nat list" where
  "ch_list bs = map (\<lambda>f. unat (leg_id (fst f))) (frames bs)"

definition rx_list :: "nat \<Rightarrow> rpc \<Rightarrow> nat list" where
  "rx_list c pc = (if rx_conn pc = Some c then (case rx_pkt pc of None \<Rightarrow> [] | Some p \<Rightarrow> [unat (leg_id p)]) else [])"

definition conn_legs ::
  "txconf_s \<Rightarrow> (nat \<Rightarrow> wpc) \<Rightarrow> (nat \<Rightarrow> byte list) \<Rightarrow> (nat \<Rightarrow> nat option) \<Rightarrow> (nat \<Rightarrow> rpc) \<Rightarrow> nat \<Rightarrow> nat list" where
  "conn_legs tc wp ch own rp c =
     (case own c of None \<Rightarrow> [] | Some r \<Rightarrow> rx_list c (rp r)) @ ch_list (drop (cut own rp c) (ch c)) @
     tx_list (worker tc c) (wp c)"

definition order_inv ::
  "nat \<Rightarrow> txconf_s \<Rightarrow> (nat \<Rightarrow> wpc) \<Rightarrow> (nat \<Rightarrow> byte list) \<Rightarrow> (nat \<Rightarrow> nat option) \<Rightarrow> (nat \<Rightarrow> rpc) \<Rightarrow> bool" where
  "order_inv n tc wp ch own rp \<longleftrightarrow> (\<forall>c < n. sorted_wrt (<) (conn_legs tc wp ch own rp c))"

text \<open>
  A transmitting worker that is online was answered, and until the transfer is done the worker that
  answered is still reading its connection.
\<close>

definition serve_inv ::
  "nat \<Rightarrow> (nat \<Rightarrow> wpc) \<Rightarrow> (nat \<Rightarrow> string) \<Rightarrow> (nat \<Rightarrow> byte list) \<Rightarrow> (nat \<Rightarrow> nat option) \<Rightarrow> (nat \<Rightarrow> rpc) \<Rightarrow>
   bool \<Rightarrow> bool" where
  "serve_inv n wp rep ch own rp dn \<longleftrightarrow>
     (\<forall>c < n. (if wp c = Wconn \<or> wp c = Wok then ch c = [] else rep c \<noteq> []) \<and>
        (rep c \<noteq> [] \<longrightarrow> (\<exists>r. own c = Some r \<and> (rx_conn (rp r) = Some c \<and> rp r \<noteq> Rhello c \<or> dn))))"

definition sys_inv :: "world \<Rightarrow> byte list \<Rightarrow> sys \<Rightarrow> bool" where
  "sys_inv su src s \<longleftrightarrow>
     cfg_inv (txc s) (rxc s) (legs s) \<and>
     source_inv (su_g su) src (inp s) (txc s) (ipcs s) (legs s) \<and>
     ingest_inv (ig s) (txc s) (ipcs s) (wpcs s) (legs s) \<and>
     tx_inv (su_g su) (legs s) (ended s) (txc s) (wpcs s) \<and>
     conn_inv su (nat (worker_count (txc s))) (wpcs s) (hello s) (reply s) (backlog s) (owner s) (rpcs s) \<and>
     chan_inv (su_g su) (legs s) (ended s) (nat (worker_count (txc s))) (chan s) (owner s) (rpcs s) \<and>
     rx_inv (su_g su) (legs s) (ended s) (chan s) (next_leg (rxc s)) (rpcs s) (rbuf s) \<and>
     in_flight s = mset_set {unat (next_leg (rxc s))..<length (legs s)} \<and>
     out_inv (next_leg (rxc s)) (rpcs s) (legs s) (out s) \<and>
     done_inv (rxc s) (rpcs s) (legs s) (ended s) \<and>
     relay_inv (next_leg (rxc s)) (rpcs s) (rxg s) \<and>
     prbs_inv (su_g su) (legs s) (ended s) \<and>
     order_inv (nat (worker_count (txc s))) (txc s) (wpcs s) (chan s) (owner s) (rpcs s) \<and>
     serve_inv (nat (worker_count (txc s))) (wpcs s) (reply s) (chan s) (owner s) (rpcs s) (done_mbox (rxc s))"

section \<open>Using the invariant\<close>

lemma after_Inr [res_iff]: "after r f = Some (Inr t) \<longleftrightarrow> (\<exists>x. r = Inr x \<and> t = f x)"
  by (cases r) (auto simp: after_def)

lemma after_Inl: "after r f = Some (Inl e) \<longleftrightarrow> r = Inl e"
  by (cases r) (auto simp: after_def)

lemma wgo_sel [simp]:
  "txc (wgo w pc s c) = c" "wpcs (wgo w pc s c) = (wpcs s)(w := pc)" "ipcs (wgo w pc s c) = ipcs s"
  "ig (wgo w pc s c) = ig s" "inp (wgo w pc s c) = inp s" "hello (wgo w pc s c) = hello s"
  "reply (wgo w pc s c) = reply s" "backlog (wgo w pc s c) = backlog s" "owner (wgo w pc s c) = owner s"
  "chan (wgo w pc s c) = chan s" "rxc (wgo w pc s c) = rxc s" "rpcs (wgo w pc s c) = rpcs s"
  "rbuf (wgo w pc s c) = rbuf s" "rxsum (wgo w pc s c) = rxsum s" "rxg (wgo w pc s c) = rxg s"
  "rtxc (wgo w pc s c) = rtxc s" "rioc (wgo w pc s c) = rioc s" "out (wgo w pc s c) = out s"
  "legs (wgo w pc s c) = legs s"
  by (simp_all add: wgo_def)

lemma rgo_sel [simp]:
  "txc (rgo r pc s c) = txc s" "wpcs (rgo r pc s c) = wpcs s" "ipcs (rgo r pc s c) = ipcs s"
  "ig (rgo r pc s c) = ig s" "inp (rgo r pc s c) = inp s" "hello (rgo r pc s c) = hello s"
  "reply (rgo r pc s c) = reply s" "backlog (rgo r pc s c) = backlog s" "owner (rgo r pc s c) = owner s"
  "chan (rgo r pc s c) = chan s" "rxc (rgo r pc s c) = c" "rpcs (rgo r pc s c) = (rpcs s)(r := pc)"
  "rbuf (rgo r pc s c) = rbuf s" "rxsum (rgo r pc s c) = rxsum s" "rxg (rgo r pc s c) = rxg s"
  "rtxc (rgo r pc s c) = rtxc s" "rioc (rgo r pc s c) = rioc s" "out (rgo r pc s c) = out s"
  "legs (rgo r pc s c) = legs s"
  by (simp_all add: rgo_def)

lemma sys_invD:
  assumes "sys_inv su src s"
  shows "cfg_inv (txc s) (rxc s) (legs s)"
    "source_inv (su_g su) src (inp s) (txc s) (ipcs s) (legs s)"
    "ingest_inv (ig s) (txc s) (ipcs s) (wpcs s) (legs s)"
    "tx_inv (su_g su) (legs s) (ended s) (txc s) (wpcs s)"
    "conn_inv su (nat (worker_count (txc s))) (wpcs s) (hello s) (reply s) (backlog s) (owner s) (rpcs s)"
    "chan_inv (su_g su) (legs s) (ended s) (nat (worker_count (txc s))) (chan s) (owner s) (rpcs s)"
    "rx_inv (su_g su) (legs s) (ended s) (chan s) (next_leg (rxc s)) (rpcs s) (rbuf s)"
    "in_flight s = mset_set {unat (next_leg (rxc s))..<length (legs s)}"
    "out_inv (next_leg (rxc s)) (rpcs s) (legs s) (out s)"
    "done_inv (rxc s) (rpcs s) (legs s) (ended s)"
    "relay_inv (next_leg (rxc s)) (rpcs s) (rxg s)"
    "prbs_inv (su_g su) (legs s) (ended s)"
    "order_inv (nat (worker_count (txc s))) (txc s) (wpcs s) (chan s) (owner s) (rpcs s)"
    "serve_inv (nat (worker_count (txc s))) (wpcs s) (reply s) (chan s) (owner s) (rpcs s) (done_mbox (rxc s))"
  using assms unfolding sys_inv_def by blast+

lemma tx_list_holds: "tx_holds t pc = tx_holds t' pc' \<longleftrightarrow> tx_list t pc = tx_list t' pc'"
  by (auto simp: tx_holds_def tx_list_def)

lemma ch_holds_list: "ch_holds bs = mset (ch_list bs)"
  by (simp add: ch_holds_def ch_list_def)

lemma rx_list_simps [simp]:
  "rx_pkt pc = None \<Longrightarrow> rx_list c pc = []" "rx_conn pc \<noteq> Some c \<Longrightarrow> rx_list c pc = []"
  by (simp_all add: rx_list_def)

lemma rx_list_mem: "x \<in> set (rx_list c pc) \<Longrightarrow> \<exists>p. rx_pkt pc = Some p \<and> x = unat (leg_id p)"
  by (cases "rx_pkt pc"; cases "rx_conn pc = Some c") (simp_all add: rx_list_def)

lemma online_reply:
  assumes "sys_inv su src s" "int w < worker_count (txc s)" "wpcs s w \<noteq> Wconn" "wpcs s w \<noteq> Wok"
  shows "reply s w \<noteq> []"
  using sys_invD(14) [OF assms(1)] assms(2-) by (auto simp: serve_inv_def)

lemma order_cong:
  assumes "\<And>c. c < n \<Longrightarrow> tx_list (worker tc' c) (wp' c) = tx_list (worker tc c) (wp c)"
    and "order_inv n tc wp ch own rp"
  shows "order_inv n tc' wp' ch own rp"
  using assms by (simp add: order_inv_def conn_legs_def)

lemma cfg_slots:
  assumes "cfg_inv tc rc ls" "int w < worker_count tc"
  shows "w < length (tx_workers tc)" "w < kthreadmax" "tw_id (worker tc w) = int w"
  using assms by (auto simp: cfg_inv_def wf_txconf_def)

end
