(* ===== verification/Vm_Inv_Tx.thy ===== *)
theory Vm_Inv_Tx
  imports Vm_Invariant
begin

text \<open>Every action of a transmitting worker and of the ingest thread keeps the invariant.\<close>

section \<open>Steps of a transmitting worker\<close>

text \<open>A configuration that differs from another in one worker.\<close>

definition one_worker :: "nat \<Rightarrow> txworker_s \<Rightarrow> txconf_s \<Rightarrow> txconf_s \<Rightarrow> bool" where
  "one_worker w t' c c' \<longleftrightarrow>
     (\<forall>j. worker c' j = (if j = w then t' else worker c j)) \<and> tw_id t' = tw_id (worker c w) \<and>
     length (tx_workers c') = length (tx_workers c) \<and> worker_count c' = worker_count c \<and>
     tx_done c' = tx_done c \<and> target_port_count c' = target_port_count c"

lemma one_worker_upd:
  "w < length (tx_workers c) \<Longrightarrow> tw_id (f (worker c w)) = tw_id (worker c w) \<Longrightarrow>
   one_worker w (f (worker c w)) c (upd_worker f w c)"
  by (simp add: one_worker_def)

lemma one_worker_tx:
  assumes ow: "one_worker w t' tc c'" and w: "int w < worker_count tc"
  shows one_worker_cfg: "cfg_inv tc rc ls \<Longrightarrow> cfg_inv c' rc ls"
    and one_worker_source: "source_inv g src evs tc pc ls \<Longrightarrow>
      (\<And>n. pc = Iload w n \<Longrightarrow> tw_buffer t' = tw_buffer (worker tc w)) \<Longrightarrow> source_inv g src evs c' pc ls"
    and one_worker_ingest: "ingest_inv i tc pc pcs ls \<Longrightarrow>
      (serves pc = Some w \<Longrightarrow> tw_state t' = CHR ''i'' \<and> (wp = Wloop \<or> wp = Wexit)) \<Longrightarrow>
      ingest_inv i c' pc (pcs(w := wp)) ls"
    and one_worker_good: "tx_inv g ls e tc pcs \<Longrightarrow> tx_good g ls e t' wp \<Longrightarrow> tx_inv g ls e c' (pcs(w := wp))"
    and one_worker_part: "tx_part c' (pcs(w := wp)) + tx_holds (worker tc w) (pcs w) =
      tx_part tc pcs + tx_holds t' wp"
proof -
  from ow have wk: "\<And>j. worker c' j = (if j = w then t' else worker tc j)"
    and rest: "tw_id t' = tw_id (worker tc w)" "length (tx_workers c') = length (tx_workers tc)"
      "worker_count c' = worker_count tc" "tx_done c' = tx_done tc" "target_port_count c' = target_port_count tc"
    by (auto simp: one_worker_def)
  show "cfg_inv tc rc ls \<Longrightarrow> cfg_inv c' rc ls"
    by (auto simp: cfg_inv_def wf_txconf_def wk rest)
  show "source_inv g src evs c' pc ls" if "source_inv g src evs tc pc ls"
    "\<And>n. pc = Iload w n \<Longrightarrow> tw_buffer t' = tw_buffer (worker tc w)"
    using that by (cases pc) (auto simp: source_inv_def wk rest)
  show "ingest_inv i c' pc (pcs(w := wp)) ls" if "ingest_inv i tc pc pcs ls"
    "serves pc = Some w \<Longrightarrow> tw_state t' = CHR ''i'' \<and> (wp = Wloop \<or> wp = Wexit)"
    using that by (auto simp: ingest_inv_def wk rest tx_state_def)
  show "tx_inv g ls e tc pcs \<Longrightarrow> tx_good g ls e t' wp \<Longrightarrow> tx_inv g ls e c' (pcs(w := wp))"
    by (simp add: tx_inv_def wk rest)
  show "tx_part c' (pcs(w := wp)) + tx_holds (worker tc w) (pcs w) = tx_part tc pcs + tx_holds t' wp"
    unfolding tx_part_def rest(3)
    using w by (subst sum_change_at [where i = w]) (auto simp: wk)
qed

lemma ended_wgo [simp]: "tx_done c' = tx_done (txc s) \<Longrightarrow> ended (wgo w pc s c') = ended s"
  by (simp add: ended_def)

text \<open>A step of worker \<open>w\<close> that keeps what it holds.\<close>

lemma tx_keeps:
  assumes inv: "sys_inv su src s" and w: "int w < worker_count (txc s)"
    and ow: "one_worker w t' (txc s) c'"
    and good: "tx_good (su_g su) (legs s) (ended s) t' pc"
    and holds: "tx_holds t' pc = tx_holds (worker (txc s) w) (wpcs s w)"
    and serve: "serves (ipcs s) = Some w \<Longrightarrow> tw_state t' = CHR ''i'' \<and> (pc = Wloop \<or> pc = Wexit) \<and>
      tw_buffer t' = tw_buffer (worker (txc s) w)"
    and pc: "pc \<noteq> Wconn" and rep: "if pc = Wok then chan s w = [] else reply s w \<noteq> []"
  shows "sys_inv su src (wgo w pc s c')"
proof -
  note i = sys_invD [OF inv]
  have same: "tx_done c' = tx_done (txc s)" "worker_count c' = worker_count (txc s)"
    using ow by (auto simp: one_worker_def)
  have "tx_part c' ((wpcs s)(w := pc)) = tx_part (txc s) (wpcs s)"
    using one_worker_part [OF ow w, of "wpcs s" pc] holds by simp
  then have fl: "in_flight (wgo w pc s c') = in_flight s"
    by (simp add: in_flight_def same)
  have "conn_inv su (nat (worker_count (txc s))) ((wpcs s)(w := pc)) (hello s) (reply s) (backlog s) (owner s) (rpcs s)"
    using i(5) pc by (auto simp: conn_inv_def)
  moreover have "source_inv (su_g su) src (inp s) c' (ipcs s) (legs s)"
    using serve by (intro one_worker_source [OF ow w i(2)]) (auto simp: serves_def)
  moreover have "ingest_inv (ig s) c' (ipcs s) ((wpcs s)(w := pc)) (legs s)"
    using serve by (intro one_worker_ingest [OF ow w i(3)]) auto
  moreover have "order_inv (nat (worker_count (txc s))) c' ((wpcs s)(w := pc)) (chan s) (owner s) (rpcs s)"
    using ow holds by (intro order_cong [OF _ i(13)]) (auto simp: one_worker_def tx_list_holds)
  moreover have "serve_inv (nat (worker_count (txc s))) ((wpcs s)(w := pc)) (reply s) (chan s) (owner s) (rpcs s)
      (done_mbox (rxc s))"
    using i(14) pc rep by (simp add: serve_inv_def)
  ultimately show ?thesis
    unfolding sys_inv_def
    using i(6-12) fl one_worker_cfg [OF ow w i(1)] one_worker_good [OF ow w i(4) good]
    by (simp add: same)
qed


lemma tx_goodD: "sys_inv su src s \<Longrightarrow> int w < worker_count (txc s) \<Longrightarrow>
  tx_good (su_g su) (legs s) (ended s) (worker (txc s) w) (wpcs s w)"
  using sys_invD(4) by (auto simp: tx_inv_def)

lemma not_served:
  assumes "sys_inv su src s" "wpcs s w \<noteq> Wloop" "wpcs s w \<noteq> Wexit"
  shows "serves (ipcs s) \<noteq> Some w"
  using sys_invD(3) [OF assms(1)] assms(2,3) by (auto simp: ingest_inv_def)

lemma tx_dial_connects:
  assumes "w < length (tx_workers c)" "0 < target_port_count c"
  shows "\<exists>c'. tx_dial (\<lambda>_. Inr (int w + 3)) d w c = Inr c' \<and>
     one_worker w ((worker c w)\<lparr>tw_state := CHR ''c'', tw_sockfd := int w + 3\<rparr>) c c'"
  using assms
  by (simp add: tx_dial_def tx_tcp_connect_next_def Let_def tx_reconnect.simps tx_state_set_def
      one_worker_def kreconnectlimit_def)

lemma inv_tx_connect:
  assumes inv: "sys_inv su src s" and step: "tx_connect su w s = Some (Inr t)"
  shows "sys_inv su src t"
proof -
  note i = sys_invD [OF inv]
  let ?t = "(worker (txc s) w)\<lparr>tw_state := CHR ''c'', tw_sockfd := int w + 3\<rparr>"
  from step have at: "int w < worker_count (txc s)" "wpcs s w = Wconn"
    by (auto simp: tx_connect_def t_at_def split: if_splits)
  have "w < length (tx_workers (txc s))" "0 < target_port_count (txc s)"
    using cfg_slots [OF i(1) at(1)] i(1) by (auto simp: cfg_inv_def)
  from tx_dial_connects [OF this, of "\<lambda>_. tx_done (txc s)"] step at obtain c' where ow: "one_worker w ?t (txc s) c'"
    and t: "t = (wgo w Wok s c')\<lparr>hello := (hello s)(w := tx_phrase su), backlog := backlog s @ [w]\<rparr>"
    by (auto simp: tx_connect_def t_at_def res_iff)
  have good: "tx_good (su_g su) (legs s) (ended s) ?t Wok"
    using tx_goodD [OF inv at(1)] at by (simp add: tx_good_def push_buffer_def)
  have holds: "tx_holds ?t Wok = tx_holds (worker (txc s) w) (wpcs s w)"
    using tx_goodD [OF inv at(1)] at by (simp add: tx_good_def tx_holds_def)
  have k: "sys_inv su src (wgo w Wok s c')"
    by (rule tx_keeps [OF inv at(1) ow good holds]) (use not_served [OF inv] at i(14) in \<open>auto simp: serve_inv_def\<close>)
  note j = sys_invD [OF k]
  have fresh: "owner s w = None \<and> w \<notin> set (backlog s)"
    using i(5) at by (cases "owner s w") (auto simp: conn_inv_def)
  have "worker_count c' = worker_count (txc s)" using ow by (simp add: one_worker_def)
  with i(5) at fresh
  have "conn_inv su (nat (worker_count c')) ((wpcs s)(w := Wok)) ((hello s)(w := tx_phrase su)) (reply s)
      (backlog s @ [w]) (owner s) (rpcs s)"
    by (auto simp: conn_inv_def)
  with j show ?thesis
    unfolding sys_inv_def t by (simp add: in_flight_def ended_def)
qed

lemma inv_tx_ok:
  assumes inv: "sys_inv su src s" and step: "tx_ok w s = Some (Inr t)"
  shows "sys_inv su src t"
proof -
  from step have at: "int w < worker_count (txc s)" "wpcs s w = Wok" "reply s w \<noteq> []"
    by (auto simp: tx_ok_def t_at_def split: if_splits)
  note w = cfg_slots [OF sys_invD(1) [OF inv] at(1)]
  let ?f = "\<lambda>t. t\<lparr>tw_writeremainder := -88, tw_state := CHR ''i''\<rparr>"
  from step at w(1) have t: "t = wgo w Wwindow s (upd_worker ?f w (txc s))"
    by (auto simp: tx_ok_def t_at_def res_iff tx_shake_def sm_online_def tx_state_set_def upd_worker_upd_worker
        split: if_splits)
  show ?thesis
    unfolding t
    by (rule tx_keeps [OF inv at(1) one_worker_upd])
       (use tx_goodD [OF inv at(1)] not_served [OF inv] at w in \<open>auto simp: tx_good_def tx_holds_def push_buffer_def\<close>)
qed

lemma inv_tx_reset:
  assumes inv: "sys_inv su src s" and step: "tx_reset w s = Some (Inr t)"
  shows "sys_inv su src t"
proof -
  from step have at: "int w < worker_count (txc s)" "wpcs s w = Wwindow"
    by (auto simp: tx_reset_def t_at_def split: if_splits)
  note w = cfg_slots [OF sys_invD(1) [OF inv] at(1)]
  from step at have t: "t = wgo w Wloop s (sm_reset w (txc s))" by (auto simp: tx_reset_def t_at_def)
  show ?thesis
    unfolding t sm_reset_def
    by (rule tx_keeps [OF inv at(1) one_worker_upd])
       (use tx_goodD [OF inv at(1)] not_served [OF inv] online_reply [OF inv at(1)] at w in
         \<open>auto simp: tx_good_def tx_holds_def\<close>)
qed

lemma one_worker_refl: "one_worker w (worker c w) c c"
  by (simp add: one_worker_def)

lemma inv_tx_loop:
  assumes inv: "sys_inv su src s" and step: "tx_loop w s = Some (Inr t)"
  shows "sys_inv su src t"
proof -
  from step have at: "int w < worker_count (txc s)" "wpcs s w = Wloop"
    by (auto simp: tx_loop_def t_at_def split: if_splits)
  note good = tx_goodD [OF inv at(1)]
  from step at obtain pc where t: "t = wgo w pc s (txc s)"
    and pc: "(pc = Wloop \<or> pc = Wexit) \<and> tx_state (txc s) w = CHR ''i'' \<or>
      (\<exists>d. pc = Wpush d) \<and> tx_state (txc s) w = CHR ''d''"
    by (auto simp: tx_loop_def t_at_def sm_switch_def Let_def assertE_def split: if_splits)
  have srv: "serves (ipcs s) = Some w \<Longrightarrow> tx_state (txc s) w = CHR ''i''"
    using sys_invD(3) [OF inv] by (auto simp: ingest_inv_def)
  show ?thesis
    unfolding t
    by (rule tx_keeps [OF inv at(1) one_worker_refl])
       (use good pc srv at online_reply [OF inv at(1)] in \<open>auto simp: tx_good_def tx_holds_def tx_state_def\<close>)
qed

lemma pkt_good_size: "pkt_good g ls e p pl \<Longrightarrow> unat (pkt_size p) = length pl \<and> length pl \<le> kfootsize"
  unfolding pkt_good_def by blast

lemma inv_tx_push:
  assumes inv: "sys_inv su src s" and step: "tx_push su w s = Some (Inr t)"
  shows "sys_inv su src t"
proof -
  from step obtain d where at: "int w < worker_count (txc s)" "wpcs s w = Wpush d"
    by (auto simp: tx_push_def t_at_def split: if_splits wpc.splits)
  note w = cfg_slots [OF sys_invD(1) [OF inv] at(1)]
  let ?t = "worker (txc s) w" and ?g = "su_g su"
  let ?f = "\<lambda>t. t\<lparr>tw_writeremainder := uint (pkt_size (tw_pkt t)), tw_buffer := push_buffer ?g t, tw_state := CHR ''P''\<rparr>"
  have good: "tx_good ?g (legs s) (ended s) ?t (Wpush d)" using tx_goodD [OF inv at(1)] at by simp
  then have pg: "tw_state ?t = CHR ''d''" "pkt_good ?g (legs s) (ended s) (tw_pkt ?t)
      (take (unat (pkt_size (tw_pkt ?t))) (push_buffer ?g ?t))" by (auto simp: tx_good_def)
  then have sz: "unat (pkt_size (tw_pkt ?t)) \<le> kfootsize" by (auto dest: pkt_good_size)
  from step at w(1) sz have t: "t = wgo w (Wwrite d) s (upd_worker ?f w (txc s))"
    by (auto simp: tx_push_def t_at_def res_iff txpush_begin_eq)
  show ?thesis
    unfolding t
    by (rule tx_keeps [OF inv at(1) one_worker_upd])
       (use good pg not_served [OF inv] online_reply [OF inv at(1)] at w in \<open>auto simp: tx_good_def tx_holds_def\<close>)
qed

lemma inv_tx_fin:
  assumes inv: "sys_inv su src s" and step: "tx_fin w s = Some (Inr t)"
  shows "sys_inv su src t"
proof -
  from step obtain d where at: "int w < worker_count (txc s)" "wpcs s w = Wfin d"
    by (auto simp: tx_fin_def t_at_def split: if_splits wpc.splits)
  note w = cfg_slots [OF sys_invD(1) [OF inv] at(1)]
  let ?f = "\<lambda>t. t\<lparr>tw_pkt := (tw_pkt t)\<lparr>pkt_size := 0\<rparr>, tw_state := CHR ''i''\<rparr>"
  have good: "tx_good (su_g su) (legs s) (ended s) (worker (txc s) w) (Wfin d)"
    using tx_goodD [OF inv at(1)] at by simp
  then have "tw_writeremainder (worker (txc s) w) = 0" by (simp add: tx_good_def)
  with step at w(1) have t: "t = wgo w (if d then Wexit else Wloop) s (upd_worker ?f w (txc s))"
    by (auto simp: tx_fin_def t_at_def res_iff txpush_finish_eq)
  show ?thesis
    unfolding t
    by (rule tx_keeps [OF inv at(1) one_worker_upd])
       (use good not_served [OF inv] online_reply [OF inv at(1)] at w in \<open>auto simp: tx_good_def tx_holds_def\<close>)
qed

lemma ch_holds_Nil [simp]: "ch_holds [] = {#}"
  by (simp add: ch_holds_def)

lemma ch_good_Nil [simp]: "ch_good g ls e []"
  by (simp add: ch_good_def)

lemma ch_snoc:
  assumes "ch_good g ls e bs" "pkt_good g ls e p pl"
  shows "ch_good g ls e (bs @ frame_bytes (p, pl))"
    and "ch_holds (bs @ frame_bytes (p, pl)) = ch_holds bs + {#unat (leg_id p)#}"
    and "ch_list (bs @ frame_bytes (p, pl)) = ch_list bs @ [unat (leg_id p)]"
proof -
  have wf: "wf_frame (p, pl)" using assms(2) by (simp add: wf_frame_def pkt_good_def)
  have "whole bs" using assms(1) by (simp add: ch_good_def)
  from whole_snoc [OF this wf] assms show "ch_good g ls e (bs @ frame_bytes (p, pl))"
    and "ch_holds (bs @ frame_bytes (p, pl)) = ch_holds bs + {#unat (leg_id p)#}"
    and "ch_list (bs @ frame_bytes (p, pl)) = ch_list bs @ [unat (leg_id p)]"
    by (auto simp: ch_good_def ch_holds_def ch_list_def)
qed

text \<open>Appending to a connection does not disturb who reads it.\<close>

lemma rx_inv_append:
  assumes "rx_inv g ls e ch nxt rp bufs"
  shows "rx_inv g ls e (ch(w := ch w @ bs)) nxt rp bufs"
  unfolding rx_inv_def
proof
  fix r
  show "rx_good g ls e (ch(w := ch w @ bs)) nxt (rp r) (bufs r)"
    using assms by (cases "rp r") (auto simp: rx_inv_def rx_good_def dest!: spec [of _ r])
qed

lemma inv_tx_write:
  assumes inv: "sys_inv su src s" and step: "tx_write w s = Some (Inr t)"
  shows "sys_inv su src t"
proof -
  note i = sys_invD [OF inv]
  from step obtain d where at: "int w < worker_count (txc s)" "wpcs s w = Wwrite d"
    by (auto simp: tx_write_def t_at_def split: if_splits wpc.splits)
  note w = cfg_slots [OF i(1) at(1)]
  let ?t = "worker (txc s) w" and ?g = "su_g su" and ?n = "nat (worker_count (txc s))"
  let ?p = "tw_pkt ?t" and ?f = "\<lambda>t. t\<lparr>tw_writeremainder := 0\<rparr>" and ?k = "cut (owner s) (rpcs s) w"
  let ?pl = "take (unat (pkt_size ?p)) (tw_buffer ?t)" and ?c = "upd_worker (\<lambda>t. t\<lparr>tw_writeremainder := 0\<rparr>) w (txc s)"
  have good: "tx_good ?g (legs s) (ended s) ?t (Wwrite d)" using tx_goodD [OF inv at(1)] at by simp
  then have pg: "pkt_good ?g (legs s) (ended s) ?p ?pl" and st: "tw_state ?t = CHR ''P''"
    and rem: "tw_writeremainder ?t = uint (pkt_size ?p)" by (auto simp: tx_good_def)
  have wire: "txpush_wire ?t = frame_bytes (?p, ?pl)" by (simp add: txpush_wire_def frame_bytes_def)
  have len: "tw_writeremainder ?t + int sizeof_millipacket = int (length (txpush_wire ?t))"
    using pkt_good_size [OF pg] rem by (simp add: wire frame_bytes_def)
  from step at w(1) txpush_written_eq [OF w(1) len]
  have t: "t = (wgo w (Wfin d) s ?c)\<lparr>chan := (chan s)(w := chan s w @ frame_bytes (?p, ?pl))\<rparr>"
    by (auto simp: tx_write_def t_at_def res_iff Let_def wire)
  have ow: "one_worker w (?f ?t) (txc s) ?c" by (rule one_worker_upd) (use w in auto)
  have tg: "tx_good ?g (legs s) (ended s) (?f ?t) (Wfin d)"
    using good st by (simp add: tx_good_def)
  have "tx_part ?c ((wpcs s)(w := Wfin d)) + {#unat (leg_id ?p)#} = tx_part (txc s) (wpcs s)"
    using one_worker_part [OF ow at(1), of "wpcs s" "Wfin d"] at st by (simp add: tx_holds_def)
  moreover have cw: "?k \<le> length (chan s w)" "ch_good ?g (legs s) (ended s) (drop ?k (chan s w))"
    using i(6) at by (auto simp: chan_inv_def)
  have "ch_part ?n ((chan s)(w := chan s w @ frame_bytes (?p, ?pl))) (owner s) (rpcs s) =
      ch_part ?n (chan s) (owner s) (rpcs s) + {#unat (leg_id ?p)#}"
  proof -
    have "ch_part ?n ((chan s)(w := chan s w @ frame_bytes (?p, ?pl))) (owner s) (rpcs s) +
        ch_holds (drop ?k (chan s w)) = ch_part ?n (chan s) (owner s) (rpcs s) +
        ch_holds (drop ?k (chan s w @ frame_bytes (?p, ?pl)))"
      unfolding ch_part_def using at by (subst sum_change_at [where i = w]) auto
    with ch_snoc(2) [OF cw(2) pg] cw(1) show ?thesis by simp
  qed
  ultimately have fl: "in_flight t = in_flight s"
    by (simp add: t in_flight_def)
  have ci: "chan_inv ?g (legs s) (ended s) ?n ((chan s)(w := chan s w @ frame_bytes (?p, ?pl))) (owner s) (rpcs s)"
    using i(6) ch_snoc(1) [OF cw(2) pg] cw(1) by (auto simp: chan_inv_def)
  have "conn_inv su ?n ((wpcs s)(w := Wfin d)) (hello s) (reply s) (backlog s) (owner s) (rpcs s)"
    using i(5) by (auto simp: conn_inv_def)
  moreover have "source_inv ?g src (inp s) ?c (ipcs s) (legs s)"
    by (rule one_worker_source [OF ow at(1) i(2)]) simp
  moreover have "ingest_inv (ig s) ?c (ipcs s) ((wpcs s)(w := Wfin d)) (legs s)"
    using not_served [OF inv, of w] at by (intro one_worker_ingest [OF ow at(1) i(3)]) auto
  moreover have "ended t = ended s" by (simp add: t ended_def)
  moreover have "order_inv ?n ?c ((wpcs s)(w := Wfin d)) ((chan s)(w := chan s w @ frame_bytes (?p, ?pl))) (owner s) (rpcs s)"
    using i(13) at st cw(1) ow ch_snoc(3) [OF cw(2) pg]
    by (auto simp: order_inv_def conn_legs_def one_worker_def tx_list_def)
  moreover have "serve_inv ?n ((wpcs s)(w := Wfin d)) (reply s) ((chan s)(w := chan s w @ frame_bytes (?p, ?pl)))
      (owner s) (rpcs s) (done_mbox (rxc s))"
    using i(14) online_reply [OF inv at(1)] at by (simp add: serve_inv_def)
  ultimately show ?thesis
    unfolding sys_inv_def
    using i(8-12) fl ci rx_inv_append [OF i(7)] one_worker_cfg [OF ow at(1) i(1)]
      one_worker_good [OF ow at(1) i(4) tg]
    by (simp add: t)
qed

section \<open>Steps of the ingest thread\<close>

text \<open>Moving between points where no leg is being loaded.\<close>

lemma ipc_keeps:
  assumes inv: "sys_inv su src s"
    and from_pc: "\<And>w n. ipcs s \<noteq> Iload w n" "\<And>w. ipcs s \<noteq> Isend w"
    and to_pc: "\<And>w n. pc \<noteq> Iload w n" "\<And>w. pc \<noteq> Isend w" "tx_done (txc s) \<longrightarrow> pc = Itop \<or> pc = Iend"
    and srv: "\<And>w. serves pc = Some w \<Longrightarrow> int w < worker_count (txc s) \<and> tx_state (txc s) w = CHR ''i'' \<and>
      (wpcs s w = Wloop \<or> wpcs s w = Wexit)"
  shows "sys_inv su src (s\<lparr>ipcs := pc\<rparr>)"
proof -
  note i = sys_invD [OF inv]
  have "ended (s\<lparr>ipcs := pc\<rparr>) = ended s" using from_pc to_pc by (simp add: ended_def)
  moreover have "source_inv (su_g su) src (inp s) (txc s) pc (legs s)"
    using i(2) from_pc to_pc by (cases pc; cases "ipcs s") (auto simp: source_inv_def)
  moreover have "ingest_inv (ig s) (txc s) pc (wpcs s) (legs s)"
    using i(3) to_pc srv by (auto simp: ingest_inv_def)
  moreover have "in_flight (s\<lparr>ipcs := pc\<rparr>) = in_flight s" by (simp add: in_flight_def)
  ultimately show ?thesis using i by (simp add: sys_inv_def)
qed

lemma inv_ingest_top:
  assumes "sys_inv su src s" "ingest_top s = Some (Inr t)"
  shows "sys_inv su src t"
  using assms(2)
  by (auto simp: ingest_top_def serves_def split: if_splits intro!: ipc_keeps [OF assms(1)])

lemma idle_ready:
  assumes "sys_inv su src s" "int w < worker_count (txc s)" "tx_state (txc s) w = CHR ''i''" "wpcs s w \<noteq> Wwindow"
  shows "wpcs s w = Wloop \<or> wpcs s w = Wexit"
  using tx_goodD [OF assms(1,2)] assms(3,4) by (cases "wpcs s w") (auto simp: tx_good_def tx_state_def)

lemma sys_inv_waits:
  assumes inv: "sys_inv su src s"
  shows "sys_inv su src (s\<lparr>txc := (txc s)\<lparr>waits := x\<rparr>\<rparr>)"
proof -
  note i = sys_invD [OF inv]
  let ?c = "(txc s)\<lparr>waits := x\<rparr>"
  have "in_flight (s\<lparr>txc := ?c\<rparr>) = in_flight s" by (simp add: in_flight_def tx_part_def)
  moreover have "cfg_inv ?c (rxc s) (legs s)" using i(1) by (simp add: cfg_inv_def wf_txconf_def)
  moreover have "source_inv (su_g su) src (inp s) ?c (ipcs s) (legs s)"
    using i(2) by (cases "ipcs s") (simp_all add: source_inv_def)
  moreover have "ingest_inv (ig s) ?c (ipcs s) (wpcs s) (legs s)"
    using i(3) by (simp add: ingest_inv_def tx_state_def)
  moreover have "tx_inv (su_g su) (legs s) (ended s) ?c (wpcs s)" using i(4) by (simp add: tx_inv_def)
  moreover have "ended (s\<lparr>txc := ?c\<rparr>) = ended s" by (simp add: ended_def)
  moreover have "order_inv (nat (worker_count (txc s))) ?c (wpcs s) (chan s) (owner s) (rpcs s)"
    by (rule order_cong [OF _ i(13)]) simp
  ultimately show ?thesis using i(5-12) i(14) by (simp add: sys_inv_def)
qed

lemma inv_ingest_scan:
  assumes inv: "sys_inv su src s" and step: "ingest_scan s = Some (Inr t)" and cm: "calm s IngestScan"
  shows "sys_inv su src t"
proof -
  from step obtain k where k: "ipcs s = Iscan k" by (auto simp: ingest_scan_def split: ipc.splits)
  have nd: "\<not> tx_done (txc s)" using sys_invD(3) [OF inv] k by (auto simp: ingest_inv_def)
  have cw: "wpcs s k \<noteq> Wwindow" using cm k by (simp add: calm_def)
  consider (pick) "int k < worker_count (txc s)" "tx_state (txc s) k = CHR ''i''" "t = s\<lparr>ipcs := Ifill k\<rparr>"
    | (skip) "t = s\<lparr>ipcs := Iscan (Suc k)\<rparr>"
    | (wait) "t = (s\<lparr>txc := (txc s)\<lparr>waits := waits (txc s) + 1\<rparr>\<rparr>)\<lparr>ipcs := Iscan 0\<rparr>"
    using step k by (auto simp: ingest_scan_def res_iff split: if_splits)
  then show ?thesis
  proof cases
    case pick
    from idle_ready [OF inv pick(1,2) cw] pick show ?thesis
      using k nd by (auto simp: serves_def intro!: ipc_keeps [OF inv])
  next
    case skip
    then show ?thesis using k nd by (auto simp: serves_def intro!: ipc_keeps [OF inv])
  next
    case wait
    show ?thesis unfolding wait
      by (rule ipc_keeps [OF sys_inv_waits [OF inv]]) (use k nd in \<open>auto simp: serves_def\<close>)
  qed
qed

lemma ingest_fill_takes:
  assumes "fd_steady evs" "length (tw_buffer (worker c w)) = kfootsize" "gprbs_seed g = 0"
    and "ingest_fill g fd_read evs w c = Inr (evs', c', n)"
  obtains bs where "c' = upd_worker (\<lambda>t. t\<lparr>tw_buffer := bs @ drop (length bs) (tw_buffer (worker c w))\<rparr>) w c"
    "n = length bs" "length bs \<le> kfootsize" "fd_steady evs'" "fd_avail evs = bs @ fd_avail evs'"
    "bs = [] \<longrightarrow> fd_avail evs = []"
  using steady.bufferfill_takes [OF assms(1) kfootsize_pos, of "tw_buffer (worker c w)" "gcharmode g"] assms(2-)
  by (fastforce simp: ingest_fill_def)

lemma inv_ingest_read:
  assumes inv: "sys_inv su src s" and step: "ingest_read su s = Some (Inr t)"
  shows "sys_inv su src t"
proof -
  note i = sys_invD [OF inv]
  from step obtain w evs c' n where w: "ipcs s = Ifill w"
    and f: "ingest_fill (su_g su) fd_read (inp s) w (txc s) = Inr (evs, c', n)"
    and t: "t = s\<lparr>txc := c', ipcs := Iload w n, inp := evs\<rparr>"
    by (auto simp: ingest_read_def res_iff split: ipc.splits)
  have at: "int w < worker_count (txc s)" "tx_state (txc s) w = CHR ''i''" "wpcs s w = Wloop \<or> wpcs s w = Wexit"
    and nd: "\<not> tx_done (txc s)"
    using i(3) w by (auto simp: ingest_inv_def serves_def)
  note good = tx_goodD [OF inv at(1)]
  note sl = cfg_slots [OF i(1) at(1)]
  have st: "tw_state (worker (txc s) w) = CHR ''i''" using at(2) by (simp add: tx_state_def)
  have src: "gprbs_seed (su_g su) = 0 \<Longrightarrow> concat (legs s) @ fd_avail (inp s) = src" "fd_steady (inp s)"
    using i(2) w nd by (auto simp: source_inv_def)
  have "\<exists>t'. one_worker w t' (txc s) c' \<and> tw_state t' = CHR ''i'' \<and> tw_pkt t' = tw_pkt (worker (txc s) w) \<and>
      length (tw_buffer t') = kfootsize \<and> tw_writeremainder t' = tw_writeremainder (worker (txc s) w) \<and>
      source_inv (su_g su) src evs c' (Iload w n) (legs s)"
  proof (cases "gprbs_seed (su_g su) = 0")
    case True
    have "length (tw_buffer (worker (txc s) w)) = kfootsize" using good by (simp add: tx_good_def)
    from ingest_fill_takes [OF src(2) this True f] obtain bs where
      c': "c' = upd_worker (\<lambda>t. t\<lparr>tw_buffer := bs @ drop (length bs) (tw_buffer (worker (txc s) w))\<rparr>) w (txc s)"
      and bs: "n = length bs" "length bs \<le> kfootsize" "fd_steady evs" "fd_avail (inp s) = bs @ fd_avail evs"
        "bs = [] \<longrightarrow> fd_avail (inp s) = []" by blast
    show ?thesis
      unfolding c'
      by (rule exI, rule conjI [OF one_worker_upd])
         (use sl st good bs src True in \<open>auto simp: tx_good_def source_inv_def\<close>)
  next
    case False
    then have "c' = txc s" "evs = inp s" "n = kfootsize" using f by (auto simp: ingest_fill_def word_gt_0)
    with False st good src(2) show ?thesis
      by (intro exI [of _ "worker (txc s) w"]) (auto simp: one_worker_refl tx_good_def source_inv_def)
  qed
  then obtain t' where ow: "one_worker w t' (txc s) c'" and t': "tw_state t' = CHR ''i''"
    "tw_pkt t' = tw_pkt (worker (txc s) w)" "length (tw_buffer t') = kfootsize"
    "tw_writeremainder t' = tw_writeremainder (worker (txc s) w)"
    and so: "source_inv (su_g su) src evs c' (Iload w n) (legs s)" by blast
  have tg: "tx_good (su_g su) (legs s) (ended s) t' (wpcs s w)"
    using good st t' at(3) by (auto simp: tx_good_def)
  have same: "worker_count c' = worker_count (txc s)" "\<not> tx_done c'" using ow nd by (auto simp: one_worker_def)
  have "tx_part c' (wpcs s) = tx_part (txc s) (wpcs s)"
    using one_worker_part [OF ow at(1), of "wpcs s" "wpcs s w"] st t' at(3) by (auto simp: tx_holds_def)
  then have "in_flight t = in_flight s" by (simp add: t in_flight_def same)
  moreover have "ended t = ended s" using nd same by (simp add: t ended_def)
  moreover have "ingest_inv (ig s) c' (Iload w n) (wpcs s) (legs s)"
    using i(3) ow nd at t' by (auto simp: ingest_inv_def one_worker_def serves_def tx_state_def)
  moreover have "tx_inv (su_g su) (legs s) (ended s) c' (wpcs s)"
    using one_worker_good [OF ow at(1) i(4) tg] by simp
  moreover have "order_inv (nat (worker_count (txc s))) c' (wpcs s) (chan s) (owner s) (rpcs s)"
    using ow st t' by (intro order_cong [OF _ i(13)]) (auto simp: one_worker_def tx_list_def)
  ultimately show ?thesis
    using i(5-12) i(14) so one_worker_cfg [OF ow at(1) i(1)] by (simp add: sys_inv_def t same)
qed

lemma pkt_good_grow: "pkt_good g ls False p pl \<Longrightarrow> pkt_good g (ls @ [x]) e p pl"
  by (auto simp: pkt_good_def nth_append)

lemma tx_good_grow:
  "tx_good g ls False t pc \<Longrightarrow> tx_good g (ls @ [x]) e t pc"
  by (cases pc) (auto simp: tx_good_def intro: pkt_good_grow)

lemma rx_good_grow:
  "rx_good g ls False ch nxt pc buf \<Longrightarrow> rx_good g (ls @ [x]) e ch nxt pc buf"
  by (cases pc) (auto simp: rx_good_def intro: pkt_good_grow)

lemma in_turn_pkt:
  assumes "in_turn pc" obtains p where "rx_pkt pc = Some p"
  using assms by (cases pc) auto

lemma turn_leg:
  assumes "rx_inv g ls e ch nxt rp bufs" "in_turn (rp r)"
  shows "unat nxt < length ls"
proof -
  from assms have rg: "rx_good g ls e ch nxt (rp r) (bufs r)" by (simp add: rx_inv_def)
  from in_turn_pkt [OF assms(2)] obtain p where p: "rx_pkt (rp r) = Some p" .
  with rg assms(2) have "pkt_good g ls e p (take (unat (pkt_size p)) (bufs r))" "leg_id p = nxt"
    by (cases "rp r"; simp add: rx_good_def)+
  then show ?thesis by (auto simp: pkt_good_def)
qed

text \<open>All legs of a connection are numbered below the next leg.\<close>

lemma conn_legs_bound:
  assumes inv: "sys_inv su src s" and c: "c < nat (worker_count (txc s))"
    and x: "x \<in> set (conn_legs (txc s) (wpcs s) (chan s) (owner s) (rpcs s) c)"
  shows "x < length (legs s)"
proof -
  note i = sys_invD [OF inv]
  have "tx_good (su_g su) (legs s) (ended s) (worker (txc s) c) (wpcs s c)"
    using i(4) c by (simp add: tx_inv_def)
  then have "x < length (legs s)" if "x \<in> set (tx_list (worker (txc s) c) (wpcs s c))"
    using that by (cases "wpcs s c") (auto simp: tx_list_def tx_good_def pkt_good_def split: if_splits)
  moreover have "x < length (legs s)" if "x \<in> set (ch_list (drop (cut (owner s) (rpcs s) c) (chan s c)))"
    using that i(6) c by (auto simp: ch_list_def chan_inv_def ch_good_def pkt_good_def)
  moreover have "x < length (legs s)" if "owner s c = Some r" and l: "x \<in> set (rx_list c (rpcs s r))" for r
  proof -
    have "rx_good (su_g su) (legs s) (ended s) (chan s) (next_leg (rxc s)) (rpcs s r) (rbuf s r)"
      using i(7) by (simp add: rx_inv_def)
    moreover from rx_list_mem [OF l] obtain p where "rx_pkt (rpcs s r) = Some p" "x = unat (leg_id p)" by blast
    ultimately show ?thesis by (cases "rpcs s r") (auto simp: rx_good_def pkt_good_def)
  qed
  ultimately show ?thesis using x by (cases "owner s c") (auto simp: conn_legs_def)
qed

lemma order_grow:
  assumes inv: "sys_inv su src s" and ow: "one_worker w t' (txc s) c'"
    and old: "tx_list (worker (txc s) w) (wpcs s w) = []" and st: "tw_state t' = CHR ''d''"
    and id: "unat (leg_id (tw_pkt t')) = length (legs s)"
  shows "order_inv (nat (worker_count (txc s))) c' (wpcs s) (chan s) (owner s) (rpcs s)"
  unfolding order_inv_def
proof (intro allI impI)
  fix c
  assume c: "c < nat (worker_count (txc s))"
  let ?L = "conn_legs (txc s) (wpcs s) (chan s) (owner s) (rpcs s) c"
  have srt: "sorted_wrt (<) ?L" using sys_invD(13) [OF inv] c by (simp add: order_inv_def)
  show "sorted_wrt (<) (conn_legs c' (wpcs s) (chan s) (owner s) (rpcs s) c)"
  proof (cases "c = w")
    case True
    have "conn_legs c' (wpcs s) (chan s) (owner s) (rpcs s) c = ?L @ [length (legs s)]"
      using True ow old st id by (simp add: conn_legs_def one_worker_def tx_list_def)
    then show ?thesis using srt conn_legs_bound [OF inv c] by (simp add: sorted_wrt_append)
  next
    case False
    then show ?thesis using srt ow by (simp add: conn_legs_def one_worker_def)
  qed
qed

lemma grow_legs:
  assumes inv: "sys_inv su src s" and ne: "\<not> ended s" and w: "int w < worker_count (txc s)"
    and idle: "tx_state (txc s) w = CHR ''i''" "wpcs s w = Wloop \<or> wpcs s w = Wexit"
    and ow: "one_worker w t' (txc s) c'"
    and good: "tx_good (su_g su) (legs s @ [x]) e t' (wpcs s w)"
    and t': "tw_state t' = CHR ''d''" "leg_id (tw_pkt t') = of_nat (length (legs s))"
    and len: "Suc (length (legs s)) < 2 ^ 64"
    and u: "txc u = c'" "wpcs u = wpcs s" "hello u = hello s" "reply u = reply s" "backlog u = backlog s"
      "owner u = owner s" "chan u = chan s" "rxc u = rxc s" "rpcs u = rpcs s" "rbuf u = rbuf s"
      "rxg u = rxg s" "out u = out s" "legs u = legs s @ [x]" "ended u = e"
    and so: "source_inv (su_g su) src (inp u) c' (ipcs u) (legs u)"
    and ing: "ingest_inv (ig u) c' (ipcs u) (wpcs s) (legs u)"
    and pr: "prbs_inv (su_g su) (legs s @ [x]) e"
  shows "sys_inv su src u"
proof -
  note i = sys_invD [OF inv]
  let ?g = "su_g su" and ?ls = "legs s @ [x]"
  have wc: "worker_count c' = worker_count (txc s)" using ow by (simp add: one_worker_def)
  have "tx_inv ?g ?ls e (txc s) (wpcs s)"
    using i(4) ne by (auto simp: tx_inv_def intro: tx_good_grow)
  from one_worker_good [OF ow w this good] have tg: "tx_inv ?g ?ls e c' (wpcs s)" by simp
  have cg: "cfg_inv c' (rxc s) ?ls"
    using one_worker_cfg [OF ow w i(1)] len by (auto simp: cfg_inv_def)
  have chg: "chan_inv ?g ?ls e (nat (worker_count c')) (chan s) (owner s) (rpcs s)"
    using i(6) ne by (auto simp: chan_inv_def ch_good_def wc intro: pkt_good_grow)
  have rg: "rx_inv ?g ?ls e (chan s) (next_leg (rxc s)) (rpcs s) (rbuf s)"
    using i(7) ne by (auto simp: rx_inv_def intro: rx_good_grow)
  have id: "unat (leg_id (tw_pkt t')) = length (legs s)" using t'(2) len by (simp add: unat_of_nat_u64)
  have "tx_holds (worker (txc s) w) (wpcs s w) = {#}" "tx_holds t' (wpcs s w) = {#length (legs s)#}"
    using idle t' id by (auto simp: tx_holds_def tx_state_def)
  then have tp: "tx_part c' (wpcs s) = tx_part (txc s) (wpcs s) + {#length (legs s)#}"
    using one_worker_part [OF ow w, of "wpcs s" "wpcs s w"] by simp
  have le: "unat (next_leg (rxc s)) \<le> length (legs s)" using i(1) by (simp add: cfg_inv_def)
  have fl: "in_flight u = mset_set {unat (next_leg (rxc s))..<length ?ls}"
    using i(8) le by (simp add: in_flight_def u tp wc atLeastLessThanSuc)
  have "(\<exists>r<kthreadmax. has_written (rpcs s r)) \<Longrightarrow> unat (next_leg (rxc s)) < length (legs s)"
    using turn_leg [OF i(7)] has_written_turn by blast
  with i(9) le have og: "out_inv (next_leg (rxc s)) (rpcs s) ?ls (out s)"
    by (auto simp: out_inv_def Suc_le_eq)
  have "unat (next_leg (rxc s)) < length (legs s)" if "is_Rnext (rpcs s r)" for r
    using turn_leg [OF i(7)] has_written_turn is_Rnext_written that by blast
  then have dg: "done_inv (rxc s) (rpcs s) ?ls e" using i(10) ne le by (fastforce simp: done_inv_def)
  have sv: "serve_inv (nat (worker_count c')) (wpcs s) (reply s) (chan s) (owner s) (rpcs s) (done_mbox (rxc s))"
    using i(14) by (simp add: wc)
  have od: "order_inv (nat (worker_count c')) c' (wpcs s) (chan s) (owner s) (rpcs s)"
    using order_grow [OF inv ow _ t'(1) id] idle by (auto simp: wc tx_list_def tx_state_def)
  show ?thesis
    unfolding sys_inv_def u
    using cg so ing tg i(5) chg rg fl og dg i(11) pr od sv by (simp add: u wc)
qed

lemma ingest_feed_cases:
  assumes w: "w < length (tx_workers c)" and f: "ingest_feed g w n c i = Some (Inr (c', i'))"
  obtains sum where
    "one_worker w ((worker c w)\<lparr>tw_pkt := (tw_pkt (worker c w))\<lparr>pkt_size := of_nat n, leg_id := ingest_leg_counter i,
       opcode := feed_more, checksum := sum\<rparr>, tw_state := CHR ''d''\<rparr>) c c'"
    "ingest_leg_counter i' = ingest_leg_counter i + 1" "\<not> gchecksums g \<Longrightarrow> sum = 0"
    "tx_done c' = tx_done c" "feed_checksum g i (tw_buffer (worker c w)) n = Some sum"
proof -
  from f obtain sum where sum: "feed_checksum g i (tw_buffer (worker c w)) n = Some sum"
    and r: "c' = (tx_state_set w (CHR ''d'') (upd_worker (\<lambda>t. t\<lparr>tw_pkt := (tw_pkt t)\<lparr>pkt_size := of_nat n,
         leg_id := ingest_leg_counter i, opcode := feed_more, checksum := sum\<rparr>\<rparr>) w c))\<lparr>stream_total_bytes :=
         stream_total_bytes c + of_nat n\<rparr>"
      "ingest_leg_counter i' = ingest_leg_counter i + 1"
    by (auto simp: ingest_feed_def start_worker_def Let_def res_iff tx_state_set_def)
  show thesis
    by (rule that [of sum]) (use sum r w in \<open>auto simp: one_worker_def tx_state_set_def feed_checksum_def\<close>)
qed

lemma prbs_gen_foot:
  "length buf = kfootsize \<Longrightarrow> prbs_gen buf p kfootsize = prbs_bytes p 0 (kfootsize div 8)"
proof -
  assume "length buf = kfootsize"
  moreover have "8 * (kfootsize div 8) = kfootsize" by (simp add: kfootsize_def)
  ultimately show ?thesis by (simp add: prbs_gen_eq)
qed

lemma inv_load_leg:
  assumes inv: "sys_inv su src s" and step: "load_leg su w n s = Some (Inr t)"
    and pc: "ipcs s = Iload w n" "ingest_feeds (su_g su) (ig s) n" and cm: "length (legs s) < 2 ^ 64 - 1"
  shows "sys_inv su src t"
proof -
  note i = sys_invD [OF inv]
  let ?g = "su_g su" and ?t = "worker (txc s) w"
  have at: "int w < worker_count (txc s)" "tx_state (txc s) w = CHR ''i''" "wpcs s w = Wloop \<or> wpcs s w = Wexit"
    and nd: "\<not> tx_done (txc s)" and cnt: "ingest_leg_counter (ig s) = of_nat (length (legs s))"
    using i(3) pc by (auto simp: ingest_inv_def serves_def)
  note sl = cfg_slots [OF i(1) at(1)]
  from step obtain c' i' where f: "ingest_feed ?g w n (txc s) (ig s) = Some (Inr (c', i'))"
    and t: "t = s\<lparr>txc := c', ipcs := Itop, ig := i', legs := legs s @ [take n (push_buffer ?g (worker c' w))]\<rparr>"
    by (auto simp: load_leg_def res_iff split: option.splits)
  from ingest_feed_cases [OF sl(1) f] obtain sum where
    ow: "one_worker w (?t\<lparr>tw_pkt := (tw_pkt ?t)\<lparr>pkt_size := of_nat n, leg_id := ingest_leg_counter (ig s),
       opcode := feed_more, checksum := sum\<rparr>, tw_state := CHR ''d''\<rparr>) (txc s) c'" (is "one_worker w ?u _ _")
    and i': "ingest_leg_counter i' = ingest_leg_counter (ig s) + 1" and sum: "\<not> gchecksums ?g \<Longrightarrow> sum = 0"
    and nd': "tx_done c' = tx_done (txc s)" by blast
  have wk: "worker c' w = ?u" using ow by (simp add: one_worker_def)
  let ?pl = "take n (push_buffer ?g ?u)"
  have n: "n \<le> kfootsize" using i(2) pc by (cases "gprbs_seed ?g = 0") (auto simp: source_inv_def)
  have good: "tx_good ?g (legs s) False ?t (wpcs s w)" using tx_goodD [OF inv at(1)] nd by (simp add: ended_def)
  have len: "length (push_buffer ?g ?u) = kfootsize" using good by (simp add: tx_good_def)
  have un: "unat (of_nat n :: u64) = n" using n kfootsize_u64 by (intro unat_of_nat_u64) linarith
  have ul: "unat (of_nat (length (legs s)) :: u64) = length (legs s)" using cm by (intro unat_of_nat_u64) linarith
  have pg: "pkt_good ?g (legs s @ [?pl]) False (tw_pkt ?u) (take (unat (pkt_size (tw_pkt ?u))) (push_buffer ?g ?u))"
    using good at(3) n len sum by (auto simp: pkt_good_def tx_good_def un ul cnt)
  have tg: "tx_good ?g (legs s @ [?pl]) False ?u (wpcs s w)"
    using good at(3) pg by (auto simp: tx_good_def)
  have so: "source_inv ?g src (inp s) c' Itop (legs s @ [?pl])"
    using i(2) pc nd nd' by (auto simp: source_inv_def push_buffer_def)
  have pr: "prbs_inv ?g (legs s @ [?pl]) False"
  proof (cases "gprbs_seed ?g = 0")
    case False
    have n': "n = kfootsize" using i(2) pc False by (auto simp: source_inv_def)
    have "?pl = prbs_bytes (gprbs_seed ?g + of_nat (length (legs s))) 0 (kfootsize div 8)"
      using False good cnt by (simp add: n' push_buffer_def word_gt_0 prbs_gen_foot tx_good_def)
    moreover have "\<not> ended s" using nd by (simp add: ended_def)
    ultimately show ?thesis using i(12) by (auto simp: prbs_inv_def nth_append less_Suc_eq)
  qed (simp add: prbs_inv_def)
  have ing: "ingest_inv i' c' Itop (wpcs s) (legs s @ [?pl])"
    using i' cnt nd nd' by (simp add: ingest_inv_def serves_def)
  show ?thesis
    by (rule grow_legs [OF inv _ at ow tg]) (use nd nd' cm so ing wk cnt pr in \<open>simp_all add: t ended_def\<close>)
qed

lemma inv_ingest_load:
  assumes inv: "sys_inv su src s" and step: "ingest_load su s = Some (Inr t)" and cm: "length (legs s) < 2 ^ 64 - 1"
  shows "sys_inv su src t"
proof -
  note i = sys_invD [OF inv]
  from step obtain w n where pc: "ipcs s = Iload w n" by (auto simp: ingest_load_def split: ipc.splits)
  show ?thesis
  proof (cases "ingest_feeds (su_g su) (ig s) n")
    case True
    with step pc have "load_leg su w n s = Some (Inr t)" by (simp add: ingest_load_def)
    from inv_load_leg [OF inv this pc True cm] show ?thesis .
  next
    case False
    then have t: "t = s\<lparr>txc := txshutdown_mark (txc s), ipcs := Isend w\<rparr>"
      using step pc by (simp add: ingest_load_def)
    let ?c = "txshutdown_mark (txc s)"
    have wk: "worker ?c j = worker (txc s) j" for j by (simp add: txshutdown_mark_def)
    have fr: "worker_count ?c = worker_count (txc s)" "tx_done ?c" "target_port_count ?c = target_port_count (txc s)"
      "length (tx_workers ?c) = length (tx_workers (txc s))" by (simp_all add: txshutdown_mark_def)
    have nd: "\<not> tx_done (txc s)" using i(3) pc by (auto simp: ingest_inv_def)
    have "gleg_limit (su_g su) > 0 \<or> n = 0" using False by (auto simp: ingest_feeds_def leg_limit_reached_def)
    then have "source_inv (su_g su) src (inp s) ?c (Isend w) (legs s)"
      using i(2) pc by (auto simp: source_inv_def fr)
    moreover have "ingest_inv (ig s) ?c (Isend w) (wpcs s) (legs s)"
      using i(3) pc by (auto simp: ingest_inv_def fr serves_def tx_state_def wk)
    moreover have "cfg_inv ?c (rxc s) (legs s)" using i(1) by (simp add: cfg_inv_def wf_txconf_def fr wk)
    moreover have "ended t = ended s" using nd by (simp add: t ended_def)
    moreover have "in_flight t = in_flight s" by (simp add: t in_flight_def tx_part_def fr wk)
    moreover have "tx_inv (su_g su) (legs s) (ended s) ?c (wpcs s)" using i(4) by (simp add: tx_inv_def fr wk)
    moreover have "order_inv (nat (worker_count (txc s))) ?c (wpcs s) (chan s) (owner s) (rpcs s)"
      by (rule order_cong [OF _ i(13)]) (simp add: wk)
    ultimately show ?thesis using i(5-12) i(14) by (simp add: sys_inv_def t fr)
  qed
qed

lemma inv_ingest_send:
  assumes inv: "sys_inv su src s" and step: "ingest_send s = Some (Inr t)" and cm: "length (legs s) < 2 ^ 64 - 1"
  shows "sys_inv su src t"
proof -
  note i = sys_invD [OF inv]
  from step obtain w where pc: "ipcs s = Isend w" by (auto simp: ingest_send_def split: ipc.splits)
  let ?g = "su_g su" and ?t = "worker (txc s) w"
  have at: "int w < worker_count (txc s)" "tx_state (txc s) w = CHR ''i''" "wpcs s w = Wloop \<or> wpcs s w = Wexit"
    and cnt: "ingest_leg_counter (ig s) = of_nat (length (legs s))" and dn: "tx_done (txc s)"
    using i(3) pc by (auto simp: ingest_inv_def serves_def)
  note sl = cfg_slots [OF i(1) at(1)]
  let ?f = "\<lambda>t. t\<lparr>tw_pkt := (tw_pkt t)\<lparr>pkt_size := 0, leg_id := ingest_leg_counter (ig s),
    opcode := end_of_millipede\<rparr>, tw_state := CHR ''d''\<rparr>"
  let ?c = "upd_worker ?f w (txc s)"
  have t: "t = s\<lparr>txc := ?c, ipcs := Itop, ig := (ig s)\<lparr>ingest_leg_counter := ingest_leg_counter (ig s) + 1\<rparr>,
      legs := legs s @ [[]]\<rparr>"
    using step pc sl by (auto simp: ingest_send_def txshutdown_send_def start_worker_def res_iff tx_state_set_def
        upd_worker_upd_worker)
  have ow: "one_worker w (?f ?t) (txc s) ?c" by (rule one_worker_upd) (use sl in auto)
  have ul: "unat (of_nat (length (legs s)) :: u64) = length (legs s)" using cm by (intro unat_of_nat_u64) linarith
  have good: "tx_good ?g (legs s) False ?t (wpcs s w)" using tx_goodD [OF inv at(1)] pc by (simp add: ended_def)
  then have tg: "tx_good ?g (legs s @ [[]]) True (?f ?t) (wpcs s w)"
    using at(3) by (auto simp: tx_good_def pkt_good_def cnt ul)
  have so: "source_inv ?g src (inp s) ?c Itop (legs s @ [[]])"
    using i(2) pc by (auto simp: source_inv_def)
  have "\<not> ended s" using pc by (simp add: ended_def)
  then have pr: "prbs_inv ?g (legs s @ [[]]) True" using i(12) by (auto simp: prbs_inv_def nth_append)
  have ing: "ingest_inv ((ig s)\<lparr>ingest_leg_counter := ingest_leg_counter (ig s) + 1\<rparr>) ?c Itop (wpcs s) (legs s @ [[]])"
    using cnt by (simp add: ingest_inv_def serves_def)
  show ?thesis
    by (rule grow_legs [OF inv _ at ow tg]) (use pc dn cm so ing cnt pr in \<open>simp_all add: t ended_def\<close>)
qed

end
