(* ===== verification/Vm_Inv_Rx.thy ===== *)
theory Vm_Inv_Rx
  imports Vm_Inv_Tx
begin

text \<open>
  Every action of a receiving worker keeps the invariant; at most one worker is at its turn.
\<close>

section \<open>Steps of a receiving worker\<close>

definition rx_same :: "rxconf_s \<Rightarrow> rxconf_s \<Rightarrow> bool" where
  "rx_same c c' \<longleftrightarrow> length (rx_workers c') = length (rx_workers c) \<and> next_leg c' = next_leg c \<and>
     done_mbox c' = done_mbox c \<and> (\<forall>r. rw_id (rxw c' r) = rw_id (rxw c r))"

lemma rx_same_refl [simp]: "rx_same c c"
  by (simp add: rx_same_def)

lemma rx_same_upd:
  assumes "rx_same c c'" "\<And>t. rw_id (f t) = rw_id t"
  shows "rx_same c (upd_rxworker f r c')"
proof -
  have "rw_id (rxw (upd_rxworker f r c') j) = rw_id (rxw c' j)" for j
    using assms(2) by (cases "r < length (rx_workers c')")
      (simp_all add: rxw_def upd_rxworker_def nth_list_update list_update_beyond)
  with assms(1) show ?thesis by (simp add: rx_same_def)
qed

lemma rx_same_count: "rx_same c c' \<Longrightarrow> rx_same c (c'\<lparr>workercount := x\<rparr>)"
  "rx_same c c' \<Longrightarrow> rx_same c (c'\<lparr>output_fd := y\<rparr>)"
  by (simp_all add: rx_same_def rxw_def)

lemma rx_goodD: "sys_inv su src s \<Longrightarrow>
  rx_good (su_g su) (legs s) (ended s) (chan s) (next_leg (rxc s)) (rpcs s r) (rbuf s r)"
  using sys_invD(7) by (auto simp: rx_inv_def)

lemma rx_cfg: "cfg_inv tc c ls \<Longrightarrow> rx_same c c' \<Longrightarrow> cfg_inv tc c' ls"
  by (simp add: cfg_inv_def rx_same_def)

lemma rx_part_upd:
  "r < kthreadmax \<Longrightarrow> rx_part (rp(r := pc)) + rx_holds (rp r) = rx_part rp + rx_holds pc"
  unfolding rx_part_def by (subst sum_change_at [where i = r]) auto

lemma cut_keeps:
  "(\<And>c. own c = Some r \<Longrightarrow> body_left c pc = body_left c (rp r)) \<Longrightarrow> cut own (rp(r := pc)) = cut own rp"
  by (auto simp: cut_def fun_eq_iff split: option.splits)

lemma ex_upd:
  "r < n \<Longrightarrow> P pc = P (rp r) \<Longrightarrow> (\<exists>r' < n. P ((rp(r := pc)) r')) = (\<exists>r' < (n::nat). P (rp r'))"
  by (auto simp: fun_upd_apply)

lemma rx_list_keeps:
  assumes "rx_holds pc = rx_holds pc'" "rx_pkt pc \<noteq> None \<Longrightarrow> rx_conn pc = rx_conn pc'"
  shows "rx_list c pc = rx_list c pc'"
  using assms by (cases "rx_pkt pc"; cases "rx_pkt pc'") (auto simp: rx_holds_def rx_list_def)

lemma order_upd:
  assumes ord: "order_inv n tc wp ch own rp" and ct: "cut own (rp(r := pc)) = cut own rp"
    and eq: "\<And>c. own c = Some r \<Longrightarrow> rx_list c pc = rx_list c (rp r)"
  shows "order_inv n tc wp ch own (rp(r := pc))"
proof -
  have "conn_legs tc wp ch own (rp(r := pc)) c = conn_legs tc wp ch own rp c" for c
    using eq by (auto simp: conn_legs_def ct split: option.splits)
  with ord show ?thesis by (simp add: order_inv_def)
qed

lemma order_drop:
  assumes ord: "order_inv n tc wp ch own rp" and ct: "cut own (rp(r := pc)) = cut own rp" and none: "rx_pkt pc = None"
  shows "order_inv n tc wp ch own (rp(r := pc))"
  unfolding order_inv_def
proof (intro allI impI)
  fix c assume "c < n"
  with ord have "sorted_wrt (<) (conn_legs tc wp ch own rp c)" by (simp add: order_inv_def)
  then show "sorted_wrt (<) (conn_legs tc wp ch own (rp(r := pc)) c)"
    using none by (auto simp: conn_legs_def ct sorted_wrt_append split: option.splits)
qed

lemma serve_upd:
  assumes srv: "serve_inv n wp rep ch own rp dn" and mono: "dn \<Longrightarrow> dn'"
    and stay: "\<And>c. rx_conn (rp r) = Some c \<Longrightarrow> rp r \<noteq> Rhello c \<Longrightarrow> (rx_conn pc = Some c \<and> pc \<noteq> Rhello c) \<or> dn'"
  shows "serve_inv n wp rep ch own (rp(r := pc)) dn'"
  unfolding serve_inv_def
proof (intro allI impI conjI)
  fix c assume c: "c < n"
  show "if wp c = Wconn \<or> wp c = Wok then ch c = [] else rep c \<noteq> []" using srv c by (simp add: serve_inv_def)
  assume "rep c \<noteq> []"
  with srv c obtain q where q: "own c = Some q" "rx_conn (rp q) = Some c \<and> rp q \<noteq> Rhello c \<or> dn"
    by (auto simp: serve_inv_def)
  then show "\<exists>q. own c = Some q \<and> (rx_conn ((rp(r := pc)) q) = Some c \<and> (rp(r := pc)) q \<noteq> Rhello c \<or> dn')"
    using stay [of c] mono by (cases "q = r") auto
qed

text \<open>A step of worker \<open>r\<close> that keeps the leg it holds.\<close>

lemma rx_moves:
  assumes inv: "sys_inv su src s" and r: "r < kthreadmax"
    and cfg: "cfg_inv (txc s) c' (legs s)" "next_leg c' = next_leg (rxc s)"
    and holds: "rx_holds pc = rx_holds (rpcs s r)"
    and left: "\<And>c. body_left c pc = body_left c (rpcs s r)"
    and good: "rx_good (su_g su) (legs s) (ended s) (chan s) (next_leg (rxc s)) pc (rbuf s r)"
    and conn: "\<And>c. rx_conn pc = Some c \<Longrightarrow> owner s c = Some r"
    and relay: "\<And>p. rx_pkt pc = Some p \<Longrightarrow> leg_id p = 0 \<Longrightarrow> \<forall>c i n. pc \<noteq> Rbody c p i n \<Longrightarrow> ginitiator_oneshot (rxg s) > 0"
    and outp: "out_inv (next_leg (rxc s)) ((rpcs s)(r := pc)) (legs s) o'"
    and dn: "done_inv c' ((rpcs s)(r := pc)) (legs s) (ended s)" "done_mbox (rxc s) \<Longrightarrow> done_mbox c'"
    and seat: "rx_pkt pc \<noteq> None \<Longrightarrow> rx_conn pc = rx_conn (rpcs s r)"
    and stay: "\<And>c. rx_conn (rpcs s r) = Some c \<Longrightarrow> rpcs s r \<noteq> Rhello c \<Longrightarrow>
      (rx_conn pc = Some c \<and> pc \<noteq> Rhello c) \<or> done_mbox c'"
  shows "sys_inv su src ((rgo r pc s c')\<lparr>rxsum := x, out := o'\<rparr>)" (is "sys_inv su src ?t")
proof -
  note i = sys_invD [OF inv]
  have ct: "cut (owner s) ((rpcs s)(r := pc)) = cut (owner s) (rpcs s)" by (rule cut_keeps) (rule left)
  have "rx_part ((rpcs s)(r := pc)) = rx_part (rpcs s)" using rx_part_upd [OF r, of "rpcs s" pc] holds by simp
  then have fl: "in_flight ?t = in_flight s" by (simp add: in_flight_def ch_part_def ct)
  have "conn_inv su (nat (worker_count (txc s))) (wpcs s) (hello s) (reply s) (backlog s) (owner s) ((rpcs s)(r := pc))"
    using i(5) conn by (simp add: conn_inv_def)
  moreover have "chan_inv (su_g su) (legs s) (ended s) (nat (worker_count (txc s))) (chan s) (owner s) ((rpcs s)(r := pc))"
    using i(6) by (simp add: chan_inv_def ct)
  moreover have "rx_inv (su_g su) (legs s) (ended s) (chan s) (next_leg (rxc s)) ((rpcs s)(r := pc)) (rbuf s)"
    using i(7) good by (simp add: rx_inv_def)
  moreover have "relay_inv (next_leg (rxc s)) ((rpcs s)(r := pc)) (rxg s)"
    using i(11) relay by (auto simp: relay_inv_def)
  moreover have "order_inv (nat (worker_count (txc s))) (txc s) (wpcs s) (chan s) (owner s) ((rpcs s)(r := pc))"
    by (rule order_upd [OF i(13) ct]) (rule rx_list_keeps [OF holds seat])
  moreover have "serve_inv (nat (worker_count (txc s))) (wpcs s) (reply s) (chan s) (owner s) ((rpcs s)(r := pc)) (done_mbox c')"
    by (rule serve_upd [OF i(14) dn(2) stay])
  moreover have "ended ?t = ended s" by (simp add: ended_def)
  ultimately show ?thesis
    using i(2-4) i(8) i(12) fl cfg outp dn(1) by (simp add: sys_inv_def)
qed

text \<open>A step that also keeps the worker's place in the sequence.\<close>

lemma rx_keeps:
  assumes inv: "sys_inv su src s" and r: "r < kthreadmax" and same: "rx_same (rxc s) c'"
    and holds: "rx_holds pc = rx_holds (rpcs s r)"
    and left: "\<And>c. body_left c pc = body_left c (rpcs s r)"
    and good: "rx_good (su_g su) (legs s) (ended s) (chan s) (next_leg (rxc s)) pc (rbuf s r)"
    and conn: "\<And>c. rx_conn pc = Some c \<Longrightarrow> owner s c = Some r"
    and seq: "has_written pc = has_written (rpcs s r)" "is_Rnext pc = is_Rnext (rpcs s r)"
    and relay: "\<And>p. rx_pkt pc = Some p \<Longrightarrow> leg_id p = 0 \<Longrightarrow> \<forall>c i n. pc \<noteq> Rbody c p i n \<Longrightarrow> ginitiator_oneshot (rxg s) > 0"
    and seat: "rx_pkt pc \<noteq> None \<Longrightarrow> rx_conn pc = rx_conn (rpcs s r)"
    and stay: "\<And>c. rx_conn (rpcs s r) = Some c \<Longrightarrow> rpcs s r \<noteq> Rhello c \<Longrightarrow>
      (rx_conn pc = Some c \<and> pc \<noteq> Rhello c) \<or> done_mbox c'"
  shows "sys_inv su src (rgo r pc s c')"
proof -
  note i = sys_invD [OF inv]
  have nx: "next_leg c' = next_leg (rxc s)" "done_mbox c' = done_mbox (rxc s)" using same by (auto simp: rx_same_def)
  have "out_inv (next_leg (rxc s)) ((rpcs s)(r := pc)) (legs s) (out s)"
    using i(9) ex_upd [OF r, of has_written pc "rpcs s", OF seq(1)] by (simp only: out_inv_def)
  moreover have "done_inv c' ((rpcs s)(r := pc)) (legs s) (ended s)"
    using i(10) ex_upd [OF r, of is_Rnext pc "rpcs s", OF seq(2)] by (simp only: done_inv_def nx)
  ultimately have "sys_inv su src ((rgo r pc s c')\<lparr>rxsum := rxsum s, out := out s\<rparr>)"
    using conn relay seat stay nx(2) by (intro rx_moves [OF inv r rx_cfg [OF i(1) same] nx(1) holds left good]) auto
  then show ?thesis by (simp add: rgo_def)
qed

lemma owns: "sys_inv su src s \<Longrightarrow> rx_conn (rpcs s r) = Some c \<Longrightarrow> owner s c = Some r"
  using sys_invD(5) by (auto simp: conn_inv_def)

lemma relay_invD:
  "relay_inv nxt rp g \<Longrightarrow> rx_pkt (rp r) = Some p \<Longrightarrow> leg_id p = 0 \<Longrightarrow> \<forall>c i n. rp r \<noteq> Rbody c p i n \<Longrightarrow>
   ginitiator_oneshot g > 0"
  by (auto simp: relay_inv_def)

lemma inv_rx_top:
  assumes inv: "sys_inv su src s" and r: "r < kthreadmax" and step: "rx_top r s = Some (Inr t)"
  shows "sys_inv su src t"
proof -
  have "\<exists>pc. t = rgo r pc s (rxc s) \<and> rx_pkt pc = None \<and> rx_pkt (rpcs s r) = None \<and>
      (rx_conn pc = None \<or> rx_conn pc = rx_conn (rpcs s r)) \<and>
      (rx_conn (rpcs s r) \<noteq> None \<longrightarrow> (rx_conn pc = rx_conn (rpcs s r) \<and> (\<forall>c. pc \<noteq> Rhello c)) \<or> done_mbox (rxc s))"
    using step by (auto simp: rx_top_def split: rpc.splits if_splits)
  then obtain pc where t: "t = rgo r pc s (rxc s)" "rx_pkt pc = None" "rx_pkt (rpcs s r) = None"
    "rx_conn pc = None \<or> rx_conn pc = rx_conn (rpcs s r)"
    "rx_conn (rpcs s r) \<noteq> None \<longrightarrow> (rx_conn pc = rx_conn (rpcs s r) \<and> (\<forall>c. pc \<noteq> Rhello c)) \<or> done_mbox (rxc s)"
    by blast
  have "rx_holds pc = rx_holds (rpcs s r)" "\<And>c. body_left c pc = body_left c (rpcs s r)"
    "has_written pc = has_written (rpcs s r)" "is_Rnext pc = is_Rnext (rpcs s r)"
    "rx_good (su_g su) (legs s) (ended s) (chan s) (next_leg (rxc s)) pc (rbuf s r)"
    using t(2,3) rx_goodD [OF inv, of r] by (cases pc; cases "rpcs s r"; auto simp: rx_holds_def rx_good_def)+
  moreover have "owner s c = Some r" if "rx_conn pc = Some c" for c
    using that t(4) owns [OF inv, of r c] by auto
  ultimately show ?thesis unfolding t(1) using t(2,5) by (intro rx_keeps [OF inv r]) auto
qed

lemma inv_rx_seq:
  assumes inv: "sys_inv su src s" and r: "r < kthreadmax" and step: "rx_seq r s = Some (Inr t)"
  shows "sys_inv su src t"
proof -
  from step obtain c p where at: "rpcs s r = Rwait c p" "leg_id p = next_leg (rxc s)"
    and t: "t = rgo r (Rwrite c p) s (rxc s)"
    by (auto simp: rx_seq_def rx_ready_def split: rpc.splits if_splits)
  have "leg_id p = 0 \<Longrightarrow> ginitiator_oneshot (rxg s) > 0"
    using relay_invD [OF sys_invD(11) [OF inv], of r p] at by simp
  then show ?thesis
    unfolding t
    by (intro rx_keeps [OF inv r])
       (use rx_goodD [OF inv, of r] at owns [OF inv, of r] in \<open>auto simp: rx_good_def rx_holds_def\<close>)
qed

lemma inv_rx_hello:
  assumes inv: "sys_inv su src s" and r: "r < kthreadmax" and step: "rx_hello su r s = Some (Inr t)"
  shows "sys_inv su src t"
proof -
  from step obtain c where at: "rpcs s r = Rhello c"
    and t: "t = (rgo r (Rloop c) s (upd_rxworker (\<lambda>t. t\<lparr>rw_state := CHR ''s''\<rparr>) r (rxc s)))\<lparr>reply := (reply s)(c := ''ok'')\<rparr>"
    by (auto simp: rx_hello_def rx_handshake_def res_iff split: rpc.splits if_splits)
  have k: "sys_inv su src (rgo r (Rloop c) s (upd_rxworker (\<lambda>t. t\<lparr>rw_state := CHR ''s''\<rparr>) r (rxc s)))"
    by (intro rx_keeps [OF inv r])
       (use rx_goodD [OF inv, of r] at owns [OF inv, of r] in \<open>auto simp: rx_good_def rx_holds_def intro!: rx_same_upd\<close>)
  note j = sys_invD [OF k]
  have "conn_inv su (nat (worker_count (txc s))) (wpcs s) (hello s) ((reply s)(c := ''ok'')) (backlog s) (owner s)
      ((rpcs s)(r := Rloop c))"
    using j(5) by (simp add: conn_inv_def)
  moreover have "serve_inv (nat (worker_count (txc s))) (wpcs s) ((reply s)(c := ''ok'')) (chan s) (owner s)
      ((rpcs s)(r := Rloop c)) (done_mbox (rxc s))"
    using j(14) owns [OF inv, of r c] at by (auto simp: serve_inv_def)
  ultimately show ?thesis using j unfolding sys_inv_def t by (simp add: in_flight_def ended_def)
qed

lemma inv_rx_take:
  assumes inv: "sys_inv su src s" and r: "r < kthreadmax" and step: "rx_take r s = Some (Inr t)"
  shows "sys_inv su src t"
proof -
  note i = sys_invD [OF inv]
  from step obtain c cs c' where at: "rpcs s r = Raccept" "backlog s = c # cs"
    and acc: "rx_accept r (int c + 3) (rxc s) = Inr c'"
    and t: "t = (rgo r (Rhello c) s c')\<lparr>backlog := cs, owner := (owner s)(c := Some r)\<rparr>"
    by (auto simp: rx_take_def res_iff split: rpc.splits list.splits)
  have same: "rx_same (rxc s) c'"
    using acc by (auto simp: rx_accept_def res_iff Let_def intro!: rx_same_upd rx_same_count)
  have own: "owner s c = None" using i(5) at by (simp add: conn_inv_def)
  have ct: "cut ((owner s)(c := Some r)) ((rpcs s)(r := Rhello c)) = cut (owner s) (rpcs s)"
    using own at by (auto simp: cut_def fun_eq_iff split: option.splits)
  have "rx_part ((rpcs s)(r := Rhello c)) = rx_part (rpcs s)"
    using rx_part_upd [OF r, of "rpcs s" "Rhello c"] at by (simp add: rx_holds_def)
  then have "in_flight t = in_flight s" by (simp add: t in_flight_def ch_part_def ct)
  moreover have "conn_inv su (nat (worker_count (txc s))) (wpcs s) (hello s) (reply s) cs ((owner s)(c := Some r))
      ((rpcs s)(r := Rhello c))"
    using i(5) at r own by (auto simp: conn_inv_def)
  moreover have "chan_inv (su_g su) (legs s) (ended s) (nat (worker_count (txc s))) (chan s) ((owner s)(c := Some r))
      ((rpcs s)(r := Rhello c))"
    using i(6) by (simp add: chan_inv_def ct)
  moreover have "rx_inv (su_g su) (legs s) (ended s) (chan s) (next_leg (rxc s)) ((rpcs s)(r := Rhello c)) (rbuf s)"
    using i(7) by (auto simp: rx_inv_def rx_good_def)
  moreover have "out_inv (next_leg (rxc s)) ((rpcs s)(r := Rhello c)) (legs s) (out s)"
    using i(9) ex_upd [OF r, of has_written "Rhello c" "rpcs s"] at by (simp only: out_inv_def rpc_turn_simps simp_thms)
  moreover have "done_inv c' ((rpcs s)(r := Rhello c)) (legs s) (ended s)"
    using i(10) ex_upd [OF r, of is_Rnext "Rhello c" "rpcs s"] at same
    by (simp only: done_inv_def rx_same_def rpc_turn_simps simp_thms)
  moreover have "relay_inv (next_leg (rxc s)) ((rpcs s)(r := Rhello c)) (rxg s)"
    using i(11) by (auto simp: relay_inv_def)
  moreover have "conn_legs (txc s) (wpcs s) (chan s) ((owner s)(c := Some r)) ((rpcs s)(r := Rhello c)) k =
      conn_legs (txc s) (wpcs s) (chan s) (owner s) (rpcs s) k" for k
    using own at(1) by (auto simp: conn_legs_def ct split: option.splits)
  then have "order_inv (nat (worker_count (txc s))) (txc s) (wpcs s) (chan s) ((owner s)(c := Some r)) ((rpcs s)(r := Rhello c))"
    using i(13) by (simp add: order_inv_def)
  moreover have "serve_inv (nat (worker_count (txc s))) (wpcs s) (reply s) (chan s) ((owner s)(c := Some r))
      ((rpcs s)(r := Rhello c)) (done_mbox (rxc s))"
    using i(14) own at(1) by (fastforce simp: serve_inv_def)
  moreover have "ended t = ended s" by (simp add: t ended_def)
  moreover have "next_leg c' = next_leg (rxc s)" "done_mbox c' = done_mbox (rxc s)" using same by (simp_all add: rx_same_def)
  ultimately show ?thesis
    using i(2-4) i(8) i(12) rx_cfg [OF i(1) same] by (simp add: sys_inv_def t)
qed

text \<open>A step of worker \<open>r\<close> that takes bytes off its connection.\<close>

lemma cut_reader:
  assumes "own c = Some r" "\<And>c'. c' \<noteq> c \<Longrightarrow> body_left c' pc = 0 \<and> body_left c' (rp r) = 0"
  shows "cut own (rp(r := pc)) c' = (if c' = c then body_left c pc else cut own rp c')"
  using assms by (auto simp: cut_def split: option.splits)

lemma body_left_other: "rx_conn pc = Some c \<Longrightarrow> c' \<noteq> c \<Longrightarrow> body_left c' pc = 0"
  by (cases pc) auto

lemma rx_good_other:
  assumes "rx_good g ls e ch nxt pc buf" "rx_conn pc \<noteq> Some c"
  shows "rx_good g ls e (ch(c := bs)) nxt pc buf"
  using assms by (cases pc) (auto simp: rx_good_def)

lemma add_eqs:
  "a + y = b + x' \<Longrightarrow> c + x = d + z \<Longrightarrow> a + c + (x + y) = b + d + (z + x')" for a :: "'a :: comm_monoid_add"
proof -
  assume eq: "a + y = b + x'" "c + x = d + z"
  have "a + c + (x + y) = (a + y) + (c + x)" by (simp only: ac_simps)
  also have "\<dots> = b + d + (z + x')" by (simp only: eq ac_simps)
  finally show ?thesis .
qed

lemma rx_holds_list: "rx_conn pc = Some c \<Longrightarrow> rx_holds pc = mset (rx_list c pc)"
  by (cases "rx_pkt pc") (simp_all add: rx_holds_def rx_list_def)

lemma rx_reads:
  assumes inv: "sys_inv su src s" and r: "r < kthreadmax" and same: "rx_same (rxc s) c'"
    and conn: "rx_conn (rpcs s r) = Some c" "rx_conn pc = Some c"
    and rest: "body_left c pc \<le> length bs" "ch_good (su_g su) (legs s) (ended s) (drop (body_left c pc) bs)"
    and good: "rx_good (su_g su) (legs s) (ended s) ((chan s)(c := bs)) (next_leg (rxc s)) pc buf"
    and moves: "rx_list c pc @ ch_list (drop (body_left c pc) bs) =
      rx_list c (rpcs s r) @ ch_list (drop (cut (owner s) (rpcs s) c) (chan s c))"
    and bs: "bs = drop k (chan s c)"
    and early: "\<not> has_written pc" "\<not> has_written (rpcs s r)" "pc = Rbody c p i n"
    and t: "t = (rgo r pc s c')\<lparr>chan := (chan s)(c := bs), rbuf := (rbuf s)(r := buf)\<rparr>"
  shows "sys_inv su src t"
proof -
  note iv = sys_invD [OF inv]
  let ?n = "nat (worker_count (txc s))" and ?ch = "(chan s)(c := bs)" and ?rp = "(rpcs s)(r := pc)"
  have own: "owner s c = Some r" using owns [OF inv conn(1)] .
  have cn: "c < ?n" using iv(5) own by (auto simp: conn_inv_def)
  have ct: "cut (owner s) ?rp c' = (if c' = c then body_left c pc else cut (owner s) (rpcs s) c')" for c'
    by (rule cut_reader [where own = "owner s", OF own]) (auto intro: body_left_other conn)
  have nx: "next_leg c' = next_leg (rxc s)" "done_mbox c' = done_mbox (rxc s)" using same by (auto simp: rx_same_def)
  have mv: "rx_holds pc + ch_holds (drop (body_left c pc) bs) =
      rx_holds (rpcs s r) + ch_holds (drop (cut (owner s) (rpcs s) c) (chan s c))"
    using arg_cong [OF moves, of mset] by (simp add: ch_holds_list rx_holds_list [OF conn(1)] rx_holds_list [OF conn(2)])
  have "ch_part ?n ?ch (owner s) ?rp + ch_holds (drop (cut (owner s) (rpcs s) c) (chan s c)) =
      ch_part ?n (chan s) (owner s) (rpcs s) + ch_holds (drop (body_left c pc) bs)"
    unfolding ch_part_def using cn by (subst sum_change_at [where i = c]) (auto simp: ct)
  from add_eqs [OF this rx_part_upd [OF r]]
  have "ch_part ?n ?ch (owner s) ?rp + rx_part ?rp +
      (rx_holds (rpcs s r) + ch_holds (drop (cut (owner s) (rpcs s) c) (chan s c))) =
      ch_part ?n (chan s) (owner s) (rpcs s) + rx_part (rpcs s) + (rx_holds pc + ch_holds (drop (body_left c pc) bs))"
    by (metis (no_types, lifting) add.commute add.left_commute)
  then have "in_flight t = in_flight s"
    unfolding mv by (simp add: t in_flight_def add.assoc)
  moreover have "conn_inv su ?n (wpcs s) (hello s) (reply s) (backlog s) (owner s) ?rp"
    using iv(5) own conn(2) by (simp add: conn_inv_def)
  moreover have "chan_inv (su_g su) (legs s) (ended s) ?n ?ch (owner s) ?rp"
    using iv(6) rest by (auto simp: chan_inv_def ct)
  moreover have "rx_inv (su_g su) (legs s) (ended s) ?ch (next_leg (rxc s)) ?rp ((rbuf s)(r := buf))"
    unfolding rx_inv_def
  proof
    fix q
    have "rx_conn (rpcs s q) \<noteq> Some c" if "q \<noteq> r" using owns [OF inv, of q c] own that by auto
    then show "rx_good (su_g su) (legs s) (ended s) ?ch (next_leg (rxc s)) (?rp q) (((rbuf s)(r := buf)) q)"
      using good rx_goodD [OF inv, of q] by (auto intro: rx_good_other)
  qed
  moreover have "out_inv (next_leg (rxc s)) ?rp (legs s) (out s)"
    using iv(9) ex_upd [OF r, of has_written pc "rpcs s"] early by (simp only: out_inv_def simp_thms)
  moreover have nr: "is_Rnext pc = is_Rnext (rpcs s r)" using early is_Rnext_written by blast
  have "done_inv c' ?rp (legs s) (ended s)"
    using iv(10) ex_upd [OF r, of is_Rnext pc "rpcs s", OF nr] by (simp only: done_inv_def nx)
  moreover have "relay_inv (next_leg (rxc s)) ?rp (rxg s)"
    using iv(11) early(3) by (auto simp: relay_inv_def)
  moreover have "conn_legs (txc s) (wpcs s) ?ch (owner s) ?rp k = conn_legs (txc s) (wpcs s) (chan s) (owner s) (rpcs s) k" for k
  proof (cases "k = c")
    case True
    then show ?thesis using moves own by (simp add: conn_legs_def ct)
  next
    case False
    then have "rx_list k pc = []" "rx_list k (rpcs s r) = []" using conn by simp_all
    then show ?thesis using False by (auto simp: conn_legs_def ct split: option.splits)
  qed
  then have "order_inv ?n (txc s) (wpcs s) ?ch (owner s) ?rp" using iv(13) by (simp add: order_inv_def)
  moreover have "serve_inv ?n (wpcs s) (reply s) (chan s) (owner s) ?rp (done_mbox (rxc s))"
    by (rule serve_upd [OF iv(14)]) (use conn early(3) in auto)
  then have "serve_inv ?n (wpcs s) (reply s) ?ch (owner s) ?rp (done_mbox (rxc s))"
    by (simp add: serve_inv_def bs)
  moreover have "ended t = ended s" by (simp add: t ended_def)
  ultimately show ?thesis
    using iv(2-4) iv(8) iv(12) rx_cfg [OF iv(1) same] by (simp add: sys_inv_def t nx)
qed

lemma ch_good_head:
  assumes "ch_good g ls e bs" "sizeof_millipacket \<le> length bs"
  obtains p pl rest where "bs = frame_bytes (p, pl) @ rest" "pkt_good g ls e p pl" "ch_good g ls e rest"
    "ch_list bs = unat (leg_id p) # ch_list rest"
proof -
  have ne: "bs \<noteq> []" using assms(2) by (auto simp: sizeof_millipacket_def)
  from assms(1) have w: "whole bs" by (simp add: ch_good_def)
  from whole_nonempty [OF w ne] obtain f fs where f: "frames bs = f # fs"
    "bs = frame_bytes f @ concat (map frame_bytes fs)" "wf_frame f" "list_all wf_frame fs" .
  have "frames (concat (map frame_bytes fs)) = fs" using frames_concat [OF f(4), of "[]"] by simp
  then have "ch_good g ls e (concat (map frame_bytes fs))" "ch_list bs = unat (leg_id (fst f)) # ch_list (concat (map frame_bytes fs))"
    using assms(1) f wholeI [OF f(4)] by (auto simp: ch_good_def ch_list_def)
  moreover have "pkt_good g ls e (fst f) (snd f)" using assms(1) f by (simp add: ch_good_def)
  ultimately show thesis using f by (intro that [of "fst f" "snd f"]) auto
qed

lemma chan_at:
  assumes "sys_inv su src s" "rx_conn (rpcs s r) = Some c"
  shows "cut (owner s) (rpcs s) c = body_left c (rpcs s r)"
    "ch_good (su_g su) (legs s) (ended s) (drop (body_left c (rpcs s r)) (chan s c))"
    "body_left c (rpcs s r) \<le> length (chan s c)"
proof -
  have own: "owner s c = Some r" using owns [OF assms] .
  then have "c < nat (worker_count (txc s))" using sys_invD(5) [OF assms(1)] by (auto simp: conn_inv_def)
  then show "cut (owner s) (rpcs s) c = body_left c (rpcs s r)"
    "ch_good (su_g su) (legs s) (ended s) (drop (body_left c (rpcs s r)) (chan s c))"
    "body_left c (rpcs s r) \<le> length (chan s c)"
    using sys_invD(6) [OF assms(1)] own by (auto simp: chan_inv_def cut_def)
qed

lemma inv_rx_head:
  assumes inv: "sys_inv su src s" and r: "r < kthreadmax" and step: "rx_head r s = Some (Inr t)"
  shows "sys_inv su src t"
proof -
  from step obtain c where at: "rpcs s r = Rhead c" "sizeof_millipacket \<le> length (chan s c)"
    by (auto simp: rx_head_def split: rpc.splits if_splits)
  note ch = chan_at [OF inv, of r c]
  have "ch_good (su_g su) (legs s) (ended s) (chan s c)" using ch(2) at by simp
  from ch_good_head [OF this at(2)] obtain p pl rest where f: "chan s c = frame_bytes (p, pl) @ rest"
    "pkt_good (su_g su) (legs s) (ended s) p pl" "ch_good (su_g su) (legs s) (ended s) rest"
    "ch_list (chan s c) = unat (leg_id p) # ch_list rest" .
  let ?c = "upd_rxworker (\<lambda>t. t\<lparr>rw_leg := leg_id p, rw_legop := opcode p\<rparr>) r
             (upd_rxworker (\<lambda>t. t\<lparr>rw_state := CHR ''a''\<rparr>) r (rxc s))"
  have tk: "take sizeof_millipacket (chan s c) = pkt_bytes p" "drop sizeof_millipacket (chan s c) = pl @ rest"
    by (simp_all add: f(1) frame_bytes_def)
  have sz: "unat (pkt_size p) = length pl" "length pl \<le> kfootsize" using pkt_good_size [OF f(2)] by auto
  have t: "t = (rgo r (Rbody c p 0 (unat (pkt_size p))) s ?c)\<lparr>chan := (chan s)(c := pl @ rest),
      rbuf := (rbuf s)(r := rbuf s r)\<rparr>"
    using step at sz by (simp add: rx_head_def tk rx_header_eq res_iff)
  show ?thesis
    by (rule rx_reads [OF inv r _ _ _ _ _ _ _ tk(2) [symmetric] _ _ _ t])
       (use at ch f sz rx_goodD [OF inv, of r] in \<open>auto simp: rx_list_def rx_good_def intro!: rx_same_upd\<close>)
qed

lemma inv_rx_read:
  assumes inv: "sys_inv su src s" and r: "r < kthreadmax" and step: "rx_read r k s = Some (Inr t)"
  shows "sys_inv su src t"
proof -
  from step obtain c p i n where at: "rpcs s r = Rbody c p i n" "k \<le> n" "k \<le> length (chan s c)"
    by (auto simp: rx_read_def split: rpc.splits if_splits)
  note ch = chan_at [OF inv, of r c]
  have g: "i + n = unat (pkt_size p)" "n \<le> length (chan s c)" "length (rbuf s r) = kfootsize"
    "pkt_good (su_g su) (legs s) (ended s) p (take i (rbuf s r) @ take n (chan s c))"
    using rx_goodD [OF inv, of r] at by (auto simp: rx_good_def)
  have sz: "i + n \<le> kfootsize" using pkt_good_size [OF g(4)] g by auto
  let ?b = "take k (chan s c)" and ?m = "n - k"
  have lb: "length ?b = k" using at by simp
  from step at sz have t: "t = (rgo r (Rbody c p (i + k) ?m) s (rxc s))\<lparr>chan := (chan s)(c := drop k (chan s c)),
      rbuf := (rbuf s)(r := overwrite (rbuf s r) i ?b)\<rparr>"
    by (auto simp: rx_read_def rx_read_round_ok res_iff lb split: if_splits)
  have buf: "take (i + k) (overwrite (rbuf s r) i ?b) = take i (rbuf s r) @ ?b"
    using take_overwrite [of i ?b "rbuf s r"] lb g sz at by simp
  have split: "?b @ take ?m (drop k (chan s c)) = take n (chan s c)"
    using at(2) by (metis add_diff_inverse_nat not_less take_add)
  have pg: "pkt_good (su_g su) (legs s) (ended s) p
      (take (i + k) (overwrite (rbuf s r) i ?b) @ take ?m (drop k (chan s c)))"
    using g(4) by (simp only: buf append_assoc split)
  have dr: "drop ?m (drop k (chan s c)) = drop n (chan s c)" using at(2) by simp
  show ?thesis
    by (rule rx_reads [OF inv r _ _ _ _ _ _ _ refl _ _ _ t])
       (use at ch g sz pg dr lb in \<open>auto simp: rx_list_def rx_good_def simp del: drop_drop\<close>)
qed

section \<open>The sequencer\<close>

lemma count_two:
  assumes "r < n" "r' < n" "r \<noteq> r'" "h r = {#x#}" "h r' = {#x#}"
  shows "2 \<le> count (\<Sum>j < (n::nat). h j) x"
proof -
  have "(\<Sum>j<n. h j) = (\<Sum>j \<in> {..<n} - {r, r'}. h j) + (\<Sum>j \<in> {r, r'}. h j)"
    using assms by (intro sum.subset_diff) auto
  also have "(\<Sum>j \<in> {r, r'}. h j) = {#x, x#}" using assms by simp
  finally show ?thesis by simp
qed

lemma turn_pkt:
  assumes "sys_inv su src s" "in_turn (rpcs s r)"
  obtains c p where "rx_pkt (rpcs s r) = Some p" "rx_conn (rpcs s r) = Some c" "leg_id p = next_leg (rxc s)"
    "pkt_good (su_g su) (legs s) (ended s) p (take (unat (pkt_size p)) (rbuf s r))"
  using rx_goodD [OF assms(1), of r] assms(2) that by (cases "rpcs s r") (auto simp: rx_good_def)

text \<open>At most one worker is at its turn: two would hold the same leg.\<close>

lemma turn_unique:
  assumes inv: "sys_inv su src s" and r: "r < kthreadmax" "r' < kthreadmax"
    and turn: "in_turn (rpcs s r)" "in_turn (rpcs s r')"
  shows "r = r'"
proof (rule ccontr)
  assume ne: "r \<noteq> r'"
  let ?x = "unat (next_leg (rxc s))"
  have "rx_holds (rpcs s q) = {#?x#}" if "in_turn (rpcs s q)" for q
    using turn_pkt [OF inv that] by (metis option.simps(5) rx_holds_def)
  with turn have "2 \<le> count (rx_part (rpcs s)) ?x"
    unfolding rx_part_def by (intro count_two [OF r ne]) auto
  then have "2 \<le> count (in_flight s) ?x" by (simp add: in_flight_def)
  moreover have "count (in_flight s) ?x \<le> 1"
    using sys_invD(8) [OF inv] by (simp add: count_mset_set')
  ultimately show False by simp
qed

lemma not_done_in_turn:
  assumes inv: "sys_inv su src s" and r: "r < kthreadmax" "in_turn (rpcs s r)" "\<not> is_Rnext (rpcs s r)"
  shows "\<not> done_mbox (rxc s)"
proof
  assume d: "done_mbox (rxc s)"
  have "\<not> is_Rnext (rpcs s q)" if "q < kthreadmax" for q
    using turn_unique [OF inv that r(1) _ r(2)] r(3) is_Rnext_written has_written_turn by blast
  with d sys_invD(10) [OF inv] have "unat (next_leg (rxc s)) = length (legs s)" by (auto simp: done_inv_def)
  with turn_leg [OF sys_invD(7) [OF inv] r(2)] show False by simp
qed

lemma others_not_in_turn:
  assumes "sys_inv su src s" "r < kthreadmax" "in_turn (rpcs s r)" "q < kthreadmax" "q \<noteq> r"
  shows "\<not> in_turn (rpcs s q)" "\<not> has_written (rpcs s q)" "\<not> is_Rnext (rpcs s q)"
  using turn_unique [OF assms(1,4,2) _ assms(3)] assms(5) has_written_turn is_Rnext_written by blast+

lemma inv_rx_write:
  assumes inv: "sys_inv su src s" and r: "r < kthreadmax" and step: "rx_write r s = Some (Inr t)"
  shows "sys_inv su src t"
proof -
  note i = sys_invD [OF inv]
  from step obtain c p where at: "rpcs s r = Rwrite c p" by (auto simp: rx_write_def split: rpc.splits)
  let ?b = "take (unat (pkt_size p)) (rbuf s r)" and ?c = "upd_rxworker (\<lambda>t. t\<lparr>rw_state := CHR ''P''\<rparr>) r (rxc s)"
  let ?x = "unat (next_leg (rxc s))"
  have turn: "in_turn (rpcs s r)" using at by simp
  have g: "leg_id p = next_leg (rxc s)" "pkt_good (su_g su) (legs s) (ended s) p ?b"
    using rx_goodD [OF inv, of r] at by (auto simp: rx_good_def)
  from step at g have t: "t = (rgo r (Rop c p) s ?c)\<lparr>rxsum := rxsum s, out := out s @ ?b\<rparr>"
    by (auto simp: rx_write_def rx_written_def rx_write_bytes_def res_iff Let_def rgo_def)
  have same: "rx_same (rxc s) ?c" by (intro rx_same_upd) auto
  note o = others_not_in_turn [OF inv r turn]
  have "out s = concat (take ?x (legs s))"
    using i(9) o(2) at by (auto simp: out_inv_def split: if_splits) (metis rpc_turn_simps(14))
  then have "out s @ ?b = concat (take (Suc ?x) (legs s))"
    using g turn_leg [OF i(7) turn] by (simp add: concat_take_Suc pkt_good_def)
  then have outp: "out_inv (next_leg (rxc s)) ((rpcs s)(r := Rop c p)) (legs s) (out s @ ?b)"
    using r by (auto simp: out_inv_def)
  have none: "\<not> (\<exists>q < kthreadmax. is_Rnext (((rpcs s)(r := Rop c p)) q))" using o(3) by auto
  have dn: "done_inv ?c ((rpcs s)(r := Rop c p)) (legs s) (ended s)"
    using not_done_in_turn [OF inv r turn] turn_leg [OF i(7) turn] at
    by (simp add: done_inv_def none del: fun_upd_apply)
  have "leg_id p = 0 \<Longrightarrow> ginitiator_oneshot (rxg s) > 0"
    using relay_invD [OF i(11), of r p] at by simp
  then show ?thesis
    unfolding t
    by (intro rx_moves [OF inv r rx_cfg [OF i(1) same]])
       (use g at owns [OF inv, of r] rx_goodD [OF inv, of r] outp dn in \<open>auto simp: rx_holds_def rx_good_def\<close>)
qed

lemma inv_rx_op:
  assumes inv: "sys_inv su src s" and r: "r < kthreadmax" and step: "rx_op r s = Some (Inr t)"
  shows "sys_inv su src t"
proof -
  note i = sys_invD [OF inv]
  from step obtain c p where at: "rpcs s r = Rop c p" by (auto simp: rx_op_def split: rpc.splits)
  have turn: "in_turn (rpcs s r)" using at by simp
  have g: "leg_id p = next_leg (rxc s)" "pkt_good (su_g su) (legs s) (ended s) p (take (unat (pkt_size p)) (rbuf s r))"
    using rx_goodD [OF inv, of r] at by (auto simp: rx_good_def)
  obtain rc saved where op: "rx_opcode p (rbuf s r) (rxc s) (rxsum s) = Some (Inr (rc, saved))"
    and t: "t = (rgo r (Rnext c p) s rc)\<lparr>rxsum := saved\<rparr>"
    using step at by (auto simp: rx_op_def res_iff split: option.splits)
  have rc: "rc = (if opcode p = end_of_millipede then (rxc s)\<lparr>done_mbox := True\<rparr> else rxc s)"
    using op by (auto simp: rx_opcode_def res_iff split: if_splits)
  have cfg: "cfg_inv (txc s) rc (legs s)" "next_leg rc = next_leg (rxc s)"
    using i(1) by (auto simp: rc cfg_inv_def rxw_def)
  have nd: "\<not> done_mbox (rxc s)" using not_done_in_turn [OF inv r turn] at by simp
  have "\<exists>q < kthreadmax. is_Rnext (((rpcs s)(r := Rnext c p)) q)" using r by auto
  then have dn: "done_inv rc ((rpcs s)(r := Rnext c p)) (legs s) (ended s)"
    using nd g by (simp add: done_inv_def rc pkt_good_def del: fun_upd_apply)
  have outp: "out_inv (next_leg (rxc s)) ((rpcs s)(r := Rnext c p)) (legs s) (out s)"
    using i(9) ex_upd [OF r, of has_written "Rnext c p" "rpcs s"] at by (simp only: out_inv_def rpc_turn_simps simp_thms)
  have "leg_id p = 0 \<Longrightarrow> ginitiator_oneshot (rxg s) > 0"
    using relay_invD [OF i(11), of r p] at by simp
  then have "sys_inv su src ((rgo r (Rnext c p) s rc)\<lparr>rxsum := saved, out := out s\<rparr>)"
    by (intro rx_moves [OF inv r cfg])
       (use g at nd owns [OF inv, of r] rx_goodD [OF inv, of r] outp dn in \<open>auto simp: rx_holds_def rx_good_def\<close>)
  then show ?thesis by (simp add: t rgo_def)
qed

lemma initiate_relay_result:
  assumes "initiate_relay env 0 g tc rc io = Inr (ret, g', tc', rc', b)" "ginitiator_oneshot g \<ge> 0"
  shows "ginitiator_oneshot g' > 0" "rx_same rc rc'"
  using assms
  by (auto simp: initiate_relay_def initiate_def res_iff Let_def rx_same_def rxw_def split: if_splits)

lemma inv_rx_check:
  assumes inv: "sys_inv su src s" and r: "r < kthreadmax" and step: "rx_check su r s = Some (Inr t)"
  shows "sys_inv su src t"
proof -
  note i = sys_invD [OF inv]
  from step obtain c p k g tc rc where at: "rpcs s r = Rbody c p k 0" and rel: "rx_relay su p s = Inr (g, tc, rc)"
    and t: "t = (rgo r (Rwait c p) s rc)\<lparr>rxg := g, rtxc := tc\<rparr>"
    by (auto simp: rx_check_def res_iff split: rpc.splits if_splits)
  let ?s = "s\<lparr>rxg := g, rtxc := tc\<rparr>"
  have pos: "ginitiator_oneshot (rxg s) \<ge> 0" using i(11) by (simp add: relay_inv_def)
  have g: "rx_same (rxc s) rc" "leg_id p = 0 \<Longrightarrow> ginitiator_oneshot g > 0"
    "leg_id p \<noteq> 0 \<Longrightarrow> g = rxg s"
    using rel initiate_relay_result [OF _ pos] by (auto simp: rx_relay_def res_iff split: if_splits)
  have "relay_inv (next_leg (rxc s)) (rpcs s) g"
  proof (cases "leg_id p = 0")
    case True
    with g(2) show ?thesis by (auto simp: relay_inv_def)
  next
    case False
    with g(3) i(11) show ?thesis by simp
  qed
  then have inv': "sys_inv su src ?s" using i by (simp add: sys_inv_def in_flight_def ended_def)
  have "sys_inv su src (rgo r (Rwait c p) ?s rc)"
    by (intro rx_keeps [OF inv' r])
       (use g at owns [OF inv, of r] rx_goodD [OF inv, of r] in \<open>auto simp: rx_holds_def rx_good_def ended_def\<close>)
  moreover have "rgo r (Rwait c p) ?s rc = t" by (cases s) (simp add: t rgo_def)
  ultimately show ?thesis by simp
qed

lemma unat_next:
  assumes "cfg_inv tc c ls" "unat (next_leg c) < length ls"
  shows "unat (next_leg c + 1) = Suc (unat (next_leg c))"
  using assms by (simp add: cfg_inv_def unat_word_ariths)

lemma inv_rx_step:
  assumes inv: "sys_inv su src s" and r: "r < kthreadmax" and step: "rx_step r s = Some (Inr t)"
  shows "sys_inv su src t"
proof -
  note i = sys_invD [OF inv]
  from step obtain c p where at: "rpcs s r = Rnext c p" and t: "t = rgo r (Rloop c) s (rx_next r (rxc s))"
    by (auto simp: rx_step_def split: rpc.splits)
  let ?rp = "(rpcs s)(r := Rloop c)" and ?x = "next_leg (rxc s)" and ?c = "rx_next r (rxc s)"
  have turn: "in_turn (rpcs s r)" using at by simp
  have leg: "leg_id p = ?x" using rx_goodD [OF inv, of r] at by (auto simp: rx_good_def)
  have lt: "unat ?x < length (legs s)" by (rule turn_leg [OF i(7) turn])
  have ux: "unat (?x + 1) = Suc (unat ?x)" by (rule unat_next [OF i(1) lt])
  have nx: "next_leg ?c = ?x + 1" "done_mbox ?c = done_mbox (rxc s)" by (simp_all add: rx_next_def)
  have same: "rx_same ((rxc s)\<lparr>next_leg := ?x + 1\<rparr>) ?c" by (auto simp: rx_next_def intro: rx_same_upd)
  have "cfg_inv (txc s) ((rxc s)\<lparr>next_leg := ?x + 1\<rparr>) (legs s)"
    using i(1) lt ux by (simp add: cfg_inv_def rxw_def)
  then have cfg: "cfg_inv (txc s) ?c (legs s)" using same by (rule rx_cfg)
  note o = others_not_in_turn [OF inv r turn]
  have ct: "cut (owner s) ?rp = cut (owner s) (rpcs s)" by (rule cut_keeps) (simp add: at)
  have rxp: "rx_part ?rp + {#unat ?x#} = rx_part (rpcs s)"
    using rx_part_upd [OF r, of "rpcs s" "Rloop c"] at leg by (simp add: rx_holds_def)
  have "in_flight t + {#unat ?x#} = tx_part (txc s) (wpcs s) +
      ch_part (nat (worker_count (txc s))) (chan s) (owner s) (rpcs s) + (rx_part ?rp + {#unat ?x#})"
    by (simp add: t in_flight_def ch_part_def ct)
  also have "\<dots> = mset_set {unat ?x..<length (legs s)}"
    using i(8) by (simp only: rxp in_flight_def)
  also have "{unat ?x..<length (legs s)} = insert (unat ?x) {Suc (unat ?x)..<length (legs s)}" using lt by auto
  finally have fl: "in_flight t = mset_set {unat (?x + 1)..<length (legs s)}" by (simp add: ux)
  have rxi: "rx_inv (su_g su) (legs s) (ended s) (chan s) (?x + 1) ?rp (rbuf s)"
    unfolding rx_inv_def
  proof
    fix q
    show "rx_good (su_g su) (legs s) (ended s) (chan s) (?x + 1) (?rp q) (rbuf s q)"
    proof (cases "q = r")
      case True
      then show ?thesis using rx_goodD [OF inv, of r] by (simp add: rx_good_def)
    next
      case False
      have "\<not> in_turn (rpcs s q)"
      proof (cases "q < kthreadmax")
        case True
        then show ?thesis using o False by blast
      next
        case big: False
        show ?thesis
        proof
          assume "in_turn (rpcs s q)"
          then obtain c where "rx_conn (rpcs s q) = Some c" by (cases "rpcs s q") auto
          from owns [OF inv this] i(5) big show False by (auto simp: conn_inv_def)
        qed
      qed
      with False rx_goodD [OF inv, of q] show ?thesis by (auto simp: rx_good_def)
    qed
  qed
  have none: "\<not> (\<exists>q < kthreadmax. has_written (?rp q))" "\<not> (\<exists>q < kthreadmax. is_Rnext (?rp q))"
    using o by auto
  have some: "\<exists>q < kthreadmax. has_written (rpcs s q)" "\<exists>q < kthreadmax. is_Rnext (rpcs s q)" using at r by force+
  have "out_inv (?x + 1) ?rp (legs s) (out s)"
    using i(9) by (simp only: out_inv_def none some ux if_True if_False)
  moreover have "done_inv ?c ?rp (legs s) (ended s)"
    using i(10) by (simp only: done_inv_def none some ux nx if_True if_False)
  moreover have "relay_inv (?x + 1) ?rp (rxg s)"
    using i(11) relay_invD [OF i(11), of r p] at leg by (auto simp: relay_inv_def)
  moreover have "conn_inv su (nat (worker_count (txc s))) (wpcs s) (hello s) (reply s) (backlog s) (owner s) ?rp"
    using i(5) at by (auto simp: conn_inv_def)
  moreover have "chan_inv (su_g su) (legs s) (ended s) (nat (worker_count (txc s))) (chan s) (owner s) ?rp"
    using i(6) by (simp add: chan_inv_def ct)
  moreover have "order_inv (nat (worker_count (txc s))) (txc s) (wpcs s) (chan s) (owner s) ?rp"
    by (rule order_drop [OF i(13) ct]) (simp add: at)
  moreover have "serve_inv (nat (worker_count (txc s))) (wpcs s) (reply s) (chan s) (owner s) ?rp (done_mbox (rxc s))"
    by (rule serve_upd [OF i(14)]) (simp_all add: at)
  moreover have "ended t = ended s" by (simp add: t ended_def)
  ultimately show ?thesis
    using i(2-4) i(12) cfg fl rxi by (simp add: sys_inv_def t nx)
qed

section \<open>All actions\<close>

lemma rx_thread_Some [res_iff]: "rx_thread r x = Some y \<longleftrightarrow> r < kthreadmax \<and> x = Some y"
  by (simp add: rx_thread_def)

lemmas inv_tx = inv_tx_connect inv_tx_ok inv_tx_reset inv_tx_loop inv_tx_push inv_tx_write inv_tx_fin
lemmas inv_ingest = inv_ingest_top inv_ingest_scan inv_ingest_read inv_ingest_load inv_ingest_send
lemmas inv_rx = inv_rx_top inv_rx_take inv_rx_hello inv_rx_head inv_rx_read inv_rx_check inv_rx_seq
  inv_rx_write inv_rx_op inv_rx_step

lemma sys_inv_step:
  assumes "sys_inv su src s" "calm_step su s t"
  shows "sys_inv su src t"
  using assms(2)
proof (rule calm_stepE)
  fix a
  assume "calm s a" "do_action su a s = Some (Inr t)"
  moreover then have "length (legs s) < 2 ^ 64 - 1" by (simp only: calm_def)
  ultimately show ?thesis
    by (cases a; simp only: do_action.simps rx_thread_Some) (blast intro: inv_tx [OF assms(1)] inv_ingest [OF assms(1)] inv_rx [OF assms(1)])+
qed

lemma sys_inv_start:
  assumes "sys_start su s"
  shows "sys_inv su (fd_avail (inp s)) s"
proof -
  have c: "cut (owner s) (rpcs s) = (\<lambda>_. 0)" using assms by (simp add: sys_start_def cut_def fun_eq_iff)
  have "tx_part (txc s) (wpcs s) = {#}" unfolding tx_part_def
    using assms by (intro sum.neutral) (auto simp: sys_start_def tx_holds_def tx_state_def)
  then have "in_flight s = {#}"
    using assms by (simp add: in_flight_def ch_part_def rx_part_def sys_start_def rx_holds_def c)
  then show ?thesis
    using assms
    by (auto simp: sys_inv_def sys_start_def cfg_inv_def source_inv_def ingest_inv_def ingest_begin_def serves_def
        tx_inv_def tx_good_def tx_state_def conn_inv_def chan_inv_def rx_inv_def rx_good_def out_inv_def done_inv_def
        relay_inv_def cut_def ended_def prbs_inv_def order_inv_def conn_legs_def tx_list_def ch_list_def serve_inv_def)
qed

text \<open>The invariant holds in every state of a calm run over the input \<open>src\<close>.\<close>

interpretation calm: invariant_system "\<lambda>s. sys_start su s \<and> fd_avail (inp s) = src" "calm_step su" "sys_inv su src"
  for su src
  by unfold_locales (auto intro: sys_inv_start sys_inv_step)

definition calm_reach :: "world \<Rightarrow> byte list \<Rightarrow> sys \<Rightarrow> bool" where
  "calm_reach su src = reach (\<lambda>s. sys_start su s \<and> fd_avail (inp s) = src) (calm_step su)"

lemma calm_reach_inv: "calm_reach su src s \<Longrightarrow> sys_inv su src s"
  unfolding calm_reach_def by (rule calm.reach_inv)

end
