(* ===== verification/Vm_Schedules.thy ===== *)
theory Vm_Schedules
  imports Vm_Inv_Rx
begin

text \<open>
  Concrete runs, evaluated action by action: a start state with one transmitting worker, schedules
  over it, and the states they end in. The properties use them to show that their hypotheses
  can hold, and to exhibit the races.
\<close>

section \<open>Start states\<close>

text \<open>One transmitting worker over the given input; both sides with default options.\<close>

definition pool1 :: txconf_s where
  "pool1 = pool3\<lparr>worker_count := 1, tx_workers := map (\<lambda>i. blank_worker\<lparr>tw_id := int i,
     tw_state := if i = 0 then CHR ''L'' else CHR ''E'',
     tw_buffer := if i = 0 then replicate kfootsize 0 else []\<rparr>) [0..<kthreadmax]\<rparr>"

definition sys0 :: "rd_event list \<Rightarrow> sys" where
  "sys0 evs = \<lparr>txc = pool1, wpcs = (\<lambda>_. Wconn), ipcs = Itop, ig = ingest_begin, inp = evs,
     hello = (\<lambda>_. []), reply = (\<lambda>_. []), backlog = [], owner = (\<lambda>_. None), chan = (\<lambda>_. []),
     rxc = plain_rxconf\<lparr>rx_workers := map (\<lambda>i. \<lparr>rw_id = int i, rw_state = CHR 0x00, rw_leg = 0, rw_legop = 0,
       rw_sockfd = 0\<rparr>) [0..<kthreadmax]\<rparr>,
     rpcs = (\<lambda>_. Rtop), rbuf = (\<lambda>_. replicate kfootsize 0), rxsum = 0xff, rxg = plain_globals,
     rtxc = plain_txconf, rioc = plain_ioconf, out = [], legs = []\<rparr>"

definition world0 :: world where
  "world0 = \<lparr>su_env = plain_env, su_g = plain_globals, tx_phrase = phrase_bytes plain_globals [],
     rx_phrase = phrase_bytes plain_globals []\<rparr>"

lemma sys0_start: "fd_steady evs \<Longrightarrow> sys_start su (sys0 evs)"
  by (auto simp: sys_start_def sys0_def pool1_def pool3_def wf_txconf_def kthreadmax_def worker_def tx_state_def
      plain_rxconf_def rxw_def plain_globals_def blank_worker_def nth_append)

lemma sys0_reach: "fd_steady evs \<Longrightarrow> calm_reach su (fd_avail evs) (sys0 evs)"
  unfolding calm_reach_def by (rule reach.reach_init) (simp add: sys0_start, simp add: sys0_def)

section \<open>Filling a buffer\<close>

lemma steady_end: "fd_steady evs \<Longrightarrow> fd_avail evs = [] \<Longrightarrow> evs = []"
  by (cases evs rule: fd_ok.cases) auto

lemma fill_bytes:
  assumes "bs \<noteq> []" "length bs < kfootsize" "length buf = kfootsize"
  shows "bufferfill fd_read 0 [Data bs] buf kfootsize False = Inr ([], bs @ drop (length bs) buf, length bs)"
proof -
  have st: "fd_steady [Data bs]" using assms by simp
  have le: "kfootsize \<le> length buf" using assms by simp
  obtain s where s: "bufferfill fd_read 0 [Data bs] buf kfootsize False = Inr (s, bs @ drop (length bs) buf, length bs)"
    using steady.bufferfill_fills [OF st kfootsize_pos le] assms(1,2) by (auto simp: overwrite_0)
  obtain s' cs where t: "bufferfill fd_read 0 [Data bs] buf kfootsize False = Inr (s', cs @ drop (length cs) buf, length cs)"
    "fd_steady s'" "fd_avail [Data bs] = cs @ fd_avail s'"
    using steady.bufferfill_takes [OF st kfootsize_pos le, of False] by blast
  have "s' = s" "length cs = length bs" using s t(1) by auto
  moreover have "fd_avail s' = []" using t(3) calculation(2) assms(1) by simp
  ultimately have "s = []" using t(2) steady_end by auto
  with s show ?thesis by simp
qed

lemma fill_empty: "bufferfill fd_read 0 [] buf kfootsize False = Inr ([], buf, 0)"
  by (simp add: bufferfill_def bufferfill_loop.simps Let_def overwrite_def)


section \<open>A complete transfer\<close>

text \<open>A schedule: one worker connects, sends its input in one leg and the shutdown leg, and the
  first receiving worker takes both.\<close>

definition connect1 :: "action list" where
  "connect1 = [TxConnect 0, RxTop 0, RxAccept 0, RxHello 0, TxOk 0]"

definition feed1 :: "action list" where
  "feed1 = [IngestTop, IngestScan, IngestFill, IngestLoad]"

definition push1 :: "action list" where
  "push1 = [TxLoop 0, TxPush 0, TxWrite 0, TxFin 0]"

definition sink1 :: "action list" where
  "sink1 = [RxCheck 0, RxSeq 0, RxWrite 0, RxOp 0]"

definition transfer1 :: "action list" where
  "transfer1 = connect1 @ [TxReset 0] @ feed1 @ push1 @ feed1 @ [IngestSend] @ push1 @
     [RxTop 0, RxHead 0, RxBody 0 2] @ sink1 @ [RxNext 0, RxTop 0, RxHead 0] @ sink1"

lemmas run_simps = tx_connect_def tx_ok_def tx_reset_def tx_loop_def tx_push_def tx_write_def tx_fin_def
  ingest_top_def ingest_scan_def ingest_read_def ingest_load_def load_leg_def ingest_send_def rx_thread_def rx_top_def
  rx_take_def rx_hello_def rx_head_def rx_read_def rx_check_def rx_relay_def rx_seq_def rx_write_def rx_op_def rx_step_def
  t_at_def after_def wgo_def rgo_def calm_def

lemmas conf_simps = tx_dial_def tx_tcp_connect_next_def tx_reconnect.simps tx_state_set_def kreconnectlimit_def
  kthreadmax_def upd_worker_def worker_def tx_shake_def sm_online_def sm_reset_def sm_switch_def rx_accept_def rx_handshake_def
  upd_rxworker_def rxw_def Let_def tx_state_def

lemmas leg_simps = ingest_fill_def ingest_feeds_def leg_limit_reached_def ingest_feed_def feed_checksum_def
  start_worker_def ingest_begin_def txshutdown_mark_def txshutdown_send_def txpush_begin_def txpush_wire_def txpush_written_def
  txpush_finish_def push_buffer_def rx_header_eq rx_read_round_def rx_prbs_check_def initiate_relay_def
  initiate_def rx_ready_def rx_write_bytes_def rx_written_def rx_opcode_def rx_next_def STDOUT_FILENO_def

lemmas start_simps = sys0_def world0_def pool1_def pool3_def plain_rxconf_def phrase_bytes_def plain_globals_def
  blank_worker_def blank_pkt_def plain_ioconf_def

lemma small_kfootsize: "2 \<le> kfootsize" "2 < kfootsize" "(2::int) \<le> int kfootsize" "2 \<le> maxbsize" "Suc (Suc 0) < kfootsize" "Suc (Suc 0) \<le> kfootsize"
  by (simp_all add: kfootsize_def maxbsize_def)

lemma transfer1_run:
  "\<exists>t. calm_run world0 transfer1 (sys0 [Data [7, 8]]) = Some t \<and> rx_poll (rxc t) \<and>
     out t = [7, 8] \<and> in_turn (rpcs t 0) \<and> next_leg (rxc t) = 1 \<and> length (legs t) = 2"
  by (simp add: transfer1_def connect1_def feed1_def push1_def sink1_def run_simps conf_simps leg_simps start_simps
     small_kfootsize fill_bytes fill_empty rx_poll_def overwrite_0)

lemma transfer1_reach:
  obtains t where "calm_reach world0 [7, 8] t" "rx_poll (rxc t)" "out t = [7, 8]" "in_turn (rpcs t 0)"
    "next_leg (rxc t) = 1" "length (legs t) = 2"
proof -
  obtain t where t: "calm_run world0 transfer1 (sys0 [Data [7, 8]]) = Some t"
    and rest: "rx_poll (rxc t)" "out t = [7, 8]" "in_turn (rpcs t 0)" "next_leg (rxc t) = 1" "length (legs t) = 2"
    using transfer1_run by blast
  have "calm_reach world0 [7, 8] (sys0 [Data [7, 8]])" using sys0_reach [of "[Data [7, 8]]" world0] by simp
  from calm_run_reach [OF t this [unfolded calm_reach_def]] rest show thesis
    by (intro that) (simp_all add: calm_reach_def)
qed

section \<open>The scan, step by step\<close>

lemma run_append: "run su (as @ bs) s = (case run su as s of None \<Rightarrow> None | Some t \<Rightarrow> run su bs t)"
  by (induction su as s rule: run.induct) (auto split: option.splits sum.splits)

lemma run_replicate_Suc:
  "run su (replicate (Suc k) a) s = (case run su (replicate k a) s of None \<Rightarrow> None | Some t \<Rightarrow> run su [a] t)"
proof -
  have "replicate (Suc k) a = replicate k a @ [a]" by (simp add: replicate_append_same)
  then show ?thesis by (simp only: run_append)
qed

lemma scan_skips:
  assumes "ipcs s = Iscan 0" "int k \<le> worker_count (txc s)" "\<forall>j < k. tx_state (txc s) j \<noteq> CHR ''i''"
  shows "run su (replicate k IngestScan) s = Some (s\<lparr>ipcs := Iscan k\<rparr>)"
  using assms(2,3)
proof (induction k)
  case 0
  then show ?case using assms(1) by (cases s) simp
next
  case (Suc k)
  then have "run su (replicate k IngestScan) s = Some (s\<lparr>ipcs := Iscan k\<rparr>)" by simp
  with Suc.prems show ?case by (simp add: run_replicate_Suc ingest_scan_def del: replicate.simps)
qed



end
