(* ===== verification/Vm_Main.thy ===== *)
theory Vm_Main
  imports Vm_Args Vm_Schedules
begin

text \<open>
  \<^verbatim>\<open>main\<close> after the command line: starting both roles, the tunnel's ends and the relay, then polling until
  every role the process plays reports its end. What two processes have set up is a start
  state of the running program of \<open>Vm_Pipeline\<close>.
\<close>

section \<open>Starting\<close>

text \<open>What the kernel answers while the process starts; \<open>bo_rx\<close> and \<open>bo_io\<close> are the socket calls of the
  receiver's set-up and of the tunnel's ends.\<close>

record boot =
  bo_rx :: sockenv
  bo_rx_thr :: "nat \<Rightarrow> int"
  bo_rx_err :: "nat \<Rightarrow> errno"
  bo_clock :: "timespec option"
  bo_mem :: "nat \<Rightarrow> bool"
  bo_tx_thr :: "nat \<Rightarrow> int"
  bo_io :: sockenv
  bo_io_clock :: "timespec option"
  bo_relay_thr :: int

definition is_mode :: "u32 \<Rightarrow> globals \<Rightarrow> bool" where
  "is_mode m g \<longleftrightarrow> mode g AND m \<noteq> 0"

text \<open>The boolean says whether the ingest thread was launched.\<close>

definition main_start :: "boot \<Rightarrow> pst \<Rightarrow> (globals \<times> txconf_s \<times> rxconf_s \<times> ioconf_s \<times> bool) res" where
  "main_start b s =
     (let g = ps_g s in
      bindE (if is_mode MODE_RX g then rx (bo_rx b) (bo_rx_thr b) (bo_rx_err b) (ps_rx s) else Inr (ps_rx s)) (\<lambda>rc.
      bindE (if is_mode MODE_TX g then tx (bo_clock b) (bo_mem b) (bo_tx_thr b) (ps_tx s) else Inr (ps_tx s)) (\<lambda>tc.
      bindE (terminate (bo_io b) (gverbose g) (bo_io_clock b) tc rc (ps_io s)) (\<lambda>(ret, tc, rc, io).
      bindE (assertE (ret \<ge> 0)) (\<lambda>_.
      if is_mode MODE_TX g \<and> initiate_port io = 0
      then bindE (initiate_relay (bo_io b) (bo_relay_thr b) g tc rc io) (\<lambda>(_, g, tc, rc, started).
             Inr (g, tc, rc, io, started))
      else Inr (g, tc, rc, io, False))))))"

section \<open>Polling\<close>

text \<open>
  One round calls \<^verbatim>\<open>tx_poll\<close>, which looks at the shared state until no worker is busy, and then
  \<^verbatim>\<open>rx_poll\<close>; a history holds what the rounds see. \<open>None\<close>: still polling when the history ends.
\<close>

fun main_poll :: "globals \<Rightarrow> (txconf_s list \<times> rxconf_s) list \<Rightarrow> int option" where
  "main_poll g [] = None"
| "main_poll g ((tcs, rc) # rounds) =
     (case if is_mode MODE_TX g then tx_poll tcs else Some 1 of
        None \<Rightarrow> None
      | Some txpoll_done \<Rightarrow>
          let rxpoll_done = (if is_mode MODE_RX g then of_bool (rx_poll rc) else 1) in
          if txpoll_done + rxpoll_done < (2 :: int) then main_poll g rounds else Some 0)"

section \<open>Properties\<close>

lemma tx_poll_value: "tx_poll cs = Some x \<Longrightarrow> x = 1 \<and> (\<exists>c \<in> set cs. \<not> tx_busy c \<and> input_eof c) \<or> x = 0"
  by (induction cs) (auto split: if_splits)

lemma main_poll_last:
  "main_poll g rounds = Some x \<Longrightarrow> x = 0 \<and> (\<exists>(tcs, rc) \<in> set rounds.
     (is_mode MODE_TX g \<longrightarrow> (\<exists>c \<in> set tcs. \<not> tx_busy c \<and> input_eof c)) \<and> (is_mode MODE_RX g \<longrightarrow> rx_poll rc))"
proof (induction g rounds rule: main_poll.induct)
  case (2 g tcs rc rounds)
  let ?t = "if is_mode MODE_TX g then tx_poll tcs else Some 1"
  let ?r = "if is_mode MODE_RX g then of_bool (rx_poll rc) else (1 :: int)"
  from "2.prems" obtain t where t: "?t = Some t" by (cases ?t) auto
  show ?case
  proof (cases "t + ?r < 2")
    case True
    with "2.prems" t have "main_poll g rounds = Some x" by simp
    with "2.IH" [OF t refl True] show ?thesis by auto
  next
    case False
    have "t = 0 \<or> t = 1" using t tx_poll_value [of tcs t] by (auto split: if_splits)
    moreover have "?r = 0 \<or> ?r = 1" by simp
    ultimately have "t = 1" "?r = 1" using False by auto
    moreover have "x = 0" using "2.prems" t False by simp
    moreover have "is_mode MODE_TX g \<longrightarrow> (\<exists>c \<in> set tcs. \<not> tx_busy c \<and> input_eof c)"
      using t \<open>t = 1\<close> tx_poll_value [of tcs 1] by auto
    ultimately show ?thesis by (auto split: if_splits)
  qed
qed simp



text \<open>
  A transmitting process that reads its standard input and a receiving one that writes its standard
  output, joined: the state of the running program right after both have started.
\<close>

definition launched :: "txconf_s \<Rightarrow> globals \<Rightarrow> txconf_s \<Rightarrow> rxconf_s \<Rightarrow> ioconf_s \<Rightarrow> rd_event list \<Rightarrow> sys" where
  "launched tc g rtc rc io evs = \<lparr>txc = tc, wpcs = (\<lambda>_. Wconn), ipcs = Itop, ig = ingest_begin, inp = evs,
     hello = (\<lambda>_. []), reply = (\<lambda>_. []), backlog = [], owner = (\<lambda>_. None), chan = (\<lambda>_. []),
     rxc = rc, rpcs = (\<lambda>_. Rtop), rbuf = (\<lambda>_. replicate kfootsize 0), rxsum = 0xff, rxg = g,
     rtxc = rtc, rioc = io, out = [], legs = []\<rparr>"

definition boots :: "boot \<Rightarrow> bool" where
  "boots b \<longleftrightarrow> (\<exists>sock. tcp_recieve_prep (bo_rx b) 0 = Inr (0, sock)) \<and> bo_rx_thr b = (\<lambda>_. 0) \<and> bo_rx_err b = (\<lambda>_. 0) \<and>
     bo_clock b \<noteq> None \<and> bo_mem b = (\<lambda>_. True) \<and> bo_tx_thr b = (\<lambda>_. 0) \<and> bo_relay_thr b = 0"

lemma parsed_wf: "parse_args b argv = Some (Inr s) \<Longrightarrow> wf_pst s"
  using parse_args_returns [of b argv] by auto

lemma start_transmitter:
  assumes wf: "wf_pst s" and m: "is_mode MODE_TX (ps_g s)" "\<not> is_mode MODE_RX (ps_g s)"
    and io: "terminate_port (ps_io s) = 0" "initiate_port (ps_io s) = 0" and b: "boots b"
  shows "\<exists>tc rc. main_start b s = Inr ((ps_g s)\<lparr>ginitiator_oneshot := 1\<rparr>, tc, rc, ps_io s, True) \<and> wf_txconf tc \<and> \<not> tx_done tc \<and> \<not> input_eof tc \<and>
     input_fd tc = STDIN_FILENO \<and> worker_count tc = worker_count (ps_tx s) \<and> 0 < target_port_count tc \<and>
     (\<forall>w. int w < worker_count tc \<longrightarrow> tx_state tc w = CHR ''L'' \<and> length (tw_buffer (worker tc w)) = kfootsize)"
proof -
  obtain t where t: "bo_clock b = Some t" using b by (auto simp: boots_def)
  have w: "length (tx_workers (ps_tx s)) = kthreadmax" "worker_count (ps_tx s) \<le> int kthreadmax"
    "0 < target_port_count (ps_tx s)" "ginitiator_oneshot (ps_g s) = 0"
    using wf m by (auto simp: wf_pst_def is_mode_def)
  from tx_starts [OF w(1,2), of t] obtain c where c: "tx (Some t) (\<lambda>_. True) (\<lambda>_. 0) (ps_tx s) = Inr c" "wf_txconf c"
    "\<not> tx_done c" "\<not> input_eof c" "worker_count c = worker_count (ps_tx s)" "target_port_count c = target_port_count (ps_tx s)"
    "\<forall>w < kthreadmax. if int w < worker_count (ps_tx s)
       then tx_state c w = CHR ''L'' \<and> tw_buffer (worker c w) = replicate kfootsize 0 else tx_state c w = CHR ''E''" by blast
  have "tx_state c w = CHR ''L'' \<and> tw_buffer (worker c w) = replicate kfootsize 0" if "int w < worker_count c" for w
    using c(5,7) w(2) that by (auto split: if_splits)
  with c t w m io b show ?thesis
    by (simp add: main_start_def boots_def terminate_def initiate_relay_def initiate_def STDIN_FILENO_def STDOUT_FILENO_def
        wf_txconf_def tx_state_def worker_def)
qed

lemma start_receiver:
  assumes wf: "wf_pst s" and m: "is_mode MODE_RX (ps_g s)" "\<not> is_mode MODE_TX (ps_g s)"
    and io: "terminate_port (ps_io s) = 0" and b: "boots b"
  shows "\<exists>tc rc. main_start b s = Inr (ps_g s, tc, rc, ps_io s, False) \<and> length (rx_workers rc) = kthreadmax \<and>
     (\<forall>r < kthreadmax. rw_id (rxw rc r) = int r) \<and> next_leg rc = 0 \<and> \<not> done_mbox rc"
proof -
  have w: "length (rx_workers (ps_rx s)) = kthreadmax" using wf by (simp add: wf_pst_def)
  obtain sock where sock: "tcp_recieve_prep (bo_rx b) 0 = Inr (0, sock)" using b by (auto simp: boots_def)
  from rx_starts [OF w sock] obtain c where "rx (bo_rx b) (\<lambda>_. 0) (\<lambda>_. 0) (ps_rx s) = Inr c" "next_leg c = 0" "\<not> rx_poll c"
    "length (rx_workers c) = kthreadmax" "\<forall>j < kthreadmax. rw_id (rxw c j) = int j" by blast
  with m io b show ?thesis
    by (auto simp: main_start_def boots_def terminate_def rx_poll_def STDIN_FILENO_def)
qed

lemma joined_start:
  assumes t: "wf_pst t" "is_mode MODE_TX (ps_g t)" "\<not> is_mode MODE_RX (ps_g t)" "0 < worker_count (ps_tx t)"
      "terminate_port (ps_io t) = 0" "initiate_port (ps_io t) = 0" "boots b"
    and r: "wf_pst r" "is_mode MODE_RX (ps_g r)" "\<not> is_mode MODE_TX (ps_g r)" "terminate_port (ps_io r) = 0" "boots b'"
    and evs: "fd_steady evs"
  obtains tc rc tc' rc' where
    "main_start b t = Inr ((ps_g t)\<lparr>ginitiator_oneshot := 1\<rparr>, tc, rc, ps_io t, True)" "input_fd tc = STDIN_FILENO"
    "main_start b' r = Inr (ps_g r, tc', rc', ps_io r, False)" "sys_start su (launched tc (ps_g r) tc' rc' (ps_io r) evs)"
proof -
  from start_transmitter [OF t(1-3,5-7)] obtain tc rc where
    tx: "main_start b t = Inr ((ps_g t)\<lparr>ginitiator_oneshot := 1\<rparr>, tc, rc, ps_io t, True)" "wf_txconf tc" "\<not> tx_done tc"
    "\<not> input_eof tc" "input_fd tc = STDIN_FILENO" "worker_count tc = worker_count (ps_tx t)" "0 < target_port_count tc"
    "\<forall>w. int w < worker_count tc \<longrightarrow> tx_state tc w = CHR ''L'' \<and> length (tw_buffer (worker tc w)) = kfootsize" by blast
  from start_receiver [OF r] obtain tc' rc' where
    rx: "main_start b' r = Inr (ps_g r, tc', rc', ps_io r, False)" "length (rx_workers rc') = kthreadmax"
    "\<forall>r < kthreadmax. rw_id (rxw rc' r) = int r" "next_leg rc' = 0" "\<not> done_mbox rc'" by blast
  have "ginitiator_oneshot (ps_g r) = 0" using r(1) by (simp add: wf_pst_def)
  with tx rx t(4) evs have "sys_start su (launched tc (ps_g r) tc' rc' (ps_io r) evs)"
    by (simp add: sys_start_def launched_def)
  with tx(1,5) rx(1) show thesis by (rule that)
qed

text \<open>C12: from the command line to the running program: two command lines that are accepted, one for a transmitter
  with at least one worker and one for a receiver, neither with a tunnel port, set up two
  processes that together are a start state of the running program, the transmitter's ingest
  thread launched and reading standard input.\<close>

theorem main_starts_pipeline:
  assumes "parse_args d argv = Some (Inr t)" "is_mode MODE_TX (ps_g t)" "\<not> is_mode MODE_RX (ps_g t)" "0 < worker_count (ps_tx t)"
    and "parse_args d' argv' = Some (Inr r)" "is_mode MODE_RX (ps_g r)" "\<not> is_mode MODE_TX (ps_g r)"
    and "terminate_port (ps_io t) = 0" "initiate_port (ps_io t) = 0" "terminate_port (ps_io r) = 0" "initiate_port (ps_io r) = 0"
    and "boots b" "boots b'" "fd_steady evs"
  shows "\<exists>g tc rc g' tc' rc'. main_start b t = Inr (g, tc, rc, ps_io t, True) \<and> input_fd tc = STDIN_FILENO \<and>
     main_start b' r = Inr (g', tc', rc', ps_io r, False) \<and> sys_start su (launched tc g' tc' rc' (ps_io r) evs)"
proof -
  from joined_start [OF parsed_wf [OF assms(1)] assms(2-4,8,9,12) parsed_wf [OF assms(5)] assms(6,7,10,13,14), of su]
  obtain tc rc tc' rc' where
    "main_start b t = Inr ((ps_g t)\<lparr>ginitiator_oneshot := 1\<rparr>, tc, rc, ps_io t, True)" "input_fd tc = STDIN_FILENO"
    "main_start b' r = Inr (ps_g r, tc', rc', ps_io r, False)" "sys_start su (launched tc (ps_g r) tc' rc' (ps_io r) evs)" .
  then show ?thesis
    by (intro exI [of _ "(ps_g t)\<lparr>ginitiator_oneshot := 1\<rparr>"] exI [of _ tc] exI [of _ rc] exI [of _ "ps_g r"]
        exI [of _ tc'] exI [of _ rc']) simp
qed

definition boot0 :: boot where
  "boot0 = \<lparr>bo_rx = plain_env, bo_rx_thr = (\<lambda>_. 0), bo_rx_err = (\<lambda>_. 0), bo_clock = Some \<lparr>tv_sec = 1, tv_nsec = 2\<rparr>,
     bo_mem = (\<lambda>_. True), bo_tx_thr = (\<lambda>_. 0), bo_io = plain_env, bo_io_clock = None, bo_relay_thr = 0\<rparr>"

theorem main_starts_pipeline_witness:
  "\<exists>t r g tc rc g' tc' rc'. parse_args False [''viamillipede'', ''tx'', ''localhost'', decimal 12323] = Some (Inr t) \<and>
     parse_args False [''viamillipede'', ''rx'', decimal 12323] = Some (Inr r) \<and>
     main_start boot0 t = Inr (g, tc, rc, ps_io t, True) \<and> main_start boot0 r = Inr (g', tc', rc', ps_io r, False) \<and>
     sys_start world0 (launched tc g' tc' rc' (ps_io r) [Data [7, 8]])"
proof -
  obtain t where t: "parse_args False [''viamillipede'', ''tx'', ''localhost'', decimal 12323] = Some (Inr t)"
    "mode (ps_g t) = MODE_TX" "worker_count (ps_tx t) = 16" "ps_io t = plain_ioconf"
    using parse_tx [of "''localhost''" 12323] by (simp add: parse_start_def plain_globals_def plain_txconf_def)
  obtain r where r: "parse_args False [''viamillipede'', ''rx'', decimal 12323] = Some (Inr r)"
    "mode (ps_g r) = MODE_RX" "ps_io r = plain_ioconf"
    using parse_rx [of 12323] by (simp add: parse_start_def plain_globals_def)
  have b: "boots boot0" by (simp add: boots_def boot0_def tcp_recieve_prep_def plain_env_def)
  have m: "is_mode MODE_TX (ps_g t)" "\<not> is_mode MODE_RX (ps_g t)" "is_mode MODE_RX (ps_g r)" "\<not> is_mode MODE_TX (ps_g r)"
    using t r by (simp_all add: is_mode_def MODE_TX_def MODE_RX_def)
  have w: "0 < worker_count (ps_tx t)" using t by simp
  have p: "terminate_port (ps_io t) = 0" "initiate_port (ps_io t) = 0" "terminate_port (ps_io r) = 0" "initiate_port (ps_io r) = 0"
    using t r by (simp_all add: plain_ioconf_def)
  have e: "fd_steady [Data [7, 8]]" by simp
  from main_starts_pipeline [OF t(1) m(1,2) w r(1) m(3,4) p b b e, of world0] t(1) r(1) show ?thesis by blast
qed

end
