(* ===== verification/Vm_Link.thy ===== *)
theory Vm_Link
  imports Vm_Tx Vm_Rx
begin

text \<open>
  The checksum from end to end. The transmitter chains the checksum of every leg into the next one as the
  ingest thread numbers them; the receiver repeats the chain in the order of the sequencer.
\<close>

section \<open>The two chains\<close>

text \<open>
  The packets the ingest thread produces for buffers filled with \<open>n\<close> bytes, one after the other on worker
  \<open>w\<close>, and the receiver's checks of packets with the buffers they arrived in.
\<close>

fun link_tx :: "globals \<Rightarrow> nat \<Rightarrow> txconf_s \<Rightarrow> ingest \<Rightarrow> (byte list \<times> nat) list \<Rightarrow> millipacket_s list res option" where
  "link_tx g w c i [] = Some (Inr [])"
| "link_tx g w c i ((buf, n) # ls) =
     (case ingest_feed g w n (upd_worker (\<lambda>t. t\<lparr>tw_buffer := buf\<rparr>) w c) i of
        None \<Rightarrow> None
      | Some (Inl f) \<Rightarrow> Some (Inl f)
      | Some (Inr (c', i')) \<Rightarrow> map_option (\<lambda>r. bindE r (\<lambda>ps. Inr (tw_pkt (worker c' w) # ps))) (link_tx g w c' i' ls))"

fun link_rx :: "rxconf_s \<Rightarrow> u64 \<Rightarrow> (millipacket_s \<times> byte list) list \<Rightarrow> (rxconf_s \<times> u64) res option" where
  "link_rx c saved [] = Some (Inr (c, saved))"
| "link_rx c saved ((p, buf) # ls) =
     (case rx_opcode p buf c saved of
        None \<Rightarrow> None
      | Some (Inl f) \<Rightarrow> Some (Inl f)
      | Some (Inr (c', saved')) \<Rightarrow> link_rx c' saved' ls)"

lemma mix_foot: "n \<le> kfootsize \<Longrightarrow> \<exists>cks. mix seed buf (of_nat n) = Some cks"
proof -
  assume "n \<le> kfootsize"
  then have "unat (of_nat n :: u64) < 2 ^ 64 - 8" by (simp add: unat_of_nat_u64 kfootsize_def)
  then show ?thesis using mix_value by blast
qed

lemma feed_pkt:
  assumes "gchecksums g" "w < length (tx_workers c)" "tw_id (worker c w) < int kthreadmax"
    and "mix (ucast (saved_checksum i + ingest_leg_counter i)) buf (of_nat n) = Some cks"
  shows "\<exists>c'. ingest_feed g w n (upd_worker (\<lambda>t. t\<lparr>tw_buffer := buf\<rparr>) w c) i =
      Some (Inr (c', i\<lparr>saved_checksum := cks, ingest_leg_counter := ingest_leg_counter i + 1\<rparr>)) \<and>
     length (tx_workers c') = length (tx_workers c) \<and> tw_id (worker c' w) = tw_id (worker c w) \<and>
     tw_buffer (worker c' w) = buf \<and>
     tw_pkt (worker c' w) = (tw_pkt (worker c w))\<lparr>pkt_size := of_nat n, leg_id := ingest_leg_counter i,
       opcode := feed_more, checksum := cks\<rparr>"
  using assms
  by (simp add: ingest_feed_def feed_checksum_def start_worker_def tx_state_set_def Let_def)

lemma rx_opcode_sum:
  assumes "opcode p = feed_more" "checksum p \<noteq> 0" "mix (ucast (saved + leg_id p)) buf (pkt_size p) = Some cks"
  shows "rx_opcode p buf c saved = Some (if cks = checksum p then Inr (c, cks) else Inl Abort)"
  using assms by (simp add: rx_opcode_def feed_more_def end_of_millipede_def)

lemma link_ok:
  assumes "gchecksums g" "w < length (tx_workers c)" "tw_id (worker c w) < int kthreadmax"
    and "list_all2 (\<lambda>(buf, n) got. n \<le> kfootsize \<and> take 8 got = take 8 buf) ls gots"
  shows "\<exists>ps. link_tx g w c i ls = Some (Inr ps) \<and> length ps = length ls \<and>
     ((\<forall>p \<in> set ps. checksum p \<noteq> 0) \<longrightarrow> (\<exists>s'. link_rx rc (saved_checksum i) (zip ps gots) = Some (Inr (rc, s'))))"
  using assms
proof (induction ls arbitrary: c i gots)
  case Nil
  then show ?case by simp
next
  case (Cons l ls)
  obtain buf n where l: "l = (buf, n)" by (cases l)
  from Cons.prems(4) l obtain got gots' where g: "gots = got # gots'" "n \<le> kfootsize" "take 8 got = take 8 buf"
    "list_all2 (\<lambda>(buf, n) got. n \<le> kfootsize \<and> take 8 got = take 8 buf) ls gots'" by (cases gots) auto
  let ?sd = "ucast (saved_checksum i + ingest_leg_counter i) :: u32"
  obtain cks where cks: "mix ?sd buf (of_nat n) = Some cks" using mix_foot [OF g(2)] by blast
  let ?i = "i\<lparr>saved_checksum := cks, ingest_leg_counter := ingest_leg_counter i + 1\<rparr>"
  from feed_pkt [OF Cons.prems(1-3) cks] obtain c' where
    f: "ingest_feed g w n (upd_worker (\<lambda>t. t\<lparr>tw_buffer := buf\<rparr>) w c) i = Some (Inr (c', ?i))"
    and c': "length (tx_workers c') = length (tx_workers c)" "tw_id (worker c' w) = tw_id (worker c w)"
    and p: "tw_pkt (worker c' w) = (tw_pkt (worker c w))\<lparr>pkt_size := of_nat n, leg_id := ingest_leg_counter i,
       opcode := feed_more, checksum := cks\<rparr>" by blast
  from Cons.IH [OF Cons.prems(1) _ _ g(4), of c' ?i] c' Cons.prems(2,3) obtain ps where
    ps: "link_tx g w c' ?i ls = Some (Inr ps)" "length ps = length ls"
    "(\<forall>p \<in> set ps. checksum p \<noteq> 0) \<longrightarrow> (\<exists>s'. link_rx rc cks (zip ps gots') = Some (Inr (rc, s')))" by auto
  have "mix ?sd got (of_nat n) = Some cks" using cks mix_sees_first_word [OF g(3)] by simp
  then have "checksum (tw_pkt (worker c' w)) \<noteq> 0 \<Longrightarrow>
      rx_opcode (tw_pkt (worker c' w)) got rc (saved_checksum i) = Some (Inr (rc, cks))"
    by (subst rx_opcode_sum) (simp_all add: p)
  with f ps show ?case by (simp add: l g(1))
qed

text \<open>C13: the two checksum chains agree: when every leg's buffer arrives with its first eight bytes unchanged and
  no checksum happens to be 0, the receiver accepts every leg the transmitter produced, however
  many there are (and whatever happened to the bytes after the first eight).\<close>

theorem checksum_chains_agree:
  assumes "gchecksums g" "w < length (tx_workers c)" "tw_id (worker c w) < int kthreadmax"
    and "list_all2 (\<lambda>(buf, n) got. n \<le> kfootsize \<and> take 8 got = take 8 buf) ls gots"
  shows "\<exists>ps. link_tx g w c ingest_begin ls = Some (Inr ps) \<and> length ps = length ls \<and>
     ((\<forall>p \<in> set ps. checksum p \<noteq> 0) \<longrightarrow> (\<exists>s'. link_rx rc 0xff (zip ps gots) = Some (Inr (rc, s'))))"
  using link_ok [OF assms, of ingest_begin rc] by (simp add: ingest_begin_def)


definition ck_globals :: globals where
  "ck_globals = plain_globals\<lparr>gchecksums := True\<rparr>"

definition word_bytes :: "u64 \<Rightarrow> byte list" where
  "word_bytes x = le_bytes 8 x"

lemma load64_word_bytes [simp]: "load64 (word_bytes x @ bs) 0 = x"
  by (simp add: word_bytes_def)

lemma pool3_slot: "0 < length (tx_workers pool3)" "tw_id (worker pool3 0) < int kthreadmax"
  by (simp_all add: pool3_def worker_def blank_worker_def kthreadmax_def)

text \<open>The fields of the packets in closed form.\<close>

definition leg_sum :: "u64 \<Rightarrow> u64 \<Rightarrow> byte list \<Rightarrow> nat \<Rightarrow> u64" where
  "leg_sum saved leg buf n = ucast (ucast (saved + leg) + of_nat (n div 8 + 1) * ucast (load64 buf 0)
     + of_nat (4 * (n div 8) * (n div 8 + 1)) :: u32)"

fun link_pkts :: "u64 \<Rightarrow> u64 \<Rightarrow> (byte list \<times> nat) list \<Rightarrow> millipacket_s list \<Rightarrow> bool" where
  "link_pkts saved leg [] ps \<longleftrightarrow> ps = []"
| "link_pkts saved leg ((buf, n) # ls) ps \<longleftrightarrow>
     (\<exists>p qs. ps = p # qs \<and> leg_id p = leg \<and> pkt_size p = of_nat n \<and> opcode p = feed_more \<and>
        checksum p = leg_sum saved leg buf n \<and> link_pkts (leg_sum saved leg buf n) (leg + 1) ls qs)"

lemma mix_leg: "n \<le> kfootsize \<Longrightarrow> mix (ucast (saved + leg)) buf (of_nat n) = Some (leg_sum saved leg buf n)"
proof -
  assume "n \<le> kfootsize"
  then have "unat (of_nat n :: u64) = n" "n < 2 ^ 64 - 8" by (auto simp: unat_of_nat_u64 kfootsize_def)
  then show ?thesis using mix_value [of "of_nat n" "ucast (saved + leg)" buf] by (simp only: leg_sum_def)
qed

lemma link_tx_pkts:
  assumes "gchecksums g" "w < length (tx_workers c)" "tw_id (worker c w) < int kthreadmax"
    and "\<forall>l \<in> set ls. snd l \<le> kfootsize" "link_tx g w c i ls = Some (Inr ps)"
  shows "link_pkts (saved_checksum i) (ingest_leg_counter i) ls ps"
  using assms
proof (induction ls arbitrary: c i ps)
  case (Cons l ls)
  obtain buf n where l: "l = (buf, n)" by (cases l)
  let ?sm = "leg_sum (saved_checksum i) (ingest_leg_counter i) buf n"
  have n: "n \<le> kfootsize" using Cons.prems(4) l by simp
  from feed_pkt [OF Cons.prems(1-3) mix_leg [OF n]] obtain c' where
    f: "ingest_feed g w n (upd_worker (\<lambda>t. t\<lparr>tw_buffer := buf\<rparr>) w c) i =
        Some (Inr (c', i\<lparr>saved_checksum := ?sm, ingest_leg_counter := ingest_leg_counter i + 1\<rparr>))"
    and c': "length (tx_workers c') = length (tx_workers c)" "tw_id (worker c' w) = tw_id (worker c w)"
    and p: "tw_pkt (worker c' w) = (tw_pkt (worker c w))\<lparr>pkt_size := of_nat n, leg_id := ingest_leg_counter i,
       opcode := feed_more, checksum := ?sm\<rparr>" by blast
  from Cons.prems(5) f obtain qs where qs: "ps = tw_pkt (worker c' w) # qs"
    "link_tx g w c' (i\<lparr>saved_checksum := ?sm, ingest_leg_counter := ingest_leg_counter i + 1\<rparr>) ls = Some (Inr qs)"
    by (auto simp: l res_iff)
  from Cons.IH [OF Cons.prems(1) _ _ _ qs(2)] c' Cons.prems(2-4)
  have "link_pkts ?sm (ingest_leg_counter i + 1) ls qs" by simp
  then show ?case by (simp add: l qs(1) p)
qed simp

lemma link_tx_total:
  assumes "gchecksums g" "w < length (tx_workers c)" "tw_id (worker c w) < int kthreadmax" "\<forall>l \<in> set ls. snd l \<le> kfootsize"
  obtains ps where "link_tx g w c ingest_begin ls = Some (Inr ps)" "link_pkts 0xff 0 ls ps"
proof -
  have "list_all2 (\<lambda>(buf, n) got. n \<le> kfootsize \<and> take 8 got = take 8 buf) ls (map fst ls)"
    using assms(4) by (auto simp: list_all2_conv_all_nth split: prod.splits) (metis nth_mem snd_conv)
  from link_ok [OF assms(1-3) this] obtain ps where "link_tx g w c ingest_begin ls = Some (Inr ps)" by blast
  with link_tx_pkts [OF assms this] that show thesis by (simp add: ingest_begin_def)
qed

lemma rx_leg_sum:
  assumes "opcode p = feed_more" "checksum p \<noteq> 0" "pkt_size p = of_nat n" "n \<le> kfootsize"
  shows "rx_opcode p buf c saved =
     Some (if leg_sum saved (leg_id p) buf n = checksum p then Inr (c, checksum p) else Inl Abort)"
  using rx_opcode_sum [OF assms(1,2)] mix_leg [OF assms(4), of saved "leg_id p" buf] assms(3) by simp

theorem checksum_chains_agree_witness:
  "\<exists>ps s'. link_tx ck_globals 0 pool3 ingest_begin [(word_bytes 1 @ [9], 9), (word_bytes 2, 8)] = Some (Inr ps) \<and>
     link_rx plain_rxconf 0xff (zip ps [word_bytes 1 @ [9], word_bytes 2]) = Some (Inr (plain_rxconf, s'))"
proof -
  let ?ls = "[(word_bytes 1 @ [9], 9), (word_bytes 2, 8)]" and ?gots = "[word_bytes 1 @ [9], word_bytes 2]"
  have cks: "gchecksums ck_globals" by (simp add: ck_globals_def)
  have "list_all2 (\<lambda>(buf, n) got. n \<le> kfootsize \<and> take 8 got = take 8 buf) ?ls ?gots"
    by (simp add: kfootsize_def)
  from checksum_chains_agree [OF cks pool3_slot this, of plain_rxconf] obtain ps where
    ps: "link_tx ck_globals 0 pool3 ingest_begin ?ls = Some (Inr ps)"
    "(\<forall>p \<in> set ps. checksum p \<noteq> 0) \<longrightarrow> (\<exists>s'. link_rx plain_rxconf 0xff (zip ps ?gots) = Some (Inr (plain_rxconf, s')))" by blast
  have "link_pkts 0xff 0 ?ls ps"
    using link_tx_pkts [OF cks pool3_slot _ ps(1)] by (simp add: ingest_begin_def kfootsize_def)
  then have "\<forall>p \<in> set ps. checksum p \<noteq> 0"
    using load64_word_bytes [of 2 "[]"] by (auto simp: leg_sum_def)
  with ps show ?thesis by blast
qed


section \<open>Where the chains part\<close>

text \<open>C27: a checksum that happens to be 0 breaks the chain: the receiver takes it for an absent one and keeps its
  saved value, while the transmitter continues from 0. Two legs of sixteen bytes exist that
  are delivered byte for byte and still abort the receiver on the second.\<close>

theorem zero_checksum_desync:
  "\<exists>a b ps. length a = 16 \<and> length b = 16 \<and>
     link_tx ck_globals 0 pool3 ingest_begin [(a, 16), (b, 16)] = Some (Inr ps) \<and>
     link_rx plain_rxconf 0xff (zip ps [a, b]) = Some (Inl Abort)"
proof -
  let ?a = "word_bytes 0xFFFFFFA3 @ word_bytes 0" and ?b = "word_bytes 1 @ word_bytes 0"
  have n: "16 \<le> kfootsize" by (simp add: kfootsize_def)
  have cks: "gchecksums ck_globals" by (simp add: ck_globals_def)
  have "\<forall>l \<in> set [(?a, 16), (?b, 16)]. snd l \<le> kfootsize" using n by simp
  from link_tx_total [OF cks pool3_slot this]
  obtain ps where ps: "link_tx ck_globals 0 pool3 ingest_begin [(?a, 16), (?b, 16)] = Some (Inr ps)"
    "link_pkts 0xff 0 [(?a, 16), (?b, 16)] ps" .
  from ps(2) obtain p q where pq: "ps = [p, q]" "opcode p = feed_more" "checksum p = 0"
    "leg_id q = 1" "pkt_size q = of_nat 16" "opcode q = feed_more" "checksum q = 28"
    by (auto simp: leg_sum_def)
  have "rx_opcode p ?a plain_rxconf 0xff = Some (Inr (plain_rxconf, 0xff))"
    using pq by (simp add: rx_opcode_def feed_more_def end_of_millipede_def)
  moreover have "rx_opcode q ?b plain_rxconf 0xff = Some (Inl Abort)"
    using pq by (subst rx_leg_sum [OF pq(6) _ pq(5) n]) (simp_all add: leg_sum_def)
  ultimately have "link_rx plain_rxconf 0xff (zip ps [?a, ?b]) = Some (Inl Abort)" using pq(1) by simp
  moreover have "length ?a = 16" "length ?b = 16" by (simp_all add: word_bytes_def)
  ultimately show ?thesis using ps(1) by blast
qed

text \<open>C29: a leg shorter than eight bytes is checked against memory that was never sent: the checksum reads eight
  bytes of the buffer, so a one-byte leg whose byte arrives intact aborts the receiver when the rest of the
  two buffers differs.\<close>

theorem short_leg_checksum_aborts:
  "\<exists>a b ps. take 1 a = take 1 b \<and> link_tx ck_globals 0 pool3 ingest_begin [(a, 1)] = Some (Inr ps) \<and>
     link_rx plain_rxconf 0xff (zip ps [b]) = Some (Inl Abort)"
proof -
  let ?a = "word_bytes 0x105" and ?b = "word_bytes 0x5"
  have n: "1 \<le> kfootsize" by (simp add: kfootsize_def)
  have cks: "gchecksums ck_globals" by (simp add: ck_globals_def)
  note ld = load64_word_bytes [of _ "[]", simplified]
  have "\<forall>l \<in> set [(?a, 1)]. snd l \<le> kfootsize" using n by simp
  from link_tx_total [OF cks pool3_slot this]
  obtain ps where ps: "link_tx ck_globals 0 pool3 ingest_begin [(?a, 1)] = Some (Inr ps)" "link_pkts 0xff 0 [(?a, 1)] ps" .
  from ps(2) obtain p where p: "ps = [p]" "opcode p = feed_more" "leg_id p = 0" "pkt_size p = of_nat 1" "checksum p = 516"
    by (auto simp: leg_sum_def ld)
  have "rx_opcode p ?b plain_rxconf 0xff = Some (Inl Abort)"
    using p by (subst rx_leg_sum [OF p(2) _ p(4) n]) (simp_all add: leg_sum_def ld)
  moreover have "take 1 ?a = take 1 ?b" by (simp add: word_bytes_def le_bytes_def)
  ultimately show ?thesis using ps(1) p(1) by (intro exI [of _ ?a] exI [of _ ?b] exI [of _ ps]) simp
qed


lemma load64_zeros: "load64 (replicate n 0) 0 = 0"
proof -
  have "le_word (replicate k 0) = 0" for k by (induction k) simp_all
  then show ?thesis by (simp add: load64_def)
qed

lemma upd_worker_same: "f (worker c w) = worker c w \<Longrightarrow> upd_worker f w c = c"
  by (simp add: upd_worker_def worker_def list_update_id)

lemma load64_prbs_gen: "length buf = kfootsize \<Longrightarrow> load64 (prbs_gen buf p kfootsize) 0 = p"
  using load64_prbs_bytes [of 0 0 "kfootsize div 8" p "[]"] prbs_gen_eq [of kfootsize buf p]
  by (simp add: kfootsize_def prbs_sequence_def)

lemma ucast_u32_inj: "(ucast (a :: u32) :: u64) = ucast b \<longleftrightarrow> a = b"
  by (metis ucast_u32_u64_u32)

lemma foot_multiplier: "of_nat (kfootsize div 8 + 1) * s = 0 \<Longrightarrow> s = (0 :: u32)"
proof -
  assume "of_nat (kfootsize div 8 + 1) * s = 0"
  then have zero: "(262145 :: u32) * s = 0" by (simp add: kfootsize_def)
  have inv: "(4294705153 :: u32) * 262145 = 1" by simp
  have "s = (4294705153 * 262145) * s" by (simp only: inv mult_1)
  also have "\<dots> = 4294705153 * (262145 * s)" by (rule mult.assoc)
  finally show ?thesis by (simp only: zero mult_zero_right)
qed

text \<open>C28: checksums and prbs mode do not work together: the ingest thread takes the checksum of the buffer before the
  worker fills it with the generated payload, so the first leg of a run with both options aborts
  the receiver, for every seed that is not a multiple of \<open>2 ^ 32\<close>.\<close>

theorem prbs_checksums_clash:
  assumes "gchecksums g" "(ucast (gprbs_seed g) :: u32) \<noteq> 0" "w < length (tx_workers c)"
    "tw_id (worker c w) < int kthreadmax" "tw_buffer (worker c w) = replicate kfootsize 0"
  shows "\<exists>c' i'. ingest_feed g w kfootsize c ingest_begin = Some (Inr (c', i')) \<and>
     rx_opcode (tw_pkt (worker c' w)) (push_buffer g (worker c' w)) rc 0xff = Some (Inl Abort)"
proof -
  let ?buf = "replicate kfootsize (0 :: byte)" and ?s = "ucast (gprbs_seed g) :: u32"
  have pos: "gprbs_seed g > 0" using assms(2) by (auto simp: word_gt_0)
  have same: "upd_worker (\<lambda>t. t\<lparr>tw_buffer := ?buf\<rparr>) w c = c" by (rule upd_worker_same) (simp add: assms(5) [symmetric])
  have "mix (ucast (saved_checksum ingest_begin + ingest_leg_counter ingest_begin)) ?buf (of_nat kfootsize) =
      Some (leg_sum 0xff 0 ?buf kfootsize)"
    using mix_leg [of kfootsize 255 0 ?buf] by (simp add: ingest_begin_def)
  from feed_pkt [OF assms(1,3,4) this] obtain c' i' where
    f: "ingest_feed g w kfootsize c ingest_begin = Some (Inr (c', i'))" and b: "tw_buffer (worker c' w) = ?buf"
    and p: "tw_pkt (worker c' w) = (tw_pkt (worker c w))\<lparr>pkt_size := of_nat kfootsize, leg_id := 0,
       opcode := feed_more, checksum := leg_sum 0xff 0 ?buf kfootsize\<rparr>"
    by (auto simp: same ingest_begin_def)
  have pb: "load64 (push_buffer g (worker c' w)) 0 = gprbs_seed g"
    using pos by (simp add: push_buffer_def b p load64_prbs_gen)
  have "leg_sum 0xff 0 ?buf kfootsize \<noteq> 0" by (simp add: leg_sum_def load64_zeros kfootsize_def)
  moreover have "leg_sum 0xff 0 (push_buffer g (worker c' w)) kfootsize \<noteq> leg_sum 0xff 0 ?buf kfootsize"
  proof
    assume "leg_sum 0xff 0 (push_buffer g (worker c' w)) kfootsize = leg_sum 0xff 0 ?buf kfootsize"
    then have "of_nat (kfootsize div 8 + 1) * ?s = 0"
      by (simp add: leg_sum_def pb load64_zeros ucast_u32_inj)
    with foot_multiplier assms(2) show False by blast
  qed
  ultimately have "rx_opcode (tw_pkt (worker c' w)) (push_buffer g (worker c' w)) rc 0xff = Some (Inl Abort)"
    by (subst rx_leg_sum [where n = kfootsize]) (simp_all add: p)
  with f show ?thesis by blast
qed


theorem prbs_checksums_clash_witness:
  "\<exists>c' i'. ingest_feed (ck_globals\<lparr>gprbs_seed := 9\<rparr>) 0 kfootsize
       (upd_worker (\<lambda>t. t\<lparr>tw_buffer := replicate kfootsize 0\<rparr>) 0 pool3) ingest_begin = Some (Inr (c', i')) \<and>
     rx_opcode (tw_pkt (worker c' 0)) (push_buffer (ck_globals\<lparr>gprbs_seed := 9\<rparr>) (worker c' 0)) plain_rxconf 0xff =
       Some (Inl Abort)"
  by (rule prbs_checksums_clash) (use pool3_slot in \<open>simp_all add: ck_globals_def\<close>)

end
