(* ===== verification/Vm_Faults.thy ===== *)
theory Vm_Faults
  imports Vm_Schedules
begin

text \<open>
  No thread of either process stops with a fault: when both sides were started with matching
  options, no assertion fails and no error exit is taken in any state a calm run reaches.
\<close>

section \<open>Matching options\<close>

text \<open>
  The peers agree on the check phrase and the prbs seed, checksums are off, and the receiver's output is
  its standard output or an accepted connection. None of this changes during a run.
\<close>

definition peers :: "world \<Rightarrow> sys \<Rightarrow> bool" where
  "peers su s \<longleftrightarrow> length (tx_phrase su) = 4 \<and> rx_phrase su = tx_phrase su \<and> \<not> gchecksums (su_g su) \<and>
     gprbs_seed (rxg s) = gprbs_seed (su_g su) \<and> initiate_port (rioc s) \<le> 0"

lemma tx_options:
  "tx_connect su w s = Some (Inr t) \<Longrightarrow> rxg t = rxg s \<and> rioc t = rioc s"
  "tx_ok w s = Some (Inr t) \<Longrightarrow> rxg t = rxg s \<and> rioc t = rioc s"
  "tx_reset w s = Some (Inr t) \<Longrightarrow> rxg t = rxg s \<and> rioc t = rioc s"
  "tx_loop w s = Some (Inr t) \<Longrightarrow> rxg t = rxg s \<and> rioc t = rioc s"
  "tx_push su w s = Some (Inr t) \<Longrightarrow> rxg t = rxg s \<and> rioc t = rioc s"
  "tx_write w s = Some (Inr t) \<Longrightarrow> rxg t = rxg s \<and> rioc t = rioc s"
  "tx_fin w s = Some (Inr t) \<Longrightarrow> rxg t = rxg s \<and> rioc t = rioc s"
  by (auto simp: tx_connect_def tx_ok_def tx_reset_def tx_loop_def tx_push_def tx_write_def tx_fin_def after_Inr Let_def
      split: if_splits wpc.splits sum.splits sm_next.splits)

lemma ingest_options:
  "ingest_top s = Some (Inr t) \<Longrightarrow> rxg t = rxg s \<and> rioc t = rioc s"
  "ingest_scan s = Some (Inr t) \<Longrightarrow> rxg t = rxg s \<and> rioc t = rioc s"
  "ingest_read su s = Some (Inr t) \<Longrightarrow> rxg t = rxg s \<and> rioc t = rioc s"
  "ingest_load su s = Some (Inr t) \<Longrightarrow> rxg t = rxg s \<and> rioc t = rioc s"
  "ingest_send s = Some (Inr t) \<Longrightarrow> rxg t = rxg s \<and> rioc t = rioc s"
  by (auto simp: ingest_top_def ingest_scan_def ingest_read_def ingest_load_def load_leg_def ingest_send_def after_Inr
      split: if_splits ipc.splits option.splits)

lemma rx_options:
  "rx_top r s = Some (Inr t) \<Longrightarrow> rxg t = rxg s \<and> rioc t = rioc s"
  "rx_take r s = Some (Inr t) \<Longrightarrow> rxg t = rxg s \<and> rioc t = rioc s"
  "rx_hello su r s = Some (Inr t) \<Longrightarrow> rxg t = rxg s \<and> rioc t = rioc s"
  "rx_head r s = Some (Inr t) \<Longrightarrow> rxg t = rxg s \<and> rioc t = rioc s"
  "rx_read r k s = Some (Inr t) \<Longrightarrow> rxg t = rxg s \<and> rioc t = rioc s"
  "rx_check su r s = Some (Inr t) \<Longrightarrow> gprbs_seed (rxg t) = gprbs_seed (rxg s) \<and> rioc t = rioc s"
  "rx_seq r s = Some (Inr t) \<Longrightarrow> rxg t = rxg s \<and> rioc t = rioc s"
  "rx_write r s = Some (Inr t) \<Longrightarrow> rxg t = rxg s \<and> rioc t = rioc s"
  "rx_op r s = Some (Inr t) \<Longrightarrow> rxg t = rxg s \<and> rioc t = rioc s"
  "rx_step r s = Some (Inr t) \<Longrightarrow> rxg t = rxg s \<and> rioc t = rioc s"
  by (auto simp: rx_top_def rx_take_def rx_hello_def rx_head_def rx_read_def rx_check_def rx_seq_def rx_write_def rx_op_def
      rx_step_def rx_relay_def initiate_relay_def res_iff Let_def split: if_splits rpc.splits list.splits option.splits)

lemma peers_step:
  assumes "peers su s" "do_action su a s = Some (Inr t)"
  shows "peers su t"
  using assms
  by (cases a; simp only: do_action.simps rx_thread_Some)
     (auto simp: peers_def dest!: tx_options ingest_options rx_options)

section \<open>No fault\<close>

lemma after_Inr_ok [simp]: "after (Inr x) f = Some (Inr (f x))"
  by (simp add: after_def)

lemma tx_runs:
  assumes inv: "sys_inv su src s"
  shows "tx_connect su w s \<noteq> Some (Inl f)" "tx_ok w s \<noteq> Some (Inl f)" "tx_reset w s \<noteq> Some (Inl f)"
    "tx_loop w s \<noteq> Some (Inl f)"
proof -
  note i = sys_invD [OF inv]
  note sl = cfg_slots [OF i(1)]
  have tp: "0 < target_port_count (txc s)" using i(1) by (simp add: cfg_inv_def)
  show "tx_connect su w s \<noteq> Some (Inl f)"
    using tx_dial_connects [OF sl(1) tp, of w "\<lambda>_. tx_done (txc s)"] by (auto simp: tx_connect_def t_at_def)
  have "reply s w = [] \<or> reply s w = ''ok''" using i(5) by (simp add: conn_inv_def)
  then show "tx_ok w s \<noteq> Some (Inl f)" by (auto simp: tx_ok_def tx_shake_def)
  show "tx_reset w s \<noteq> Some (Inl f)" by (simp add: tx_reset_def)
  show "tx_loop w s \<noteq> Some (Inl f)"
  proof (cases "t_at s w Wloop")
    case True
    then have at: "int w < worker_count (txc s)" "wpcs s w = Wloop" by (auto simp: t_at_def)
    with tx_goodD [OF inv at(1)] sl(2,3) [OF at(1)] show ?thesis
      by (auto simp: tx_loop_def sm_switch_def tx_good_def tx_state_def Let_def)
  qed (simp add: tx_loop_def)
qed

lemma push_runs:
  assumes inv: "sys_inv su src s"
  shows "tx_push su w s \<noteq> Some (Inl f)" "tx_write w s \<noteq> Some (Inl f)" "tx_fin w s \<noteq> Some (Inl f)"
proof -
  note good = tx_goodD [OF inv]
  note sl = cfg_slots [OF sys_invD(1) [OF inv]]
  have fits: "unat (pkt_size (tw_pkt (worker (txc s) w))) \<le> kfootsize"
    if "int w < worker_count (txc s)" "wpcs s w = Wpush d" for d
    using good [OF that(1)] that(2) by (auto simp: tx_good_def dest: pkt_good_size)
  show "tx_push su w s \<noteq> Some (Inl f)"
    using fits sl(1) [of w] by (auto simp: tx_push_def t_at_def txpush_begin_eq split: wpc.splits)
  have whole: "tw_writeremainder (worker (txc s) w) + int sizeof_millipacket = int (length (txpush_wire (worker (txc s) w)))"
    if "int w < worker_count (txc s)" "wpcs s w = Wwrite d" for d
  proof -
    have g: "length (tw_buffer (worker (txc s) w)) = kfootsize"
      "tw_writeremainder (worker (txc s) w) = uint (pkt_size (tw_pkt (worker (txc s) w)))"
      "unat (pkt_size (tw_pkt (worker (txc s) w))) \<le> kfootsize"
      using good [OF that(1)] that(2) by (auto simp: tx_good_def dest: pkt_good_size)
    then show ?thesis by (simp add: txpush_wire_def min_absorb2)
  qed
  show "tx_write w s \<noteq> Some (Inl f)"
    using whole sl(1) [of w] by (auto simp: tx_write_def t_at_def txpush_written_eq Let_def split: wpc.splits)
  show "tx_fin w s \<noteq> Some (Inl f)"
    using good [of w] sl(1) [of w]
    by (auto simp: tx_fin_def t_at_def tx_good_def txpush_finish_eq split: wpc.splits)
qed


lemma ingest_runs:
  assumes inv: "sys_inv su src s"
  shows "ingest_top s \<noteq> Some (Inl f)" "ingest_scan s \<noteq> Some (Inl f)" "ingest_read su s \<noteq> Some (Inl f)"
    "ingest_load su s \<noteq> Some (Inl f)" "ingest_send s \<noteq> Some (Inl f)"
proof -
  note i = sys_invD [OF inv]
  note sl = cfg_slots [OF i(1)]
  have srv: "int w < worker_count (txc s)" if "serves (ipcs s) = Some w" for w
    using i(3) that by (simp add: ingest_inv_def)
  show "ingest_top s \<noteq> Some (Inl f)" by (simp add: ingest_top_def)
  show "ingest_scan s \<noteq> Some (Inl f)" using sl(2) by (auto simp: ingest_scan_def split: ipc.splits)
  show "ingest_read su s \<noteq> Some (Inl f)"
  proof (cases "\<exists>w. ipcs s = Ifill w")
    case True
    then obtain w where w: "ipcs s = Ifill w" ..
    have st: "fd_steady (inp s)" using i(2) by (simp add: source_inv_def)
    have "length (tw_buffer (worker (txc s) w)) = kfootsize"
      using tx_goodD [OF inv srv] w by (simp add: serves_def tx_good_def)
    then have "kfootsize \<le> length (tw_buffer (worker (txc s) w))" by simp
    from steady.bufferfill_takes [OF st kfootsize_pos this, of "gcharmode (su_g su)"] w show ?thesis
      by (auto simp: ingest_read_def ingest_fill_def)
  qed (auto simp: ingest_read_def split: ipc.splits)
  have "tw_id (worker (txc s) w) < int kthreadmax" "w < length (tx_workers (txc s))"
    if "serves (ipcs s) = Some w" for w using sl [OF srv [OF that]] by auto
  then show "ingest_load su s \<noteq> Some (Inl f)" "ingest_send s \<noteq> Some (Inl f)"
    by (auto simp: ingest_load_def load_leg_def ingest_send_def ingest_feed_def txshutdown_send_def start_worker_def
        serves_def Let_def feed_checksum_def split: ipc.splits option.splits)
qed

lemma rx_early_runs:
  assumes inv: "sys_inv su src s" and r: "r < kthreadmax" and p: "peers su s"
  shows "rx_top r s \<noteq> Some (Inl f)" "rx_take r s \<noteq> Some (Inl f)" "rx_hello su r s \<noteq> Some (Inl f)"
    "rx_head r s \<noteq> Some (Inl f)" "rx_read r k s \<noteq> Some (Inl f)"
proof -
  note i = sys_invD [OF inv]
  show "rx_top r s \<noteq> Some (Inl f)" by (auto simp: rx_top_def split: rpc.splits)
  have "rw_id (rxw (rxc s) r) < int kthreadmax" using i(1) r by (simp add: cfg_inv_def)
  then show "rx_take r s \<noteq> Some (Inl f)"
    by (auto simp: rx_take_def rx_accept_def Let_def split: rpc.splits list.splits)
  have "hello s c = tx_phrase su" if "rpcs s r = Rhello c" for c
  proof -
    have "owner s c = Some r" using owns [OF inv, of r c] that by simp
    then show ?thesis using i(5) by (auto simp: conn_inv_def)
  qed
  then show "rx_hello su r s \<noteq> Some (Inl f)"
    using p by (auto simp: rx_hello_def rx_handshake_def peers_def Let_def split: rpc.splits)
  show "rx_head r s \<noteq> Some (Inl f)"
  proof (cases "\<exists>c. rpcs s r = Rhead c \<and> sizeof_millipacket \<le> length (chan s c)")
    case True
    then obtain c where at: "rpcs s r = Rhead c" "sizeof_millipacket \<le> length (chan s c)" by blast
    then have "ch_good (su_g su) (legs s) (ended s) (chan s c)" using chan_at(2) [OF inv, of r c] by simp
    from ch_good_head [OF this at(2)] obtain q pl rest where f: "chan s c = frame_bytes (q, pl) @ rest"
      "pkt_good (su_g su) (legs s) (ended s) q pl" .
    have "take sizeof_millipacket (chan s c) = pkt_bytes q" by (simp add: f(1) frame_bytes_def)
    with at pkt_good_size [OF f(2)] show ?thesis by (auto simp: rx_head_def rx_header_eq)
  qed (auto simp: rx_head_def split: rpc.splits)
  show "rx_read r k s \<noteq> Some (Inl f)"
  proof (cases "\<exists>c q j n. rpcs s r = Rbody c q j n")
    case True
    then obtain c q j n where at: "rpcs s r = Rbody c q j n" by blast
    have "j + n \<le> kfootsize" using rx_goodD [OF inv, of r] at by (auto simp: rx_good_def dest: pkt_good_size)
    with at show ?thesis by (auto simp: rx_read_def rx_read_round_ok)
  qed (auto simp: rx_read_def split: rpc.splits)
qed


lemma prbs_check_passes:
  assumes inv: "sys_inv su src s" and p: "peers su s" and at: "rpcs s r = Rbody c q j 0"
  shows "rx_prbs_check (rxg s) q (rbuf s r) = Inr ()"
proof (cases "gprbs_seed (su_g su) = 0 \<or> opcode q = end_of_millipede")
  case True
  with p show ?thesis by (auto simp: rx_prbs_check_def peers_def)
next
  case False
  let ?seed = "gprbs_seed (su_g su)"
  have g: "length (rbuf s r) = kfootsize" "j = unat (pkt_size q)"
    "pkt_good (su_g su) (legs s) (ended s) q (take j (rbuf s r))"
    using rx_goodD [OF inv, of r] at by (auto simp: rx_good_def)
  have n: "unat (leg_id q) < length (legs s)" "\<not> (ended s \<and> Suc (unat (leg_id q)) = length (legs s))"
    "take j (rbuf s r) = legs s ! unat (leg_id q)"
    using g(3) False by (auto simp: pkt_good_def)
  have "take j (rbuf s r) = prbs_bytes (?seed + leg_id q) 0 (kfootsize div 8)"
    using sys_invD(12) [OF inv] False n by (simp add: prbs_inv_def)
  moreover have "take j (rbuf s r) = rbuf s r"
    using arg_cong [OF calculation, of length] g by (simp add: kfootsize_def)
  ultimately have "rbuf s r = prbs_gen (rbuf s r) (?seed + leg_id q) kfootsize" using prbs_gen_foot [OF g(1)] by simp
  then have "prbs_verify (rbuf s r) (?seed + leg_id q) kfootsize = 1"
    using prbs_verify_gen [of kfootsize "rbuf s r" "?seed + leg_id q"] g(1) by (simp add: kfootsize_def)
  then show ?thesis using p by (simp add: rx_prbs_check_def peers_def)
qed

lemma relay_runs:
  assumes inv: "sys_inv su src s" and p: "peers su s"
  shows "\<exists>x. rx_relay su q s = Inr x"
  using p by (auto simp: rx_relay_def initiate_relay_def initiate_def peers_def STDOUT_FILENO_def Let_def)

lemma rx_late_runs:
  assumes inv: "sys_inv su src s" and p: "peers su s"
  shows "rx_check su r s \<noteq> Some (Inl f)" "rx_seq r s \<noteq> Some (Inl f)" "rx_write r s \<noteq> Some (Inl f)"
    "rx_op r s \<noteq> Some (Inl f)" "rx_step r s \<noteq> Some (Inl f)"
proof -
  show "rx_check su r s \<noteq> Some (Inl f)"
  proof (cases "\<exists>c q j. rpcs s r = Rbody c q j 0")
    case True
    then obtain c q j where at: "rpcs s r = Rbody c q j 0" by blast
    obtain x where "rx_relay su q s = Inr x" using relay_runs [OF inv p] by blast
    with at prbs_check_passes [OF inv p at] show ?thesis by (simp add: rx_check_def)
  qed (auto simp: rx_check_def split: rpc.splits)
  show "rx_seq r s \<noteq> Some (Inl f)" "rx_step r s \<noteq> Some (Inl f)"
    by (auto simp: rx_seq_def rx_step_def split: rpc.splits)
  have g: "pkt_good (su_g su) (legs s) (ended s) q (take (unat (pkt_size q)) (rbuf s r)) \<and> length (rbuf s r) = kfootsize"
    if "rpcs s r = Rwrite c q \<or> rpcs s r = Rop c q" for c q
    using rx_goodD [OF inv, of r] that by (auto simp: rx_good_def)
  then show "rx_write r s \<noteq> Some (Inl f)"
    by (fastforce simp: rx_write_def rx_written_def rx_write_bytes_def Let_def dest: pkt_good_size split: rpc.splits)
  show "rx_op r s \<noteq> Some (Inl f)"
  proof (cases "\<exists>c q. rpcs s r = Rop c q")
    case True
    then obtain c q where at: "rpcs s r = Rop c q" by blast
    then have "opcode q = end_of_millipede \<or> opcode q = feed_more \<and> checksum q = 0"
      using g [of c q] p by (auto simp: pkt_good_def peers_def)
    with at show ?thesis by (auto simp: rx_op_def rx_opcode_def)
  qed (auto simp: rx_op_def split: rpc.splits)
qed

lemmas runs = tx_runs push_runs ingest_runs rx_early_runs rx_late_runs

lemma inv_no_fault:
  assumes "sys_inv su src s" "peers su s"
  shows "do_action su a s \<noteq> Some (Inl f)"
  by (cases a; simp only: do_action.simps rx_thread_def) (use runs [OF assms(1)] assms(2) in auto)


lemma peers0: "peers world0 (sys0 evs)"
  by (simp add: peers_def world0_def sys0_def plain_globals_def plain_ioconf_def phrase_bytes_def)


end
