(* ===== verification/Vm_Frames.thy ===== *)
theory Vm_Frames
  imports Vm_Faults
begin

text \<open>
  What one action leaves alone, and two more invariants that follow from it: when threads leave, and
  how a connection gets from its queue to a receiving worker.
\<close>

section \<open>What one action changes\<close>

definition but_one :: "nat \<Rightarrow> txconf_s \<Rightarrow> txconf_s \<Rightarrow> bool" where
  "but_one w c c' \<longleftrightarrow> worker_count c' = worker_count c \<and> tx_done c' = tx_done c \<and> (\<forall>j. j \<noteq> w \<longrightarrow> worker c' j = worker c j)"

lemma but_one_upd [simp]: "but_one w c (upd_worker f w c') = but_one w c c'"
  by (auto simp: but_one_def upd_worker_def worker_def)

lemma but_one_refl [simp]: "but_one w c c"
  by (simp add: but_one_def)

lemma but_one_fields [simp]:
  "but_one w c (c'\<lparr>stream_total_bytes := x\<rparr>) = but_one w c c'"
  "but_one w c (c'\<lparr>target_port_cursor := y\<rparr>) = but_one w c c'"
  "but_one w c (c'\<lparr>waits := z\<rparr>) = but_one w c c'"
  by (simp_all add: but_one_def)

text \<open>A worker that has seen the end and will leave its loop.\<close>

definition leaving :: "wpc \<Rightarrow> bool" where
  "leaving pc \<longleftrightarrow> pc = Wpush True \<or> pc = Wwrite True \<or> pc = Wfin True \<or> pc = Wexit"

definition tx_frame :: "nat \<Rightarrow> sys \<Rightarrow> sys \<Rightarrow> bool" where
  "tx_frame w s t \<longleftrightarrow> int w < worker_count (txc s) \<and> but_one w (txc s) (txc t) \<and>
     (\<exists>pc. wpcs t = (wpcs s)(w := pc) \<and> (leaving pc \<longrightarrow> leaving (wpcs s w) \<or> tx_done (txc s))) \<and> wpcs s w \<noteq> Wexit \<and>
     ipcs t = ipcs s \<and> legs t = legs s \<and> rxc t = rxc s \<and> rpcs t = rpcs s \<and> owner t = owner s \<and> reply t = reply s \<and>
     (if wpcs s w = Wconn then backlog t = backlog s @ [w] else backlog t = backlog s)"

lemma tx_dial_frame:
  "tx_dial (\<lambda>_. Inr (int w + 3)) d w c = Inr c' \<Longrightarrow> but_one w c c'"
  by (auto simp: tx_dial_def tx_tcp_connect_next_def Let_def tx_reconnect.simps tx_state_set_def res_iff
      kreconnectlimit_def split: if_splits)

lemma txpush_frames:
  "txpush_begin g w c = Inr c' \<Longrightarrow> but_one w c c'"
  "txpush_written w n c = Inr c' \<Longrightarrow> but_one w c c'"
  "txpush_finish w c = Inr c' \<Longrightarrow> but_one w c c'"
  by (auto simp: txpush_begin_def txpush_written_def txpush_finish_def tx_state_set_def res_iff Let_def)

lemma tx_frames:
  "tx_connect su w s = Some (Inr t) \<Longrightarrow> tx_frame w s t"
  "tx_ok w s = Some (Inr t) \<Longrightarrow> tx_frame w s t"
  "tx_reset w s = Some (Inr t) \<Longrightarrow> tx_frame w s t"
  "tx_loop w s = Some (Inr t) \<Longrightarrow> tx_frame w s t"
  "tx_push su w s = Some (Inr t) \<Longrightarrow> tx_frame w s t"
  "tx_write w s = Some (Inr t) \<Longrightarrow> tx_frame w s t"
  "tx_fin w s = Some (Inr t) \<Longrightarrow> tx_frame w s t"
proof -
  show "tx_connect su w s = Some (Inr t) \<Longrightarrow> tx_frame w s t"
    by (auto simp: tx_connect_def t_at_def tx_frame_def res_iff leaving_def dest!: tx_dial_frame split: if_splits)
  show "tx_ok w s = Some (Inr t) \<Longrightarrow> tx_frame w s t"
    by (auto simp: tx_ok_def t_at_def tx_frame_def res_iff leaving_def tx_shake_def sm_online_def tx_state_set_def
        split: if_splits)
  show "tx_reset w s = Some (Inr t) \<Longrightarrow> tx_frame w s t"
    by (auto simp: tx_reset_def t_at_def tx_frame_def leaving_def sm_reset_def split: if_splits)
  show "tx_loop w s = Some (Inr t) \<Longrightarrow> tx_frame w s t"
    by (auto simp: tx_loop_def t_at_def tx_frame_def leaving_def sm_switch_def Let_def assertE_def split: if_splits)
  show "tx_push su w s = Some (Inr t) \<Longrightarrow> tx_frame w s t"
    by (auto simp: tx_push_def t_at_def tx_frame_def res_iff leaving_def dest: txpush_frames split: if_splits wpc.splits)
  show "tx_write w s = Some (Inr t) \<Longrightarrow> tx_frame w s t"
    by (auto simp: tx_write_def t_at_def tx_frame_def res_iff leaving_def Let_def dest: txpush_frames split: if_splits wpc.splits)
  show "tx_fin w s = Some (Inr t) \<Longrightarrow> tx_frame w s t"
    by (auto simp: tx_fin_def t_at_def tx_frame_def res_iff leaving_def dest: txpush_frames split: if_splits wpc.splits)
qed

text \<open>The ingest thread touches no program counter of a worker; only a load or a send adds a leg.\<close>

definition ingest_frame :: "sys \<Rightarrow> sys \<Rightarrow> bool" where
  "ingest_frame s t \<longleftrightarrow> wpcs t = wpcs s \<and> rxc t = rxc s \<and> rpcs t = rpcs s \<and> owner t = owner s \<and>
     reply t = reply s \<and> backlog t = backlog s \<and> worker_count (txc t) = worker_count (txc s) \<and>
     (tx_done (txc s) \<longrightarrow> tx_done (txc t)) \<and> (ipcs t = Iend \<longrightarrow> tx_done (txc t))"

lemma ingest_frames:
  "ingest_top s = Some (Inr t) \<Longrightarrow> ingest_frame s t"
  "ingest_scan s = Some (Inr t) \<Longrightarrow> ingest_frame s t"
  "ingest_read su s = Some (Inr t) \<Longrightarrow> ingest_frame s t"
  "ingest_load su s = Some (Inr t) \<Longrightarrow> ingest_frame s t"
  "ingest_send s = Some (Inr t) \<Longrightarrow> ingest_frame s t"
  by (auto simp: ingest_frame_def ingest_top_def ingest_scan_def ingest_read_def ingest_load_def load_leg_def ingest_send_def
      ingest_fill_def ingest_feed_def start_worker_def txshutdown_mark_def txshutdown_send_def tx_state_set_def res_iff Let_def
      split: if_splits ipc.splits option.splits)

definition rx_frame :: "nat \<Rightarrow> sys \<Rightarrow> sys \<Rightarrow> bool" where
  "rx_frame r s t \<longleftrightarrow> txc t = txc s \<and> wpcs t = wpcs s \<and> ipcs t = ipcs s \<and> legs t = legs s \<and>
     (\<exists>pc. rpcs t = (rpcs s)(r := pc) \<and> (pc = Rexit \<longrightarrow> done_mbox (rxc s))) \<and>
     (done_mbox (rxc s) \<longrightarrow> done_mbox (rxc t)) \<and>
     ((\<forall>c p. rpcs s r \<noteq> Rnext c p) \<longrightarrow> next_leg (rxc t) = next_leg (rxc s)) \<and>
     (case rpcs s r of
        Raccept \<Rightarrow> \<exists>c cs. backlog s = c # cs \<and> backlog t = cs \<and> owner t = (owner s)(c := Some r) \<and> rpcs t r = Rhello c \<and>
          reply t = reply s
      | Rhello c \<Rightarrow> backlog t = backlog s \<and> owner t = owner s \<and> reply t = (reply s)(c := ''ok'')
      | _ \<Rightarrow> backlog t = backlog s \<and> owner t = owner s \<and> reply t = reply s)"

lemma relay_done: "rx_relay su q s = Inr (g, tc, rc) \<Longrightarrow> done_mbox rc = done_mbox (rxc s) \<and> next_leg rc = next_leg (rxc s)"
  by (auto simp: rx_relay_def initiate_relay_def initiate_def res_iff Let_def split: if_splits)

lemma rx_frames:
  "rx_top r s = Some (Inr t) \<Longrightarrow> rx_frame r s t"
  "rx_take r s = Some (Inr t) \<Longrightarrow> rx_frame r s t"
  "rx_hello su r s = Some (Inr t) \<Longrightarrow> rx_frame r s t"
  "rx_head r s = Some (Inr t) \<Longrightarrow> rx_frame r s t"
  "rx_read r k s = Some (Inr t) \<Longrightarrow> rx_frame r s t"
  "rx_check su r s = Some (Inr t) \<Longrightarrow> rx_frame r s t"
  "rx_seq r s = Some (Inr t) \<Longrightarrow> rx_frame r s t"
  "rx_write r s = Some (Inr t) \<Longrightarrow> rx_frame r s t"
  "rx_op r s = Some (Inr t) \<Longrightarrow> rx_frame r s t"
  "rx_step r s = Some (Inr t) \<Longrightarrow> rx_frame r s t"
  by (auto simp: rx_frame_def rx_top_def rx_take_def rx_hello_def rx_head_def rx_read_def rx_check_def rx_seq_def rx_write_def
      rx_op_def rx_step_def rx_accept_def rx_handshake_def rx_header_def rx_written_def rx_opcode_def rx_next_def res_iff Let_def
      dest!: relay_done split: if_splits rpc.splits list.splits option.splits)


section \<open>Threads and connections\<close>

text \<open>
  The ingest thread and the workers leave only once \<^verbatim>\<open>done\<close> is raised; a connection is queued or
  accepted from the moment it is made, and its handshake is still to be done until it is answered.
\<close>

definition live_inv :: "sys \<Rightarrow> bool" where
  "live_inv s \<longleftrightarrow>
     (ipcs s = Iend \<longrightarrow> tx_done (txc s)) \<and> (\<forall>w. leaving (wpcs s w) \<longrightarrow> tx_done (txc s)) \<and>
     (\<forall>w. wpcs s w \<noteq> Wconn \<longrightarrow> w \<in> set (backlog s) \<or> owner s w \<noteq> None) \<and>
     (\<forall>c r. owner s c = Some r \<and> reply s c = [] \<longrightarrow> rpcs s r = Rhello c) \<and>
     (\<forall>r. rpcs s r = Rexit \<longrightarrow> done_mbox (rxc s))"

definition legs_inv :: "sys \<Rightarrow> bool" where
  "legs_inv s \<longleftrightarrow> length (legs s) \<le> length (concat (legs s)) + (if ended s then 1 else 0)"

lemma live_tx: "live_inv s \<Longrightarrow> tx_frame w s t \<Longrightarrow> live_inv t"
  by (auto simp: live_inv_def tx_frame_def but_one_def split: if_splits)

lemma live_ingest: "live_inv s \<Longrightarrow> ingest_frame s t \<Longrightarrow> live_inv t"
  by (auto simp: live_inv_def ingest_frame_def)

lemma live_rx:
  assumes inv: "sys_inv su src s" and l: "live_inv s" and f: "rx_frame r s t"
  shows "live_inv t"
proof -
  from f obtain pc where pc: "rpcs t = (rpcs s)(r := pc)" "pc = Rexit \<longrightarrow> done_mbox (rxc s)" by (auto simp: rx_frame_def)
  have hl: "rpcs s q = Rhello c" if "owner s c = Some q" "reply s c = []" for c q using l that by (simp add: live_inv_def)
  have same: "txc t = txc s" "wpcs t = wpcs s" "ipcs t = ipcs s" "done_mbox (rxc s) \<longrightarrow> done_mbox (rxc t)"
    using f by (auto simp: rx_frame_def)
  consider (take) c cs where "rpcs s r = Raccept" "backlog s = c # cs" "backlog t = cs" "owner t = (owner s)(c := Some r)"
      "rpcs t r = Rhello c" "reply t = reply s"
    | (hello) c where "rpcs s r = Rhello c" "backlog t = backlog s" "owner t = owner s" "reply t = (reply s)(c := ''ok'')"
    | (other) "rpcs s r \<noteq> Raccept" "\<forall>c. rpcs s r \<noteq> Rhello c" "backlog t = backlog s" "owner t = owner s" "reply t = reply s"
    using f by (cases "rpcs s r") (auto simp: rx_frame_def)
  then show ?thesis
  proof cases
    case take
    then have "\<forall>d q. owner t d = Some q \<and> reply t d = [] \<longrightarrow> rpcs t q = Rhello d" using hl pc(1) by auto
    moreover have "\<forall>w. wpcs s w \<noteq> Wconn \<longrightarrow> w \<in> set (backlog t) \<or> owner t w \<noteq> None"
      using l take by (auto simp: live_inv_def)
    ultimately show ?thesis using l pc same by (auto simp: live_inv_def)
  next
    case hello
    have "rpcs t q = Rhello d" if "owner t d = Some q" "reply t d = []" for d q
      using hl [of d q] that hello pc(1) by (cases "q = r"; cases "d = c") auto
    then show ?thesis using l pc same hello by (auto simp: live_inv_def)
  next
    case other
    then have "\<forall>d q. owner t d = Some q \<and> reply t d = [] \<longrightarrow> rpcs t q = Rhello d" using hl pc(1) by auto
    then show ?thesis using l pc same other by (auto simp: live_inv_def)
  qed
qed

lemma live_step:
  assumes inv: "sys_inv su src s" and l: "live_inv s" and step: "do_action su a s = Some (Inr t)"
  shows "live_inv t"
  using step
  by (cases a; simp only: do_action.simps rx_thread_Some)
     (blast intro: live_tx [OF l] live_ingest [OF l] live_rx [OF inv l] dest: tx_frames ingest_frames rx_frames)+

lemma ended_frame:
  assumes "txc t = txc s \<or> tx_done (txc t) = tx_done (txc s)" "ipcs t = ipcs s"
  shows "ended t = ended s"
  using assms by (auto simp: ended_def)

lemma tx_frame_legs: "tx_frame w s t \<Longrightarrow> legs t = legs s \<and> ended t = ended s \<and> next_leg (rxc t) = next_leg (rxc s)"
  by (auto simp: tx_frame_def but_one_def ended_def)

lemma rx_frame_legs: "rx_frame r s t \<Longrightarrow> legs t = legs s \<and> ended t = ended s"
  by (auto simp: rx_frame_def ended_def)

lemma ingest_keeps_legs:
  "ingest_top s = Some (Inr t) \<Longrightarrow> legs t = legs s \<and> ended t = ended s \<and> next_leg (rxc t) = next_leg (rxc s)"
  "ingest_scan s = Some (Inr t) \<Longrightarrow> legs t = legs s \<and> ended t = ended s \<and> next_leg (rxc t) = next_leg (rxc s)"
  "ingest_read su s = Some (Inr t) \<Longrightarrow> legs t = legs s \<and> ended t = ended s \<and> next_leg (rxc t) = next_leg (rxc s)"
  by (auto simp: ingest_top_def ingest_scan_def ingest_read_def ingest_fill_def ended_def res_iff
      split: if_splits ipc.splits)

lemma load_result:
  assumes inv: "sys_inv su src s" and step: "ingest_load su s = Some (Inr t)" and pc: "ipcs s = Iload w n"
  shows "\<not> ended s \<and> \<not> ended t \<and> next_leg (rxc t) = next_leg (rxc s) \<and> wpcs t = wpcs s \<and>
     (ingest_feeds (su_g su) (ig s) n \<and> 0 < n \<and> tx_done (txc t) = tx_done (txc s) \<and> ipcs t = Itop \<and>
        (\<exists>x. length x = n \<and> legs t = legs s @ [x]) \<and> but_one w (txc s) (txc t) \<or>
      \<not> ingest_feeds (su_g su) (ig s) n \<and> legs t = legs s \<and> ipcs t = Isend w \<and>
        (\<forall>j. worker (txc t) j = worker (txc s) j) \<and> worker_count (txc t) = worker_count (txc s))"
proof -
  note i = sys_invD [OF inv]
  have w: "int w < worker_count (txc s)" and nd: "\<not> tx_done (txc s)"
    using i(3) pc by (auto simp: ingest_inv_def serves_def)
  have n: "n \<le> kfootsize" using i(2) pc by (cases "gprbs_seed (su_g su) = 0") (auto simp: source_inv_def)
  have buf: "length (tw_buffer (worker (txc s) w)) = kfootsize" using tx_goodD [OF inv w] by (simp add: tx_good_def)
  note sl = cfg_slots [OF i(1) w]
  show ?thesis
  proof (cases "ingest_feeds (su_g su) (ig s) n")
    case True
    with step pc obtain c' i' where f: "ingest_feed (su_g su) w n (txc s) (ig s) = Some (Inr (c', i'))"
      and t: "t = s\<lparr>txc := c', ipcs := Itop, ig := i', legs := legs s @ [take n (push_buffer (su_g su) (worker c' w))]\<rparr>"
      by (auto simp: ingest_load_def load_leg_def res_iff split: option.splits)
    have b: "but_one w (txc s) c'"
      using f by (auto simp: ingest_feed_def start_worker_def tx_state_set_def Let_def res_iff)
    have "tw_buffer (worker c' w) = tw_buffer (worker (txc s) w)"
      using f sl by (auto simp: ingest_feed_def start_worker_def tx_state_set_def Let_def res_iff)
    with buf have "length (push_buffer (su_g su) (worker c' w)) = kfootsize" by simp
    with t n b nd True show ?thesis by (auto simp: ended_def but_one_def ingest_feeds_def)
  next
    case False
    with step pc nd show ?thesis by (auto simp: ingest_load_def ended_def txshutdown_mark_def)
  qed
qed

lemma send_result:
  assumes inv: "sys_inv su src s" and step: "ingest_send s = Some (Inr t)" and pc: "ipcs s = Isend w"
  shows "\<not> ended s \<and> ended t \<and> next_leg (rxc t) = next_leg (rxc s) \<and> wpcs t = wpcs s \<and> legs t = legs s @ [[]] \<and>
     ipcs t = Itop \<and> but_one w (txc s) (txc t) \<and> tx_state (txc t) w = CHR ''d''"
proof -
  have w: "int w < worker_count (txc s)" and d: "tx_done (txc s)"
    using sys_invD(3) [OF inv] pc by (auto simp: ingest_inv_def serves_def)
  note sl = cfg_slots [OF sys_invD(1) [OF inv] w]
  show ?thesis using step pc d sl
    by (auto simp: ingest_send_def txshutdown_send_def start_worker_def tx_state_set_def tx_state_def ended_def res_iff)
qed

end
