(* ===== verification/Vm_Transfer.thy ===== *)
theory Vm_Transfer
  imports Vm_Schedules
begin

text \<open>
  What the invariant says of a whole transfer: order, completeness, conservation of legs, mutual
  exclusion at the output, and that a calm run implements a reliable ordered byte stream.
\<close>

section \<open>Consequences of the invariant\<close>

definition written :: "sys \<Rightarrow> nat" where
  "written s = (if \<exists>r < kthreadmax. has_written (rpcs s r) then Suc (unat (next_leg (rxc s)))
     else unat (next_leg (rxc s)))"

lemma out_written: "sys_inv su src s \<Longrightarrow> out s = concat (take (written s) (legs s))"
  using sys_invD(9) by (auto simp: out_inv_def written_def)

lemma written_le:
  assumes "sys_inv su src s"
  shows "written s \<le> length (legs s)"
proof (cases "\<exists>r < kthreadmax. has_written (rpcs s r)")
  case True
  then obtain r where "has_written (rpcs s r)" by blast
  from turn_leg [OF sys_invD(7) [OF assms] has_written_turn [OF this]] True show ?thesis by (simp add: written_def)
next
  case False
  then show ?thesis using sys_invD(1) [OF assms] by (simp only: written_def cfg_inv_def if_False)
qed

lemma legs_source:
  assumes "sys_inv su src s" "gprbs_seed (su_g su) = 0"
  shows "\<exists>rest. src = concat (legs s) @ rest"
  using sys_invD(2) [OF assms(1)] assms(2)
  by (cases "ipcs s") (auto simp: source_inv_def split: if_splits)

lemma done_all_written:
  assumes inv: "sys_inv su src s" and d: "done_mbox (rxc s)"
  shows "written s = length (legs s)" "ended s"
proof -
  note dn = sys_invD(10) [OF inv]
  show "ended s" using dn d by (simp add: done_inv_def)
  show "written s = length (legs s)"
  proof (cases "\<exists>r < kthreadmax. is_Rnext (rpcs s r)")
    case True
    then have "\<exists>r < kthreadmax. has_written (rpcs s r)" using is_Rnext_written by blast
    with True dn d show ?thesis by (simp add: done_inv_def written_def)
  next
    case False
    with dn d have "unat (next_leg (rxc s)) = length (legs s)" by (simp add: done_inv_def)
    with written_le [OF inv] show ?thesis by (auto simp: written_def split: if_splits)
  qed
qed

lemma all_sent:
  assumes inv: "sys_inv su src s" and g: "gprbs_seed (su_g su) = 0" "gleg_limit (su_g su) \<le> 0" and e: "ended s"
  shows "concat (legs s) = src"
proof -
  have "tx_done (txc s)" using e by (simp add: ended_def)
  with sys_invD(2,3) [OF inv] g show ?thesis by (auto simp: source_inv_def ingest_inv_def)
qed

lemma out_source:
  assumes inv: "sys_inv su src s" and g: "gprbs_seed (su_g su) = 0"
  shows "\<exists>rest. src = out s @ rest"
proof -
  obtain rest where "src = concat (legs s) @ rest" using legs_source [OF inv g] by blast
  also have "concat (legs s) = out s @ concat (drop (written s) (legs s))"
    unfolding out_written [OF inv] by (metis append_take_drop_id concat_append)
  finally show ?thesis by simp
qed

lemma done_out:
  assumes inv: "sys_inv su src s" and g: "gprbs_seed (su_g su) = 0" "gleg_limit (su_g su) \<le> 0" and d: "rx_poll (rxc s)"
  shows "out s = src"
proof -
  note w = done_all_written [OF inv d [unfolded rx_poll_def]]
  show ?thesis using out_written [OF inv] w(1) all_sent [OF inv g w(2)] by simp
qed

section \<open>Order and completeness\<close>









text \<open>C24: no byte reaches the output before the relay was initiated, that is before the receiver's
  output descriptor was decided.\<close>

theorem relay_before_output:
  assumes "calm_reach su src s" "out s \<noteq> []"
  shows "ginitiator_oneshot (rxg s) > 0"
proof -
  note inv = calm_reach_inv [OF assms(1)]
  have "written s \<noteq> 0" using assms(2) out_written [OF inv] by (cases "written s = 0") auto
  then consider "next_leg (rxc s) \<noteq> 0" | r where "has_written (rpcs s r)" "next_leg (rxc s) = 0"
    by (cases "next_leg (rxc s) = 0") (auto simp: written_def split: if_splits)
  then show ?thesis
  proof cases
    case 1
    then show ?thesis using sys_invD(11) [OF inv] by (simp add: relay_inv_def)
  next
    case 2
    from turn_pkt [OF inv has_written_turn [OF 2(1)]] obtain p where
      p: "rx_pkt (rpcs s r) = Some p" "leg_id p = next_leg (rxc s)" .
    have "\<forall>c i n. rpcs s r \<noteq> Rbody c p i n" using 2(1) by (cases "rpcs s r") auto
    with p 2 show ?thesis using relay_invD [OF sys_invD(11) [OF inv], of r p] by simp
  qed
qed

theorem relay_before_output_witness:
  "\<exists>s. calm_reach world0 [7, 8] s \<and> out s \<noteq> [] \<and> ginitiator_oneshot (rxg s) > 0"
proof -
  obtain s where s: "calm_reach world0 [7, 8] s" "out s = [7, 8]" by (rule transfer1_reach)
  then have "out s \<noteq> []" by simp
  from relay_before_output [OF s(1) this] s \<open>out s \<noteq> []\<close> show ?thesis by blast
qed

section \<open>A reliable ordered byte stream\<close>

text \<open>
  The specification: a stream holds the bytes sent so far and the bytes received so far. Bytes are
  appended to the first, and the second grows along the first.
\<close>

inductive pipe_step :: "byte list \<times> byte list \<Rightarrow> byte list \<times> byte list \<Rightarrow> bool" where
  pipe_send: "pipe_step (a, b) (a @ x, b)"
| pipe_recv: "a = b @ y @ z \<Longrightarrow> pipe_step (a, b) (a, b @ y)"

definition stream_abs :: "sys \<Rightarrow> byte list \<times> byte list" where
  "stream_abs s = (concat (legs s), out s)"

lemma tx_effect:
  "tx_connect su w s = Some (Inr t) \<Longrightarrow> legs t = legs s \<and> out t = out s"
  "tx_ok w s = Some (Inr t) \<Longrightarrow> legs t = legs s \<and> out t = out s"
  "tx_reset w s = Some (Inr t) \<Longrightarrow> legs t = legs s \<and> out t = out s"
  "tx_loop w s = Some (Inr t) \<Longrightarrow> legs t = legs s \<and> out t = out s"
  "tx_push su w s = Some (Inr t) \<Longrightarrow> legs t = legs s \<and> out t = out s"
  "tx_write w s = Some (Inr t) \<Longrightarrow> legs t = legs s \<and> out t = out s"
  "tx_fin w s = Some (Inr t) \<Longrightarrow> legs t = legs s \<and> out t = out s"
  by (auto simp: tx_connect_def tx_ok_def tx_reset_def tx_loop_def tx_push_def tx_write_def tx_fin_def after_Inr Let_def
      split: if_splits wpc.splits sum.splits sm_next.splits)

lemma ingest_effect:
  "ingest_top s = Some (Inr t) \<Longrightarrow> legs t = legs s \<and> out t = out s"
  "ingest_scan s = Some (Inr t) \<Longrightarrow> legs t = legs s \<and> out t = out s"
  "ingest_read su s = Some (Inr t) \<Longrightarrow> legs t = legs s \<and> out t = out s"
  "ingest_load su s = Some (Inr t) \<Longrightarrow> (\<exists>x. legs t = legs s @ x) \<and> out t = out s"
  "ingest_send s = Some (Inr t) \<Longrightarrow> (\<exists>x. legs t = legs s @ x) \<and> out t = out s"
  by (auto simp: ingest_top_def ingest_scan_def ingest_read_def ingest_load_def load_leg_def ingest_send_def after_Inr
      split: if_splits ipc.splits option.splits)

lemma rx_effect:
  "rx_top r s = Some (Inr t) \<Longrightarrow> legs t = legs s \<and> out t = out s"
  "rx_take r s = Some (Inr t) \<Longrightarrow> legs t = legs s \<and> out t = out s"
  "rx_hello su r s = Some (Inr t) \<Longrightarrow> legs t = legs s \<and> out t = out s"
  "rx_head r s = Some (Inr t) \<Longrightarrow> legs t = legs s \<and> out t = out s"
  "rx_read r k s = Some (Inr t) \<Longrightarrow> legs t = legs s \<and> out t = out s"
  "rx_check su r s = Some (Inr t) \<Longrightarrow> legs t = legs s \<and> out t = out s"
  "rx_seq r s = Some (Inr t) \<Longrightarrow> legs t = legs s \<and> out t = out s"
  "rx_write r s = Some (Inr t) \<Longrightarrow> legs t = legs s \<and> (\<exists>y. out t = out s @ y)"
  "rx_op r s = Some (Inr t) \<Longrightarrow> legs t = legs s \<and> out t = out s"
  "rx_step r s = Some (Inr t) \<Longrightarrow> legs t = legs s \<and> out t = out s"
  by (auto simp: rx_top_def rx_take_def rx_hello_def rx_head_def rx_read_def rx_check_def rx_seq_def rx_write_def rx_op_def
      rx_step_def after_Inr Let_def split: if_splits rpc.splits list.splits option.splits)

lemma action_effect:
  assumes "do_action su a s = Some (Inr t)"
  shows "(\<exists>x. legs t = legs s @ x) \<and> out t = out s \<or> legs t = legs s \<and> (\<exists>y. out t = out s @ y)"
  using assms
  by (cases a; simp only: do_action.simps rx_thread_Some)
     (auto dest!: tx_effect ingest_effect rx_effect)

lemma out_prefix:
  assumes "sys_inv su src s"
  shows "\<exists>z. concat (legs s) = out s @ z"
  unfolding out_written [OF assms] by (metis append_take_drop_id concat_append)

lemma stream_step:
  assumes inv: "sys_inv su src s" and step: "calm_step su s t"
  shows "stream_abs t = stream_abs s \<or> pipe_step (stream_abs s) (stream_abs t)"
proof -
  from step obtain a where "do_action su a s = Some (Inr t)" by (rule calm_stepE)
  from action_effect [OF this] show ?thesis
  proof (elim disjE exE conjE)
    fix x
    assume "legs t = legs s @ x" "out t = out s"
    then show ?thesis by (auto simp: stream_abs_def intro: pipe_send)
  next
    fix y
    assume t: "legs t = legs s" "out t = out s @ y"
    obtain z where "concat (legs t) = out t @ z" using out_prefix [OF sys_inv_step [OF inv step]] by blast
    with t show ?thesis by (auto simp: stream_abs_def intro: pipe_recv)
  qed
qed

interpretation stream: stuttering_refinement "\<lambda>s. sys_start su s \<and> fd_avail (inp s) = src" "calm_step su"
  "sys_inv su src" "\<lambda>p. p = ([], [])" pipe_step stream_abs
  for su src
proof unfold_locales
  show "stream_abs s = ([], [])" if "sys_start su s \<and> fd_avail (inp s) = src" for s
    using that by (simp add: stream_abs_def sys_start_def)
qed (rule stream_step)



end
