(* ===== verification/Vm_Progress.thy ===== *)
theory Vm_Progress
  imports Vm_Frames Vm_Transfer
begin

text \<open>
  Stranded legs: a worker whose thread has ended with a leg left in it. A stranded state stays
  stranded and never completes; the states without one from which a run goes on are \<open>fit\<close>.
\<close>

section \<open>Stranded legs\<close>

lemma legs_inv_step:
  assumes inv: "sys_inv su src s" and l: "legs_inv s" and step: "do_action su a s = Some (Inr t)"
  shows "legs_inv t"
proof -
  have keep: "legs t = legs s \<Longrightarrow> ended t = ended s \<Longrightarrow> legs_inv t" using l by (simp add: legs_inv_def)
  have load: "legs_inv t" if "ingest_load su s = Some (Inr t)"
  proof -
    from that obtain w n where "ipcs s = Iload w n" by (auto simp: ingest_load_def split: ipc.splits)
    from load_result [OF inv that this] l show ?thesis by (auto simp: legs_inv_def neq_Nil_conv)
  qed
  have send: "legs_inv t" if "ingest_send s = Some (Inr t)"
  proof -
    from that obtain w where "ipcs s = Isend w" by (auto simp: ingest_send_def split: ipc.splits)
    from send_result [OF inv that this] l show ?thesis by (auto simp: legs_inv_def)
  qed
  show ?thesis
    using step
    by (cases a; simp only: do_action.simps rx_thread_Some)
       (blast intro: keep load send dest: tx_frames rx_frames tx_frame_legs rx_frame_legs ingest_keeps_legs)+
qed

text \<open>
  A worker is stranded when its thread has ended while a leg waits in it, or while the shutdown leg is
  about to be put there.
\<close>

definition stranded :: "sys \<Rightarrow> bool" where
  "stranded s \<longleftrightarrow> (\<exists>w < nat (worker_count (txc s)). wpcs s w = Wexit \<and>
     (tx_state (txc s) w = CHR ''d'' \<or> ipcs s = Isend w))"

lemma but_one_state: "but_one w c c' \<Longrightarrow> j \<noteq> w \<Longrightarrow> tx_state c' j = tx_state c j"
  by (simp add: but_one_def tx_state_def)

lemma stranded_stays:
  assumes inv: "sys_inv su src s" and st: "stranded s" and step: "do_action su a s = Some (Inr t)"
  shows "stranded t"
proof -
  from st obtain w where w: "w < nat (worker_count (txc s))" "wpcs s w = Wexit"
    "tx_state (txc s) w = CHR ''d'' \<or> ipcs s = Isend w" by (auto simp: stranded_def)
  have tx: "stranded t" if "tx_frame v s t" for v
  proof -
    have "v \<noteq> w" using that w(2) by (auto simp: tx_frame_def)
    with that w but_one_state [of v "txc s" "txc t" w] show ?thesis
      by (auto simp: stranded_def tx_frame_def but_one_def intro!: exI [of _ w])
  qed
  have rx: "stranded t" if "rx_frame r s t" for r
    using that st by (auto simp: stranded_def rx_frame_def)
  have srv: "tx_state (txc s) v = CHR ''i''" if "serves (ipcs s) = Some v" for v
    using sys_invD(3) [OF inv] that by (auto simp: ingest_inv_def)
  have send: "stranded t" if s: "ingest_send s = Some (Inr t)"
  proof -
    from s obtain v where v: "ipcs s = Isend v" by (auto simp: ingest_send_def split: ipc.splits)
    from send_result [OF inv s v] w v but_one_state [of v "txc s" "txc t" w] show ?thesis
      by (cases "v = w") (auto simp: stranded_def but_one_def intro!: exI [of _ w])
  qed
  have load: "stranded t" if l: "ingest_load su s = Some (Inr t)"
  proof -
    from l obtain v n where v: "ipcs s = Iload v n" by (auto simp: ingest_load_def split: ipc.splits)
    with w(3) srv [of v] have "v \<noteq> w" "tx_state (txc s) w = CHR ''d''" by (auto simp: serves_def)
    with load_result [OF inv l v] w but_one_state [of v "txc s" "txc t" w] show ?thesis
      by (auto simp: stranded_def but_one_def tx_state_def intro!: exI [of _ w])
  qed
  have other: "stranded t" if "ingest_top s = Some (Inr t) \<or> ingest_scan s = Some (Inr t)"
    using that w by (auto simp: ingest_top_def ingest_scan_def stranded_def tx_state_def res_iff split: if_splits ipc.splits intro!: exI [of _ w])
  have read: "stranded t" if rd: "ingest_read su s = Some (Inr t)"
  proof -
    from rd obtain v where v: "ipcs s = Ifill v" by (auto simp: ingest_read_def split: ipc.splits)
    with w(3) srv [of v] have "v \<noteq> w" "tx_state (txc s) w = CHR ''d''" by (auto simp: serves_def)
    moreover have "but_one v (txc s) (txc t)" "wpcs t = wpcs s"
      using rd v by (auto simp: ingest_read_def ingest_fill_def res_iff split: if_splits)
    ultimately show ?thesis using w but_one_state [of v "txc s" "txc t" w]
      by (auto simp: stranded_def but_one_def intro!: exI [of _ w])
  qed
  show ?thesis
    using step
    by (cases a; simp only: do_action.simps rx_thread_Some)
       (blast intro: tx rx send load other read dest: tx_frames rx_frames)+
qed

lemma stranded_not_done:
  assumes inv: "sys_inv su src s" and st: "stranded s"
  shows "\<not> done_mbox (rxc s)"
proof
  assume d: "done_mbox (rxc s)"
  note i = sys_invD [OF inv]
  let ?x = "unat (next_leg (rxc s))"
  have e: "ended s" using i(10) d by (simp add: done_inv_def)
  from st e obtain w where w: "w < nat (worker_count (txc s))" "tx_state (txc s) w = CHR ''d''"
    by (auto simp: stranded_def ended_def)
  let ?y = "unat (leg_id (tw_pkt (worker (txc s) w)))"
  have "tx_holds (worker (txc s) w) (wpcs s w) = {#?y#}" using w(2) by (simp add: tx_holds_def tx_state_def)
  then have y: "?y \<in># tx_part (txc s) (wpcs s)" using w(1) by (auto simp: tx_part_def set_mset_sum intro!: bexI [of _ w])
  then have "?y \<in># in_flight s" by (simp add: in_flight_def)
  with i(8) have rng: "?x \<le> ?y" "?y < length (legs s)" by auto
  show False
  proof (cases "\<exists>r < kthreadmax. is_Rnext (rpcs s r)")
    case False
    with i(10) d rng show False by (simp add: done_inv_def)
  next
    case True
    then obtain r where r: "r < kthreadmax" "is_Rnext (rpcs s r)" by blast
    with i(10) d True rng have "?y = ?x" by (simp add: done_inv_def)
    have turn: "in_turn (rpcs s r)" using r is_Rnext_written has_written_turn by blast
    from turn_pkt [OF inv turn] obtain p where "rx_pkt (rpcs s r) = Some p" "leg_id p = next_leg (rxc s)" .
    then have "?x \<in># rx_part (rpcs s)" using r(1) by (auto simp: rx_part_def set_mset_sum rx_holds_def intro!: bexI [of _ r])
    then have "2 \<le> count (in_flight s) ?x" using y \<open>?y = ?x\<close>
      by (simp add: in_flight_def flip: count_greater_zero_iff)
    then show False using i(8) by (simp add: count_mset_set' split: if_splits)
  qed
qed


lemma tx_no_exit:
  "tx_connect su w s = Some (Inr t) \<Longrightarrow> wpcs t w \<noteq> Wexit"
  "tx_ok w s = Some (Inr t) \<Longrightarrow> wpcs t w \<noteq> Wexit"
  "tx_reset w s = Some (Inr t) \<Longrightarrow> wpcs t w \<noteq> Wexit"
  "tx_loop w s = Some (Inr t) \<Longrightarrow> tx_state (txc s) w = CHR ''d'' \<Longrightarrow> wpcs t w \<noteq> Wexit"
  "tx_push su w s = Some (Inr t) \<Longrightarrow> wpcs t w \<noteq> Wexit"
  "tx_write w s = Some (Inr t) \<Longrightarrow> wpcs t w \<noteq> Wexit"
  by (auto simp: tx_connect_def tx_ok_def tx_reset_def tx_loop_def sm_switch_def tx_push_def tx_write_def after_Inr Let_def assertE_def
      split: if_splits wpc.splits)

lemma tx_not_stranded:
  assumes ns: "\<not> stranded s" and f: "tx_frame v s t" and x: "wpcs t v = Wexit \<Longrightarrow> tx_state (txc t) v = CHR ''i'' \<and> ipcs s \<noteq> Isend v"
  shows "\<not> stranded t"
proof
  assume "stranded t"
  then obtain w where w: "w < nat (worker_count (txc t))" "wpcs t w = Wexit" "tx_state (txc t) w = CHR ''d'' \<or> ipcs t = Isend w"
    by (auto simp: stranded_def)
  have fr: "ipcs t = ipcs s" "but_one v (txc s) (txc t)" "w \<noteq> v \<Longrightarrow> wpcs t w = wpcs s w" using f by (auto simp: tx_frame_def)
  have "w \<noteq> v" using w x fr(1) by auto
  with w fr but_one_state [of v "txc s" "txc t" w] have "stranded s" by (auto simp: stranded_def but_one_def)
  with ns show False ..
qed

lemma tx_fin_idle:
  assumes inv: "sys_inv su src s" and step: "tx_fin w s = Some (Inr t)"
  shows "tx_state (txc t) w = CHR ''i'' \<and> ipcs s \<noteq> Isend w"
proof -
  from step obtain d where at: "int w < worker_count (txc s)" "wpcs s w = Wfin d"
    by (auto simp: tx_fin_def t_at_def split: if_splits wpc.splits)
  have "ipcs s \<noteq> Isend w" using not_served [OF inv, of w] at by (auto simp: serves_def)
  with step at cfg_slots [OF sys_invD(1) [OF inv] at(1)] show ?thesis
    by (auto simp: tx_fin_def t_at_def txpush_finish_def tx_state_set_def tx_state_def res_iff)
qed

lemma not_stranded_step:
  assumes inv: "sys_inv su src s" and l: "live_inv s" and ns: "\<not> stranded s"
    and step: "do_action su a s = Some (Inr t)" and lp: "\<And>w. a = TxLoop w \<Longrightarrow> tx_state (txc s) w = CHR ''d''"
  shows "\<not> stranded t"
proof -
  have tx: "\<not> stranded t" if "tx_frame v s t" "wpcs t v \<noteq> Wexit" for v
    using tx_not_stranded [OF ns that(1)] that(2) by blast
  have fin: "\<not> stranded t" if "tx_fin v s = Some (Inr t)" for v
    using tx_not_stranded [OF ns tx_frames(7) [OF that]] tx_fin_idle [OF inv that] by blast
  have rx: "\<not> stranded t" if "rx_frame r s t" for r
    using that ns by (auto simp: stranded_def rx_frame_def)
  have early: "\<not> stranded t" if "wpcs t = wpcs s" "\<not> tx_done (txc s)"
    using that l by (auto simp: stranded_def live_inv_def leaving_def)
  have idone: "\<not> tx_done (txc s)" if "ipcs s \<noteq> Itop" "ipcs s \<noteq> Iend" "\<forall>w. ipcs s \<noteq> Isend w"
    using sys_invD(3) [OF inv] that by (auto simp: ingest_inv_def)
  have top: "\<not> stranded t" if "ingest_top s = Some (Inr t)"
    using that ns by (auto simp: ingest_top_def stranded_def split: if_splits)
  have scan: "\<not> stranded t" if "ingest_scan s = Some (Inr t) \<or> ingest_read su s = Some (Inr t) \<or> ingest_load su s = Some (Inr t)"
  proof -
    have "\<not> tx_done (txc s)"
      using that by (intro idone) (auto simp: ingest_scan_def ingest_read_def ingest_load_def split: ipc.splits)
    moreover have "ingest_frame s t" using that ingest_frames(2-4) by blast
    then have "wpcs t = wpcs s" by (simp add: ingest_frame_def)
    ultimately show ?thesis by (intro early)
  qed
  have send: "\<not> stranded t" if s: "ingest_send s = Some (Inr t)"
  proof
    assume "stranded t"
    then obtain w where w: "w < nat (worker_count (txc t))" "wpcs t w = Wexit" "tx_state (txc t) w = CHR ''d'' \<or> ipcs t = Isend w"
      by (auto simp: stranded_def)
    from s obtain v where v: "ipcs s = Isend v" by (auto simp: ingest_send_def split: ipc.splits)
    from send_result [OF inv s v] w v but_one_state [of v "txc s" "txc t" w] have "stranded s"
      by (cases "v = w") (auto simp: stranded_def but_one_def intro!: exI [of _ w])
    with ns show False ..
  qed
  have txs: "tx_connect su v s = Some (Inr t) \<Longrightarrow> \<not> stranded t" "tx_ok v s = Some (Inr t) \<Longrightarrow> \<not> stranded t"
    "tx_reset v s = Some (Inr t) \<Longrightarrow> \<not> stranded t" "tx_push su v s = Some (Inr t) \<Longrightarrow> \<not> stranded t"
    "tx_write v s = Some (Inr t) \<Longrightarrow> \<not> stranded t" for v
    by (rule tx [OF tx_frames(1)] tx [OF tx_frames(2)] tx [OF tx_frames(3)] tx [OF tx_frames(5)] tx [OF tx_frames(6)],
        assumption, erule tx_no_exit)+
  note rules = txs fin top send scan [OF disjI1] scan [OF disjI2, OF disjI1] scan [OF disjI2, OF disjI2] rx_frames [THEN rx]
  show ?thesis
    using step
  proof (cases a)
    case (TxLoop w)
    with step have "tx_loop w s = Some (Inr t)" by simp
    from tx [OF tx_frames(4) [OF this] tx_no_exit(4) [OF this lp [OF TxLoop]]] show ?thesis .
  qed (simp only: do_action.simps rx_thread_Some, (elim conjE)?, erule rules)+
qed

section \<open>States from which a transfer finishes\<close>

definition fit :: "world \<Rightarrow> byte list \<Rightarrow> sys \<Rightarrow> bool" where
  "fit su src s \<longleftrightarrow> sys_inv su src s \<and> peers su s \<and> live_inv s \<and> legs_inv s \<and> \<not> stranded s \<and>
     gprbs_seed (su_g su) = 0 \<and> length src < 2 ^ 64 - 2"

lemma fit_legs:
  assumes "fit su src s"
  shows "length (legs s) \<le> length src + 1"
proof -
  have inv: "sys_inv su src s" and g: "gprbs_seed (su_g su) = 0" using assms by (auto simp: fit_def)
  have "length (concat (legs s)) \<le> length src" using legs_source [OF inv g] by auto
  moreover have "length (legs s) \<le> length (concat (legs s)) + 1" using assms by (auto simp: fit_def legs_inv_def split: if_splits)
  ultimately show ?thesis by linarith
qed

lemma fit_act:
  assumes f: "fit su src s" and en: "do_action su a s \<noteq> None"
    and cm: "\<And>k. a = IngestScan \<Longrightarrow> ipcs s = Iscan k \<Longrightarrow> wpcs s k \<noteq> Wwindow"
    and lp: "\<And>w. a = TxLoop w \<Longrightarrow> tx_state (txc s) w = CHR ''d''"
  obtains t where "do_action su a s = Some (Inr t)" "calm_step su s t" "fit su src t"
proof -
  have inv: "sys_inv su src s" and rest: "peers su s" "live_inv s" "legs_inv s" "\<not> stranded s"
    "gprbs_seed (su_g su) = 0" "length src < 2 ^ 64 - 2"
    using f by (auto simp: fit_def)
  obtain t where t: "do_action su a s = Some (Inr t)"
    using en inv_no_fault [OF inv rest(1), of a] by (metis not_None_eq sumE)
  have "length (legs s) < 2 ^ 64 - 1" using fit_legs [OF f] rest(6) by linarith
  then have "calm s a" using cm by (auto simp: calm_def split: ipc.splits)
  then have step: "calm_step su s t" using t by (rule calm_act)
  have "fit su src t"
    using sys_inv_step [OF inv step] peers_step [OF rest(1) t] live_step [OF inv rest(2) t] legs_inv_step [OF inv rest(3) t]
      not_stranded_step [OF inv rest(2,4) t lp] rest(5,6) by (simp add: fit_def)
  with t step show thesis by (rule that)
qed

text \<open>The sequencer can get past leg \<open>n\<close>.\<close>

definition adv :: "world \<Rightarrow> byte list \<Rightarrow> nat \<Rightarrow> sys \<Rightarrow> bool" where
  "adv su src n s \<longleftrightarrow> (\<exists>t. (calm_step su)\<^sup>*\<^sup>* s t \<and> fit su src t \<and> (done_mbox (rxc t) \<or> n < unat (next_leg (rxc t))))"

lemma adv_now: "fit su src s \<Longrightarrow> done_mbox (rxc s) \<or> n < unat (next_leg (rxc s)) \<Longrightarrow> adv su src n s"
  unfolding adv_def by blast

lemma adv_step: "calm_step su s t \<Longrightarrow> adv su src n t \<Longrightarrow> adv su src n s"
  unfolding adv_def by (meson converse_rtranclp_into_rtranclp)

lemma adv_act:
  assumes f: "fit su src s" and en: "do_action su a s \<noteq> None"
    and cm: "\<And>k. a = IngestScan \<Longrightarrow> ipcs s = Iscan k \<Longrightarrow> wpcs s k \<noteq> Wwindow"
    and lp: "\<And>w. a = TxLoop w \<Longrightarrow> tx_state (txc s) w = CHR ''d''"
    and go: "\<And>t. do_action su a s = Some (Inr t) \<Longrightarrow> fit su src t \<Longrightarrow> adv su src n t"
  shows "adv su src n s"
proof -
  from fit_act [OF f en cm lp] obtain t where "do_action su a s = Some (Inr t)" "calm_step su s t" "fit su src t" .
  with go adv_step show ?thesis by blast
qed


subsection \<open>Serving the sequencer's leg\<close>

lemma fitD: "fit su src s \<Longrightarrow> sys_inv su src s" "fit su src s \<Longrightarrow> peers su s" "fit su src s \<Longrightarrow> live_inv s"
  by (auto simp: fit_def)

lemma conn_thread:
  assumes "fit su src s" "rx_conn (rpcs s r) = Some c"
  shows "r < kthreadmax"
  using owns [OF fitD(1) [OF assms(1)] assms(2)] sys_invD(5) [OF fitD(1) [OF assms(1)]] by (auto simp: conn_inv_def)

lemma adv_next:
  assumes f: "fit su src s" and at: "rpcs s r = Rnext c p"
  shows "adv su src (unat (next_leg (rxc s))) s"
proof (rule adv_act [OF f, of "RxNext r"])
  have r: "r < kthreadmax" using conn_thread [OF f, of r c] at by simp
  then show "do_action su (RxNext r) s \<noteq> None" using at by (simp add: rx_thread_def rx_step_def)
  fix t
  assume t: "do_action su (RxNext r) s = Some (Inr t)" "fit su src t"
  note i = sys_invD [OF fitD(1) [OF f]]
  have "unat (next_leg (rxc s)) < length (legs s)" using turn_leg [OF i(7), of r] at by simp
  from unat_next [OF i(1) this] t at show "adv su src (unat (next_leg (rxc s))) t"
    by (intro adv_now) (auto simp: res_iff rx_step_def rx_next_def rx_thread_def split: if_splits)
qed simp_all

lemma adv_op:
  assumes f: "fit su src s" and at: "rpcs s r = Rop c p"
  shows "adv su src (unat (next_leg (rxc s))) s"
proof (rule adv_act [OF f, of "RxOp r"])
  have r: "r < kthreadmax" using conn_thread [OF f, of r c] at by simp
  have "pkt_good (su_g su) (legs s) (ended s) p (take (unat (pkt_size p)) (rbuf s r))"
    using rx_goodD [OF fitD(1) [OF f], of r] at by (auto simp: rx_good_def)
  then have "opcode p = end_of_millipede \<or> opcode p = feed_more \<and> checksum p = 0"
    using fitD(2) [OF f] by (auto simp: pkt_good_def peers_def)
  then show "do_action su (RxOp r) s \<noteq> None" using at r by (auto simp: rx_thread_def rx_op_def rx_opcode_def)
  fix t
  assume t: "do_action su (RxOp r) s = Some (Inr t)" "fit su src t"
  then have "rpcs t r = Rnext c p" "next_leg (rxc t) = next_leg (rxc s)"
    using at r by (auto simp: rx_thread_def rx_op_def rx_opcode_def res_iff split: option.splits if_splits)
  with adv_next [OF t(2)] show "adv su src (unat (next_leg (rxc s))) t" by metis
qed simp_all

lemma adv_write:
  assumes f: "fit su src s" and at: "rpcs s r = Rwrite c p"
  shows "adv su src (unat (next_leg (rxc s))) s"
proof (rule adv_act [OF f, of "RxWrite r"])
  have r: "r < kthreadmax" using conn_thread [OF f, of r c] at by simp
  then show "do_action su (RxWrite r) s \<noteq> None" using at by (simp add: rx_thread_def rx_write_def after_def Let_def)
  fix t
  assume t: "do_action su (RxWrite r) s = Some (Inr t)" "fit su src t"
  then have "rpcs t r = Rop c p" "next_leg (rxc t) = next_leg (rxc s)"
    using at r by (auto simp: rx_thread_def rx_write_def rx_written_def res_iff Let_def)
  with adv_op [OF t(2)] show "adv su src (unat (next_leg (rxc s))) t" by metis
qed simp_all

lemma adv_wait:
  assumes f: "fit su src s" and at: "rpcs s r = Rwait c p" "leg_id p = next_leg (rxc s)"
  shows "adv su src (unat (next_leg (rxc s))) s"
proof (rule adv_act [OF f, of "RxSeq r"])
  have r: "r < kthreadmax" using conn_thread [OF f, of r c] at by simp
  then show "do_action su (RxSeq r) s \<noteq> None" using at by (simp add: rx_thread_def rx_seq_def rx_ready_def)
  fix t
  assume t: "do_action su (RxSeq r) s = Some (Inr t)" "fit su src t"
  then have "rpcs t r = Rwrite c p" "next_leg (rxc t) = next_leg (rxc s)"
    using at r by (auto simp: rx_thread_def rx_seq_def split: if_splits)
  with adv_write [OF t(2)] show "adv su src (unat (next_leg (rxc s))) t" by metis
qed simp_all

lemma adv_body:
  assumes "fit su src s" "rpcs s r = Rbody c p i n" "leg_id p = next_leg (rxc s)"
  shows "adv su src (unat (next_leg (rxc s))) s"
  using assms
proof (induction n arbitrary: s i rule: less_induct)
  case (less n)
  note f = less.prems(1) and at = less.prems(2)
  have r: "r < kthreadmax" using conn_thread [OF f, of r c] at by simp
  show ?case
  proof (cases "n = 0")
    case True
    show ?thesis
    proof (rule adv_act [OF f, of "RxCheck r"])
      show "do_action su (RxCheck r) s \<noteq> None" using at r True by (simp add: rx_thread_def rx_check_def after_def)
      fix t
      assume t: "do_action su (RxCheck r) s = Some (Inr t)" "fit su src t"
      then have "rpcs t r = Rwait c p" "next_leg (rxc t) = next_leg (rxc s)"
        using at r by (auto simp: rx_thread_def rx_check_def res_iff dest!: relay_done split: if_splits)
      with adv_wait [OF t(2)] less.prems(3) show "adv su src (unat (next_leg (rxc s))) t" by metis
    qed simp_all
  next
    case False
    let ?k = "min n maxbsize"
    have k: "0 < ?k" "?k \<le> n" using False by (auto simp: maxbsize_def)
    have ln: "n \<le> length (chan s c)" using rx_goodD [OF fitD(1) [OF f], of r] at by (simp add: rx_good_def)
    show ?thesis
    proof (rule adv_act [OF f, of "RxBody r ?k"])
      show "do_action su (RxBody r ?k) s \<noteq> None" using at r k ln by (auto simp: rx_thread_def rx_read_def after_def)
      fix t
      assume t: "do_action su (RxBody r ?k) s = Some (Inr t)" "fit su src t"
      then have "rpcs t r = Rbody c p (i + ?k) (n - ?k)" "next_leg (rxc t) = next_leg (rxc s)"
        using at r k ln by (auto simp: rx_thread_def rx_read_def rx_read_round_def res_iff split: if_splits)
      with less.IH [OF _ t(2)] k False less.prems(3) show "adv su src (unat (next_leg (rxc s))) t"
        by (metis diff_less not_gr_zero)
    qed simp_all
  qed
qed

end
