(* ===== verification/Vm_Liveness.thy ===== *)
theory Vm_Liveness
  imports Vm_Progress
begin

text \<open>
  Liveness. The sequencer's leg can always be brought to the output, and when everything read was
  written the ingest thread can always be given a worker for another leg; hence a transfer can
  be completed from every state without a stranded leg.
\<close>

section \<open>The sequencer's leg on a connection\<close>

lemma ch_list_short: "length bs < sizeof_millipacket \<Longrightarrow> ch_list bs = []"
  by (subst ch_list_def, subst frames.simps) simp

lemma adv_head:
  assumes f: "fit su src s" and at: "rpcs s r = Rhead c" and hd: "ch_list (chan s c) = unat (next_leg (rxc s)) # xs"
  shows "adv su src (unat (next_leg (rxc s))) s"
proof (rule adv_act [OF f, of "RxHead r"])
  note inv = fitD(1) [OF f]
  have r: "r < kthreadmax" using conn_thread [OF f, of r c] at by simp
  have len: "sizeof_millipacket \<le> length (chan s c)" using hd ch_list_short [of "chan s c"] by (cases "chan s c" rule: rev_cases; force)
  then show "do_action su (RxHead r) s \<noteq> None" using at r by (simp add: rx_thread_def rx_head_def after_def)
  fix t
  assume t: "do_action su (RxHead r) s = Some (Inr t)" "fit su src t"
  have "ch_good (su_g su) (legs s) (ended s) (chan s c)" using chan_at(2) [OF inv, of r c] at by simp
  from ch_good_head [OF this len] obtain p pl rest where h: "chan s c = frame_bytes (p, pl) @ rest"
    "pkt_good (su_g su) (legs s) (ended s) p pl" "ch_list (chan s c) = unat (leg_id p) # ch_list rest" .
  have id: "leg_id p = next_leg (rxc s)" using h(3) hd by (simp add: word_unat_eq_iff)
  have "take sizeof_millipacket (chan s c) = pkt_bytes p" by (simp add: h(1) frame_bytes_def)
  with t at r len pkt_good_size [OF h(2)] have "rpcs t r = Rbody c p 0 (unat (pkt_size p))" "next_leg (rxc t) = next_leg (rxc s)"
    by (auto simp: rx_thread_def rx_head_def rx_header_eq res_iff)
  with adv_body [OF t(2)] id show "adv su src (unat (next_leg (rxc s))) t" by metis
qed simp_all

lemma adv_loop:
  assumes f: "fit su src s" and at: "rpcs s r = Rloop c" and hd: "ch_list (chan s c) = unat (next_leg (rxc s)) # xs"
  shows "adv su src (unat (next_leg (rxc s))) s"
proof (cases "done_mbox (rxc s)")
  case True
  with f show ?thesis by (intro adv_now) auto
next
  case False
  show ?thesis
  proof (rule adv_act [OF f, of "RxTop r"])
    have r: "r < kthreadmax" using conn_thread [OF f, of r c] at by simp
    then show "do_action su (RxTop r) s \<noteq> None" using at by (simp add: rx_thread_def rx_top_def)
    fix t
    assume t: "do_action su (RxTop r) s = Some (Inr t)" "fit su src t"
    then have "rpcs t r = Rhead c" "next_leg (rxc t) = next_leg (rxc s)" "chan t = chan s"
      using at r False by (auto simp: rx_thread_def rx_top_def)
    with adv_head [OF t(2)] hd show "adv su src (unat (next_leg (rxc s))) t" by metis
  qed simp_all
qed

lemma conn_legs_flight:
  assumes inv: "sys_inv su src s" and c: "c < nat (worker_count (txc s))"
    and x: "x \<in> set (conn_legs (txc s) (wpcs s) (chan s) (owner s) (rpcs s) c)"
  shows "unat (next_leg (rxc s)) \<le> x"
proof -
  note i = sys_invD [OF inv]
  have "x \<in># tx_part (txc s) (wpcs s)" if "x \<in> set (tx_list (worker (txc s) c) (wpcs s c))"
    using that c by (auto simp: tx_part_def set_mset_sum tx_list_def tx_holds_def split: if_splits intro!: bexI [of _ c])
  moreover have "x \<in># ch_part (nat (worker_count (txc s))) (chan s) (owner s) (rpcs s)"
    if "x \<in> set (ch_list (drop (cut (owner s) (rpcs s) c) (chan s c)))"
    using that c by (auto simp: ch_part_def set_mset_sum ch_holds_list intro!: bexI [of _ c])
  moreover have "x \<in># rx_part (rpcs s)" if o: "owner s c = Some r" and l: "x \<in> set (rx_list c (rpcs s r))" for r
  proof -
    have "r < kthreadmax" using i(5) o by (auto simp: conn_inv_def)
    moreover from rx_list_mem [OF l] obtain p where "rx_pkt (rpcs s r) = Some p" "x = unat (leg_id p)" by blast
    ultimately show ?thesis by (auto simp: rx_part_def set_mset_sum rx_holds_def intro!: bexI [of _ r])
  qed
  ultimately have "x \<in># in_flight s" using x by (cases "owner s c") (auto simp: conn_legs_def in_flight_def)
  then show ?thesis using i(8) by auto
qed

lemma sorted_head:
  assumes "sorted_wrt (<) (xs :: nat list)" "x \<in> set xs" "\<forall>y \<in> set xs. x \<le> y"
  shows "\<exists>ys. xs = x # ys"
  using assms by (cases xs) force+

lemma adv_chan:
  assumes f: "fit su src s" and c: "c < nat (worker_count (txc s))"
    and x: "unat (next_leg (rxc s)) \<in> set (ch_list (drop (cut (owner s) (rpcs s) c) (chan s c)))"
  shows "adv su src (unat (next_leg (rxc s))) s"
proof (cases "done_mbox (rxc s)")
  case True
  with f show ?thesis by (intro adv_now) auto
next
  case nd: False
  note inv = fitD(1) [OF f]
  note i = sys_invD [OF inv]
  let ?n = "unat (next_leg (rxc s))" and ?L = "conn_legs (txc s) (wpcs s) (chan s) (owner s) (rpcs s) c"
  have "chan s c \<noteq> []" using x by (auto simp: ch_list_short sizeof_millipacket_def)
  then have "reply s c \<noteq> []" using i(14) c by (auto simp: serve_inv_def split: if_splits)
  then obtain r where r: "owner s c = Some r" "rx_conn (rpcs s r) = Some c" "rpcs s r \<noteq> Rhello c"
    using i(14) c nd by (auto simp: serve_inv_def)
  have "?n \<in> set ?L" using x by (simp add: conn_legs_def)
  moreover have "sorted_wrt (<) ?L" using i(13) c by (simp add: order_inv_def)
  ultimately obtain ys where L: "?L = ?n # ys" using sorted_head conn_legs_flight [OF inv c] by blast
  have "rx_pkt (rpcs s r) = None"
  proof (rule ccontr)
    assume "rx_pkt (rpcs s r) \<noteq> None"
    then obtain z where p: "rx_list c (rpcs s r) = [z]" using r(2) by (auto simp: rx_list_def)
    with L r(1) have "ys = ch_list (drop (cut (owner s) (rpcs s) c) (chan s c)) @ tx_list (worker (txc s) c) (wpcs s c)"
      by (simp add: conn_legs_def)
    with \<open>sorted_wrt (<) ?L\<close> L x show False by auto
  qed
  then consider "rpcs s r = Rloop c" | "rpcs s r = Rhead c" using r by (cases "rpcs s r") auto
  then show ?thesis
  proof cases
    case 1
    with L r(1) x have "\<exists>zs. ch_list (chan s c) = ?n # zs" by (cases "ch_list (chan s c)") (auto simp: conn_legs_def cut_def)
    with 1 adv_loop [OF f] show ?thesis by blast
  next
    case 2
    with L r(1) x have "\<exists>zs. ch_list (chan s c) = ?n # zs" by (cases "ch_list (chan s c)") (auto simp: conn_legs_def cut_def)
    with 2 adv_head [OF f] show ?thesis by blast
  qed
qed


lemma adv_tx_write:
  assumes f: "fit su src s" and w: "int w < worker_count (txc s)" and at: "wpcs s w = Wwrite d"
    and id: "unat (leg_id (tw_pkt (worker (txc s) w))) = unat (next_leg (rxc s))"
  shows "adv su src (unat (next_leg (rxc s))) s"
proof (rule adv_act [OF f, of "TxWrite w"])
  show "do_action su (TxWrite w) s \<noteq> None" using at w by (simp add: tx_write_def t_at_def after_def Let_def)
  fix t
  assume t: "do_action su (TxWrite w) s = Some (Inr t)" "fit su src t"
  note inv = fitD(1) [OF f]
  let ?n = "unat (next_leg (rxc s))" and ?t = "worker (txc s) w"
  have g: "pkt_good (su_g su) (legs s) (ended s) (tw_pkt ?t) (take (unat (pkt_size (tw_pkt ?t))) (tw_buffer ?t))"
    using tx_goodD [OF inv w] at by (simp add: tx_good_def)
  have cw: "w < nat (worker_count (txc s))" using w by simp
  have ch: "ch_good (su_g su) (legs s) (ended s) (drop (cut (owner s) (rpcs s) w) (chan s w))"
    "cut (owner s) (rpcs s) w \<le> length (chan s w)"
    using sys_invD(6) [OF inv] cw by (auto simp: chan_inv_def)
  have fr: "chan t w = chan s w @ frame_bytes (tw_pkt ?t, take (unat (pkt_size (tw_pkt ?t))) (tw_buffer ?t))"
    "rpcs t = rpcs s" "owner t = owner s" "rxc t = rxc s" "worker_count (txc t) = worker_count (txc s)"
    using t(1) at w by (auto simp: tx_write_def t_at_def res_iff Let_def txpush_wire_def txpush_written_def frame_bytes_def)
  have "?n \<in> set (ch_list (drop (cut (owner t) (rpcs t) w) (chan t w)))"
    using ch(2) ch_snoc(3) [OF ch(1) g] id by (simp add: fr)
  with adv_chan [OF t(2), of w] cw show "adv su src ?n t" by (simp add: fr)
qed simp_all

lemma adv_tx_push:
  assumes f: "fit su src s" and w: "int w < worker_count (txc s)" and at: "wpcs s w = Wpush d"
    and id: "unat (leg_id (tw_pkt (worker (txc s) w))) = unat (next_leg (rxc s))"
  shows "adv su src (unat (next_leg (rxc s))) s"
proof (rule adv_act [OF f, of "TxPush w"])
  show "do_action su (TxPush w) s \<noteq> None" using at w by (simp add: tx_push_def t_at_def after_def)
  fix t
  assume t: "do_action su (TxPush w) s = Some (Inr t)" "fit su src t"
  note inv = fitD(1) [OF f]
  note sl = cfg_slots [OF sys_invD(1) [OF inv] w]
  have "unat (pkt_size (tw_pkt (worker (txc s) w))) \<le> kfootsize"
    using tx_goodD [OF inv w] at by (auto simp: tx_good_def dest: pkt_good_size)
  with t(1) at w sl have "wpcs t w = Wwrite d" "tw_pkt (worker (txc t) w) = tw_pkt (worker (txc s) w)" "rxc t = rxc s"
    "worker_count (txc t) = worker_count (txc s)"
    by (auto simp: tx_push_def t_at_def res_iff txpush_begin_eq)
  with adv_tx_write [OF t(2), of w d] w id show "adv su src (unat (next_leg (rxc s))) t" by simp
qed simp_all

lemma adv_tx_loop:
  assumes f: "fit su src s" and w: "int w < worker_count (txc s)" and at: "wpcs s w = Wloop" "tx_state (txc s) w = CHR ''d''"
    and id: "unat (leg_id (tw_pkt (worker (txc s) w))) = unat (next_leg (rxc s))"
  shows "adv su src (unat (next_leg (rxc s))) s"
proof (rule adv_act [OF f, of "TxLoop w"])
  note sl = cfg_slots [OF sys_invD(1) [OF fitD(1) [OF f]] w]
  have sw: "sm_switch w (txc s) = Inr (Sm_push, tx_done (txc s))" using sl at by (simp add: sm_switch_def Let_def)
  then show "do_action su (TxLoop w) s \<noteq> None" using at w by (simp add: tx_loop_def t_at_def)
  fix t
  assume t: "do_action su (TxLoop w) s = Some (Inr t)" "fit su src t"
  then have "t = wgo w (Wpush (tx_done (txc s))) s (txc s)" using at w sw by (simp add: tx_loop_def t_at_def)
  with adv_tx_push [OF t(2), of w] w id show "adv su src (unat (next_leg (rxc s))) t" by simp
qed (use at in simp_all)

text \<open>Wherever the sequencer's leg is, it can be brought to the output.\<close>

lemma adv_flight:
  assumes f: "fit su src s" and lt: "unat (next_leg (rxc s)) < length (legs s)"
  shows "adv su src (unat (next_leg (rxc s))) s"
proof -
  note inv = fitD(1) [OF f]
  let ?n = "unat (next_leg (rxc s))"
  have "?n \<in># in_flight s" using sys_invD(8) [OF inv] lt by simp
  then consider (tx) w where "w < nat (worker_count (txc s))" "?n \<in># tx_holds (worker (txc s) w) (wpcs s w)"
    | (ch) c where "c < nat (worker_count (txc s))" "?n \<in># ch_holds (drop (cut (owner s) (rpcs s) c) (chan s c))"
    | (rx) r where "?n \<in># rx_holds (rpcs s r)"
    by (auto simp: in_flight_def tx_part_def ch_part_def rx_part_def set_mset_sum)
  then show ?thesis
  proof cases
    case tx
    then have w: "int w < worker_count (txc s)" and id: "unat (leg_id (tw_pkt (worker (txc s) w))) = ?n"
      by (auto simp: tx_holds_def split: if_splits)
    from tx(2) have "tx_state (txc s) w = CHR ''d'' \<or> is_Wwrite (wpcs s w)" by (auto simp: tx_holds_def tx_state_def split: if_splits)
    moreover have "\<not> (wpcs s w = Wexit \<and> tx_state (txc s) w = CHR ''d'')" using f tx(1) by (auto simp: fit_def stranded_def)
    ultimately consider d where "wpcs s w = Wwrite d" | d where "wpcs s w = Wpush d"
      | "wpcs s w = Wloop" "tx_state (txc s) w = CHR ''d''"
      using tx_goodD [OF inv w] by (cases "wpcs s w") (auto simp: tx_good_def tx_state_def)
    then show ?thesis using adv_tx_write [OF f w _ id] adv_tx_push [OF f w _ id] adv_tx_loop [OF f w _ _ id] by cases blast+
  next
    case ch
    then show ?thesis using adv_chan [OF f] by (simp add: ch_holds_list)
  next
    case rx
    then obtain p where p: "rx_pkt (rpcs s r) = Some p" "leg_id p = next_leg (rxc s)"
      by (auto simp: rx_holds_def word_unat_eq_iff split: option.splits)
    then show ?thesis
      using adv_body [OF f] adv_wait [OF f] adv_write [OF f] adv_op [OF f] adv_next [OF f] by (cases "rpcs s r") auto
  qed
qed


subsection \<open>Ingesting another leg\<close>

text \<open>Everything read was written, and the end of the input was not reached.\<close>

definition quiet :: "world \<Rightarrow> byte list \<Rightarrow> nat \<Rightarrow> sys \<Rightarrow> bool" where
  "quiet su src n s \<longleftrightarrow> fit su src s \<and> unat (next_leg (rxc s)) = n \<and> length (legs s) = n \<and> \<not> ended s"

lemma quietD: "quiet su src n s \<Longrightarrow> fit su src s" "quiet su src n s \<Longrightarrow> \<not> ended s"
  by (simp_all add: quiet_def)

lemma quiet_keep:
  "quiet su src n s \<Longrightarrow> fit su src t \<Longrightarrow> legs t = legs s \<and> ended t = ended s \<and> next_leg (rxc t) = next_leg (rxc s) \<Longrightarrow>
   quiet su src n t"
  by (simp add: quiet_def)

lemma adv_send:
  assumes q: "quiet su src n s" and at: "ipcs s = Isend w"
  shows "adv su src n s"
proof (rule adv_act [OF quietD(1) [OF q], of IngestSend])
  show "do_action su IngestSend s \<noteq> None" using at by (simp add: ingest_send_def after_def)
  fix t
  assume t: "do_action su IngestSend s = Some (Inr t)" "fit su src t"
  from send_result [OF fitD(1) [OF quietD(1) [OF q]] _ at] t(1)
  have "legs t = legs s @ [[]]" "next_leg (rxc t) = next_leg (rxc s)" by auto
  with adv_flight [OF t(2)] q show "adv su src n t" by (simp add: quiet_def)
qed (use at in simp_all)

lemma adv_load:
  assumes q: "quiet su src n s" and at: "ipcs s = Iload w k"
  shows "adv su src n s"
proof (rule adv_act [OF quietD(1) [OF q], of IngestLoad])
  have "\<not> gchecksums (su_g su)" using fitD(2) [OF quietD(1) [OF q]] by (simp add: peers_def)
  then show "do_action su IngestLoad s \<noteq> None"
    using at by (simp add: ingest_load_def load_leg_def ingest_feed_def feed_checksum_def after_def)
  fix t
  assume t: "do_action su IngestLoad s = Some (Inr t)" "fit su src t"
  from load_result [OF fitD(1) [OF quietD(1) [OF q]] _ at] t(1)
  consider (leg) x where "legs t = legs s @ [x]" "next_leg (rxc t) = next_leg (rxc s)"
    | (last) "legs t = legs s \<and> ended t = ended s \<and> next_leg (rxc t) = next_leg (rxc s)" "ipcs t = Isend w" by auto
  then show "adv su src n t"
  proof cases
    case leg
    with adv_flight [OF t(2)] q show ?thesis by (simp add: quiet_def)
  next
    case last
    with adv_send quiet_keep [OF q t(2)] show ?thesis by blast
  qed
qed (use at in simp_all)

lemma adv_fill:
  assumes q: "quiet su src n s" and at: "ipcs s = Ifill w"
  shows "adv su src n s"
proof (rule adv_act [OF quietD(1) [OF q], of IngestFill])
  show "do_action su IngestFill s \<noteq> None" using at by (simp add: ingest_read_def after_def)
  fix t
  assume t: "do_action su IngestFill s = Some (Inr t)" "fit su src t"
  then obtain k where "ipcs t = Iload w k" using at by (auto simp: ingest_read_def res_iff)
  with adv_load quiet_keep [OF q t(2)] ingest_keeps_legs(3) t(1) show "adv su src n t" by simp
qed simp_all

lemma conn_worker:
  assumes "sys_inv su src s" "owner s c \<noteq> None \<or> c \<in> set (backlog s)"
  shows "int c < worker_count (txc s)" "wpcs s c \<noteq> Wconn"
proof -
  have "c < nat (worker_count (txc s)) \<and> wpcs s c \<noteq> Wconn"
    using sys_invD(5) [OF assms(1)] assms(2) unfolding conn_inv_def by blast
  then show "int c < worker_count (txc s)" "wpcs s c \<noteq> Wconn" by auto
qed

lemma online_worker:
  assumes "sys_inv su src s" "live_inv s" "wpcs s c \<noteq> Wconn"
  shows "int c < worker_count (txc s)"
proof -
  have "owner s c \<noteq> None \<or> c \<in> set (backlog s)" using assms(2,3) unfolding live_inv_def by blast
  with assms(1) show ?thesis by (rule conn_worker)
qed

text \<open>A worker ready for a leg: online and idle.\<close>

definition ready :: "sys \<Rightarrow> nat \<Rightarrow> bool" where
  "ready s j \<longleftrightarrow> int j < worker_count (txc s) \<and> wpcs s j = Wloop \<and> tx_state (txc s) j = CHR ''i''"

text \<open>A worker in its start-up window is reset before the scan looks at it.\<close>

lemma adv_scan_at:
  assumes q: "quiet su src n s" and at: "ipcs s = Iscan k" and j: "ready s j"
    and go: "\<And>t. quiet su src n t \<Longrightarrow> ready t j \<Longrightarrow> worker_count (txc t) = worker_count (txc s) \<Longrightarrow>
      tx_state (txc s) k \<noteq> CHR ''i'' \<or> \<not> int k < worker_count (txc s) \<Longrightarrow>
      ipcs t = (if int k < worker_count (txc s) then Iscan (Suc k) else Iscan 0) \<Longrightarrow> adv su src n t"
  shows "adv su src n s"
proof -
  have main: "adv su src n u"
    if qu: "quiet su src n u" and au: "ipcs u = Iscan k" and ju: "ready u j" and nw: "wpcs u k \<noteq> Wwindow"
      and same: "worker_count (txc u) = worker_count (txc s)" "tx_state (txc u) k = tx_state (txc s) k" for u
  proof (rule adv_act [OF quietD(1) [OF qu], of IngestScan])
    show "do_action su IngestScan u \<noteq> None" using au by (simp add: ingest_scan_def after_def)
    show "\<And>k. ipcs u = Iscan k \<Longrightarrow> wpcs u k \<noteq> Wwindow" using au nw by simp
    fix t
    assume t: "do_action su IngestScan u = Some (Inr t)" "fit su src t"
    have k: "quiet su src n t" using quiet_keep [OF qu t(2)] ingest_keeps_legs(2) t(1) by simp
    have "worker_count (txc t) = worker_count (txc u)" "ready t j"
      using t(1) au ju by (auto simp: ingest_scan_def ready_def tx_state_def res_iff split: if_splits)
    moreover have "ipcs t = Ifill k \<or> (tx_state (txc s) k \<noteq> CHR ''i'' \<or> \<not> int k < worker_count (txc s)) \<and>
        ipcs t = (if int k < worker_count (txc s) then Iscan (Suc k) else Iscan 0)"
      using t(1) au same by (auto simp: ingest_scan_def res_iff split: if_splits)
    ultimately show "adv su src n t" using adv_fill [OF k] go [OF k] same(1) by metis
  qed simp_all
  show ?thesis
  proof (cases "wpcs s k = Wwindow \<and> int k < worker_count (txc s)")
    case True
    show ?thesis
    proof (rule adv_act [OF quietD(1) [OF q], of "TxReset k"])
      show "do_action su (TxReset k) s \<noteq> None" using True by (simp add: tx_reset_def t_at_def)
      fix t
      assume t: "do_action su (TxReset k) s = Some (Inr t)" "fit su src t"
      have "j \<noteq> k" using j True by (auto simp: ready_def)
      note sl = cfg_slots [OF sys_invD(1) [OF fitD(1) [OF quietD(1) [OF q]]], of k]
      have "wpcs t k = Wloop" "ipcs t = ipcs s" "worker_count (txc t) = worker_count (txc s)" "tx_state (txc t) k = tx_state (txc s) k"
        using t(1) True sl by (auto simp: tx_reset_def t_at_def sm_reset_def tx_state_def)
      moreover have "ready t j" using t(1) True sl j \<open>j \<noteq> k\<close> by (auto simp: tx_reset_def t_at_def sm_reset_def ready_def tx_state_def)
      moreover have "quiet su src n t" using quiet_keep [OF q t(2)] tx_frame_legs [OF tx_frames(3)] t(1) by simp
      ultimately show "adv su src n t" using main at by simp
    qed simp_all
  next
    case False
    show ?thesis
    proof (cases "wpcs s k = Wwindow")
      case True
      then have "int k < worker_count (txc s)"
        using online_worker [OF fitD(1,3) [OF quietD(1) [OF q]]] by simp
      with True False show ?thesis by simp
    next
      case nw: False
      with main [OF q at j] show ?thesis by blast
    qed
  qed
qed

lemma adv_scan_up:
  "quiet su src n s \<Longrightarrow> ipcs s = Iscan k \<Longrightarrow> ready s j \<Longrightarrow> k \<le> j \<Longrightarrow> adv su src n s"
proof (induction "j - k" arbitrary: s k rule: less_induct)
  case less
  show ?case
  proof (rule adv_scan_at [OF less.prems(1-3)])
    fix t
    assume t: "quiet su src n t" "ready t j" "tx_state (txc s) k \<noteq> CHR ''i'' \<or> \<not> int k < worker_count (txc s)"
      "ipcs t = (if int k < worker_count (txc s) then Iscan (Suc k) else Iscan 0)"
    have "k \<noteq> j" "int k < worker_count (txc s)" using t(3) less.prems(3,4) by (auto simp: ready_def)
    then show "adv su src n t" using less.hyps [OF _ t(1) _ t(2), of "Suc k"] t(4) less.prems(4) by simp
  qed
qed

lemma adv_scan:
  "quiet su src n s \<Longrightarrow> ipcs s = Iscan k \<Longrightarrow> ready s j \<Longrightarrow> adv su src n s"
proof (induction "nat (worker_count (txc s)) - k" arbitrary: s k rule: less_induct)
  case less
  show ?case
  proof (rule adv_scan_at [OF less.prems])
    fix t
    assume t: "quiet su src n t" "ready t j" "worker_count (txc t) = worker_count (txc s)"
      "ipcs t = (if int k < worker_count (txc s) then Iscan (Suc k) else Iscan 0)"
    show "adv su src n t"
    proof (cases "int k < worker_count (txc s)")
      case True
      then show ?thesis using less.hyps [OF _ t(1) _ t(2), of "Suc k"] t(3,4) by simp
    next
      case False
      then show ?thesis using adv_scan_up [OF t(1) _ t(2), of 0] t(4) by simp
    qed
  qed
qed

text \<open>With a ready worker the ingest thread can always hand out another leg, the last one included.\<close>

lemma adv_ready:
  assumes q: "quiet su src n s" and j: "ready s j"
  shows "adv su src n s"
proof (cases "ipcs s")
  case Itop
  have nd: "\<not> tx_done (txc s)" using quietD(2) [OF q] Itop by (simp add: ended_def)
  show ?thesis
  proof (rule adv_act [OF quietD(1) [OF q], of IngestTop])
    show "do_action su IngestTop s \<noteq> None" using Itop by (simp add: ingest_top_def)
    fix t
    assume t: "do_action su IngestTop s = Some (Inr t)" "fit su src t"
    then have "ipcs t = Iscan 0" "ready t j" using Itop nd j by (auto simp: ingest_top_def ready_def)
    with adv_scan quiet_keep [OF q t(2)] ingest_keeps_legs(1) t(1) show "adv su src n t" by simp
  qed simp_all
next
  case (Iscan k)
  with q j adv_scan show ?thesis by blast
next
  case (Ifill w)
  with q adv_fill show ?thesis by blast
next
  case (Iload w k)
  with q adv_load show ?thesis by blast
next
  case (Isend w)
  with q adv_send show ?thesis by blast
next
  case Iend
  with fitD(3) [OF quietD(1) [OF q]] quietD(2) [OF q] show ?thesis by (simp add: live_inv_def ended_def)
qed


subsection \<open>Bringing a worker online\<close>

lemma quiet_holds_nothing:
  assumes q: "quiet su src n s" and w: "int w < worker_count (txc s)"
  shows "tx_state (txc s) w \<noteq> CHR ''d''" "\<not> is_Wwrite (wpcs s w)"
proof -
  have "in_flight s = {#}" using sys_invD(8) [OF fitD(1) [OF quietD(1) [OF q]]] q by (simp add: quiet_def)
  then have "set_mset (tx_part (txc s) (wpcs s)) = {}" by (simp add: in_flight_def)
  then have "tx_holds (worker (txc s) w) (wpcs s w) = {#}" using w by (simp add: tx_part_def set_mset_sum)
  then show "tx_state (txc s) w \<noteq> CHR ''d''" "\<not> is_Wwrite (wpcs s w)"
    by (auto simp: tx_holds_def tx_state_def split: if_splits)
qed

lemma quiet_tx_act:
  assumes q: "quiet su src n s" and en: "do_action su a s \<noteq> None"
    and a: "a = TxConnect w \<or> a = TxOk w \<or> a = TxReset w \<or> a = TxFin w"
    and go: "\<And>t. do_action su a s = Some (Inr t) \<Longrightarrow> quiet su src n t \<Longrightarrow> tx_frame w s t \<Longrightarrow> adv su src n t"
  shows "adv su src n s"
proof (rule adv_act [OF quietD(1) [OF q] en])
  fix t
  assume t: "do_action su a s = Some (Inr t)" "fit su src t"
  have fr: "tx_frame w s t" using a t(1) tx_frames(1-3,7) by fastforce
  show "adv su src n t" by (rule go [OF t(1) quiet_keep [OF q t(2) tx_frame_legs [OF fr]] fr])
qed (use a in auto)

lemma adv_online:
  assumes q: "quiet su src n s" and w: "int w < worker_count (txc s)" and rep: "reply s w \<noteq> []" and on: "wpcs s w \<noteq> Wconn"
  shows "adv su src n s"
proof -
  note inv = fitD(1) [OF quietD(1) [OF q]]
  have reset: "adv su src n u" if u: "quiet su src n u" "int w < worker_count (txc u)" "wpcs u w = Wwindow" for u
  proof (rule quiet_tx_act [OF u(1), of "TxReset w" w])
    show "do_action su (TxReset w) u \<noteq> None" using u by (simp add: tx_reset_def t_at_def)
    fix t
    assume t: "do_action su (TxReset w) u = Some (Inr t)" "quiet su src n t"
    note inv' = fitD(1) [OF quietD(1) [OF u(1)]]
    have "tx_state (txc u) w = CHR ''i''" using tx_goodD [OF inv' u(2)] u(3) by (simp add: tx_good_def tx_state_def)
    then have "ready t w" using t(1) u cfg_slots [OF sys_invD(1) [OF inv'] u(2)]
      by (auto simp: tx_reset_def t_at_def sm_reset_def ready_def tx_state_def)
    with t(2) show "adv su src n t" by (rule adv_ready)
  qed simp
  note none = quiet_holds_nothing [OF q w]
  show ?thesis
  proof (cases "\<exists>v. ipcs s = Isend v")
    case True
    then show ?thesis using adv_send [OF q] by blast
  next
    case False
    then have "\<not> tx_done (txc s)" using quietD(2) [OF q] by (simp add: ended_def)
    then have nl: "\<not> leaving (wpcs s w)" using fitD(3) [OF quietD(1) [OF q]] unfolding live_inv_def by blast
    from on none nl tx_goodD [OF inv w]
    consider "wpcs s w = Wok" | "wpcs s w = Wwindow" | "wpcs s w = Wloop" "tx_state (txc s) w = CHR ''i''" | "wpcs s w = Wfin False"
      by (cases "wpcs s w") (auto simp: tx_good_def tx_state_def leaving_def)
    then show ?thesis
    proof cases
      case 1
      show ?thesis
      proof (rule quiet_tx_act [OF q, of "TxOk w" w])
        show "do_action su (TxOk w) s \<noteq> None" using 1 w rep by (simp add: tx_ok_def t_at_def after_def)
        fix t
        assume t: "do_action su (TxOk w) s = Some (Inr t)" "quiet su src n t" "tx_frame w s t"
        then have "wpcs t w = Wwindow" using 1 w rep by (auto simp: tx_ok_def t_at_def res_iff)
        moreover have "int w < worker_count (txc t)" using t(3) w by (simp add: tx_frame_def but_one_def)
        ultimately show "adv su src n t" using reset [OF t(2)] by blast
      qed simp
    next
      case 2
      with reset [OF q w] show ?thesis by blast
    next
      case 3
      with w adv_ready [OF q, of w] show ?thesis by (simp add: ready_def)
    next
      case 4
      show ?thesis
      proof (rule quiet_tx_act [OF q, of "TxFin w" w])
        show "do_action su (TxFin w) s \<noteq> None" using 4 w by (simp add: tx_fin_def t_at_def after_def)
        fix t
        assume t: "do_action su (TxFin w) s = Some (Inr t)" "quiet su src n t" "tx_frame w s t"
        then have "wpcs t w = Wloop" using 4 w by (auto simp: tx_fin_def t_at_def res_iff)
        moreover have "tx_state (txc t) w = CHR ''i''" using tx_fin_idle [OF inv] t(1) by simp
        moreover have "int w < worker_count (txc t)" using t(3) w by (simp add: tx_frame_def but_one_def)
        ultimately show "adv su src n t" using adv_ready [OF t(2), of w] by (simp add: ready_def)
      qed simp
    qed
  qed
qed


lemma quiet_not_done: "quiet su src n s \<Longrightarrow> \<not> done_mbox (rxc s)"
  using sys_invD(10) [OF fitD(1) [OF quietD(1)]] quietD(2) by (fastforce simp: done_inv_def)

lemma quiet_rx_act:
  assumes q: "quiet su src n s" and en: "do_action su a s \<noteq> None"
    and a: "a = RxTop r \<or> a = RxAccept r \<or> a = RxHello r" and pc: "\<And>c p. rpcs s r \<noteq> Rnext c p"
    and go: "\<And>t. do_action su a s = Some (Inr t) \<Longrightarrow> quiet su src n t \<Longrightarrow> rx_frame r s t \<Longrightarrow> adv su src n t"
  shows "adv su src n s"
proof (rule adv_act [OF quietD(1) [OF q] en])
  fix t
  assume t: "do_action su a s = Some (Inr t)" "fit su src t"
  have fr: "rx_frame r s t" using a t(1) rx_frames(1-3) by (fastforce simp: rx_thread_Some)
  then have "next_leg (rxc t) = next_leg (rxc s)" using pc by (simp add: rx_frame_def)
  with go [OF t(1) quiet_keep [OF q t(2)] fr] rx_frame_legs [OF fr] show "adv su src n t" by blast
qed (use a in auto)

lemma adv_hello:
  assumes q: "quiet su src n s" and at: "rpcs s r = Rhello c"
  shows "adv su src n s"
proof (rule quiet_rx_act [OF q, of "RxHello r" r])
  note f = quietD(1) [OF q]
  have own: "owner s c \<noteq> None \<or> c \<in> set (backlog s)" using owns [OF fitD(1) [OF f], of r c] at by simp
  have "r < kthreadmax" using conn_thread [OF f, of r c] at by simp
  then show "do_action su (RxHello r) s \<noteq> None" using at by (simp add: rx_thread_def rx_hello_def after_def)
  fix t
  assume t: "do_action su (RxHello r) s = Some (Inr t)" "quiet su src n t" "rx_frame r s t"
  then have "reply t c \<noteq> []" "txc t = txc s" "wpcs t = wpcs s" using at by (auto simp: rx_frame_def)
  with adv_online [OF t(2), of c] conn_worker [OF fitD(1) [OF f] own] show "adv su src n t" by simp
qed (use at in simp_all)

lemma adv_accept:
  assumes q: "quiet su src n s" and at: "rpcs s r = Raccept" "r < kthreadmax" "backlog s \<noteq> []"
  shows "adv su src n s"
proof (rule quiet_rx_act [OF q, of "RxAccept r" r])
  show "do_action su (RxAccept r) s \<noteq> None"
    using at by (cases "backlog s") (simp_all add: rx_thread_def rx_take_def after_def)
  fix t
  assume t: "quiet su src n t" "rx_frame r s t"
  then obtain c where "rpcs t r = Rhello c" using at by (auto simp: rx_frame_def)
  with t(1) show "adv su src n t" by (rule adv_hello)
qed (use at in simp_all)

lemma adv_top:
  assumes q: "quiet su src n s" and at: "rpcs s r = Rtop" "r < kthreadmax" "backlog s \<noteq> []"
  shows "adv su src n s"
proof (rule quiet_rx_act [OF q, of "RxTop r" r])
  show "do_action su (RxTop r) s \<noteq> None" using at by (simp add: rx_thread_def rx_top_def)
  fix t
  assume t: "do_action su (RxTop r) s = Some (Inr t)" "quiet su src n t" "rx_frame r s t"
  then have "rpcs t r = Raccept" using at quiet_not_done [OF q] by (auto simp: rx_thread_def rx_top_def)
  moreover have "backlog t = backlog s" using t(3) at by (simp add: rx_frame_def)
  ultimately show "adv su src n t" using adv_accept [OF t(2), of r] at by simp
qed (use at in simp_all)

lemma adv_owned:
  assumes q: "quiet su src n s" and own: "owner s c = Some r"
  shows "adv su src n s"
proof (cases "reply s c = []")
  case True
  with own fitD(3) [OF quietD(1) [OF q]] have "rpcs s r = Rhello c" unfolding live_inv_def by blast
  with q show ?thesis by (rule adv_hello)
next
  case False
  with adv_online [OF q] conn_worker [OF fitD(1) [OF quietD(1) [OF q]], of c] own show ?thesis by simp
qed

lemma adv_backlog:
  assumes q: "quiet su src n s" and bl: "backlog s \<noteq> []"
  shows "adv su src n s"
proof (cases "\<exists>c r. owner s c = Some r")
  case True
  with adv_owned [OF q] show ?thesis by blast
next
  case False
  note f = quietD(1) [OF q]
  have r: "0 < kthreadmax" by (simp add: kthreadmax_def)
  have "rx_conn (rpcs s 0) = None" using owns [OF fitD(1) [OF f], of 0] False by (cases "rx_conn (rpcs s 0)") auto
  moreover have "rpcs s 0 \<noteq> Rexit" using fitD(3) [OF f] quiet_not_done [OF q] unfolding live_inv_def by blast
  ultimately consider "rpcs s 0 = Rtop" | "rpcs s 0 = Raccept" by (cases "rpcs s 0") auto
  then show ?thesis using adv_top [OF q _ r bl] adv_accept [OF q _ r bl] by cases
qed

lemma adv_quiet:
  assumes q: "quiet su src n s"
  shows "adv su src n s"
proof (cases "(\<exists>c r. owner s c = Some r) \<or> backlog s \<noteq> []")
  case True
  with adv_owned [OF q] adv_backlog [OF q] show ?thesis by blast
next
  case False
  note f = quietD(1) [OF q]
  have w: "int 0 < worker_count (txc s)" using sys_invD(1) [OF fitD(1) [OF f]] by (simp add: cfg_inv_def)
  have pc: "wpcs s 0 = Wconn" using fitD(3) [OF f] False by (auto simp: live_inv_def)
  show ?thesis
  proof (rule quiet_tx_act [OF q, of "TxConnect 0" 0])
    show "do_action su (TxConnect 0) s \<noteq> None" using w pc by (simp add: tx_connect_def t_at_def after_def)
    fix t
    assume t: "quiet su src n t" "tx_frame 0 s t"
    then have "backlog t \<noteq> []" using pc by (simp add: tx_frame_def)
    with t(1) show "adv su src n t" by (rule adv_backlog)
  qed simp
qed

text \<open>In any fit state the sequencer can move on, unless the transfer is done.\<close>

lemma adv_fit:
  assumes f: "fit su src s"
  shows "adv su src (unat (next_leg (rxc s))) s"
proof (cases "done_mbox (rxc s) \<or> unat (next_leg (rxc s)) < length (legs s)")
  case True
  with adv_now [OF f] adv_flight [OF f] show ?thesis by blast
next
  case False
  note i = sys_invD [OF fitD(1) [OF f]]
  have eq: "unat (next_leg (rxc s)) = length (legs s)" using i(1) False by (auto simp: cfg_inv_def)
  have "\<not> (\<exists>r < kthreadmax. is_Rnext (rpcs s r))"
    using turn_leg [OF i(7)] is_Rnext_written has_written_turn False by blast
  with i(10) False eq have "\<not> ended s" by (simp add: done_inv_def)
  with f eq have "quiet su src (unat (next_leg (rxc s))) s" by (simp add: quiet_def)
  then show ?thesis by (rule adv_quiet)
qed

lemma fit_completes:
  "fit su src s \<Longrightarrow> \<exists>t. (calm_step su)\<^sup>*\<^sup>* s t \<and> fit su src t \<and> done_mbox (rxc t)"
proof (induction "length src + 2 - unat (next_leg (rxc s))" arbitrary: s rule: less_induct)
  case less
  from adv_fit [OF less.prems] obtain t where t: "(calm_step su)\<^sup>*\<^sup>* s t" "fit su src t"
    "done_mbox (rxc t) \<or> unat (next_leg (rxc s)) < unat (next_leg (rxc t))" by (auto simp: adv_def)
  show ?case
  proof (cases "done_mbox (rxc t)")
    case True
    with t show ?thesis by blast
  next
    case False
    have "unat (next_leg (rxc t)) \<le> length (legs t)"
      using sys_invD(1) [OF fitD(1) [OF t(2)]] by (simp add: cfg_inv_def)
    with fit_legs [OF t(2)] t(3) False
    have "length src + 2 - unat (next_leg (rxc t)) < length src + 2 - unat (next_leg (rxc s))" by linarith
    from less.hyps [OF this t(2)] t(1) show ?thesis by (meson rtranclp_trans)
  qed
qed


section \<open>Liveness\<close>

interpretation lively: invariant_system "\<lambda>s. sys_start su s \<and> fd_avail (inp s) = src" "calm_step su"
  "\<lambda>s. sys_inv su src s \<and> live_inv s \<and> legs_inv s"
  for su src
proof unfold_locales
  fix s
  assume "sys_start su s \<and> fd_avail (inp s) = src"
  then show "sys_inv su src s \<and> live_inv s \<and> legs_inv s"
    using sys_inv_start [of su s] by (auto simp: sys_start_def live_inv_def legs_inv_def leaving_def)
next
  fix s t
  assume s: "sys_inv su src s \<and> live_inv s \<and> legs_inv s" and step: "calm_step su s t"
  from step obtain a where "do_action su a s = Some (Inr t)" by (rule calm_stepE)
  with s step show "sys_inv su src t \<and> live_inv t \<and> legs_inv t"
    using sys_inv_step live_step legs_inv_step by blast
qed

lemma stranded_for_good:
  assumes "(calm_step su)\<^sup>*\<^sup>* s t" "sys_inv su src s" "stranded s"
  shows "sys_inv su src t \<and> stranded t"
  using assms
proof (induction rule: rtranclp_induct)
  case (step t u)
  then show ?case using sys_inv_step stranded_stays by (blast elim: calm_stepE)
qed simp

lemma reach_fit:
  assumes "calm_reach su src s" "peers su s" "gprbs_seed (su_g su) = 0" "length src < 2 ^ 64 - 2" "\<not> stranded s"
  shows "fit su src s"
proof -
  have "sys_inv su src s \<and> live_inv s \<and> legs_inv s"
    using assms(1) unfolding calm_reach_def by (rule lively.reach_inv)
  with assms show ?thesis by (simp add: fit_def)
qed



end
