(* ===== verification/Vm_Races.thy ===== *)
theory Vm_Races
  imports Vm_Schedules
begin

text \<open>
  Three races of the transmitter, each exhibited by a concrete schedule: a stranded shutdown leg, a
  transmitter that leaves before its shutdown leg, and a leg wiped by a worker's start-up.
\<close>

lemmas eval_simps = connect1_def feed1_def push1_def sink1_def run_simps conf_simps leg_simps start_simps
  small_kfootsize fill_bytes fill_empty rx_poll_def overwrite_0

section \<open>The shutdown leg can be stranded\<close>

text \<open>
  \<^verbatim>\<open>txshutdown\<close> raises \<^verbatim>\<open>done\<close> before it loads the last packet. A worker that looks in between finds
  itself idle with nothing left to do and ends; the packet is then loaded for a thread that is gone.
\<close>

definition strand1 :: "action list" where
  "strand1 = connect1 @ [TxReset 0] @ feed1 @ [TxLoop 0, IngestSend, IngestTop] @ map RxTop [0..<16]"

lemma strand1_run:
  "\<exists>t. calm_run world0 strand1 (sys0 []) = Some t \<and> \<not> done_mbox (rxc t) \<and> worker_count (txc t) = 1 \<and>
     wpcs t 0 = Wexit \<and> tx_state (txc t) 0 = CHR ''d'' \<and> ipcs t = Iend \<and> chan t 0 = [] \<and> backlog t = [] \<and>
     rpcs t 0 = Rhead 0 \<and> (\<forall>r. 0 < r \<and> r < 16 \<longrightarrow> rpcs t r = Raccept)"
  by (simp add: strand1_def eval_simps upt_rec, presburger)

text \<open>C9: a calm run can end in a deadlock with the transfer unfinished: every thread of both
  processes is blocked or has ended, the shutdown leg is loaded in a worker whose thread has
  ended, \<^verbatim>\<open>tx_poll\<close> waits for that worker for good, and the receiver never learns of the end.\<close>

theorem shutdown_can_strand:
  "\<exists>s. calm_reach world0 [] s \<and> (\<forall>a. do_action world0 a s = None) \<and> \<not> rx_poll (rxc s) \<and>
     tx_state (txc s) 0 = CHR ''d'' \<and> wpcs s 0 = Wexit \<and> tx_busy (txc s)"
proof -
  obtain t where run: "calm_run world0 strand1 (sys0 []) = Some t"
    and t: "\<not> done_mbox (rxc t)" "worker_count (txc t) = 1" "wpcs t 0 = Wexit" "tx_state (txc t) 0 = CHR ''d''"
      "ipcs t = Iend" "chan t 0 = []" "backlog t = []" "rpcs t 0 = Rhead 0"
    and acc: "\<And>r. 0 < r \<Longrightarrow> r < kthreadmax \<Longrightarrow> rpcs t r = Raccept"
    using strand1_run by (auto simp: kthreadmax_def)
  have "calm_reach world0 [] (sys0 [])" using sys0_reach [of "[]" world0] by simp
  with calm_run_reach [OF run] have "calm_reach world0 [] t" by (simp add: calm_reach_def)
  moreover have "do_action world0 a t = None" for a
  proof -
    have tx: "\<not> t_at t w pc" if "pc \<noteq> Wexit" for w pc using that t(2,3) by (cases w) (auto simp: t_at_def)
    have rx: "r < kthreadmax \<Longrightarrow> rpcs t r = (if r = 0 then Rhead 0 else Raccept)" for r using t(8) acc by simp
    show ?thesis
      by (cases a) (auto simp: run_simps(1-23) rx_op_def rx_step_def tx rx t(5-7) sizeof_millipacket_def split: wpc.splits)
  qed
  moreover have "tx_busy (txc t)" using t(2,4) by (simp add: tx_busy_def)
  ultimately show ?thesis using t by (auto simp: rx_poll_def)
qed

section \<open>The transmitter can leave early\<close>

text \<open>C11: the transmitter's poll can report the transfer complete before the shutdown leg is handed
  to any worker: after the flags are raised and before the packet is loaded every worker is
  idle and the end of input is flagged, so the process may exit and the receiver waits
  for a leg that is never sent.\<close>

theorem poll_before_shutdown_leg:
  "\<exists>s. calm_reach world0 [7, 8] s \<and> tx_poll [txc s] = Some 1 \<and> \<not> ended s \<and> \<not> rx_poll (rxc s) \<and>
     legs s = [[7, 8]]"
proof -
  let ?as = "connect1 @ [TxReset 0] @ feed1 @ push1 @ feed1"
  have "\<exists>t. calm_run world0 ?as (sys0 [Data [7, 8]]) = Some t \<and> tx_poll [txc t] = Some 1 \<and> \<not> ended t \<and>
      \<not> rx_poll (rxc t) \<and> legs t = [[7, 8]]"
    by (simp add: eval_simps tx_busy_def ended_def)
  moreover have "calm_reach world0 [7, 8] (sys0 [Data [7, 8]])" using sys0_reach [of "[Data [7, 8]]" world0] by simp
  ultimately show ?thesis using calm_run_reach unfolding calm_reach_def by blast
qed

section \<open>The start-up window loses data\<close>

text \<open>C10: a worker turns idle before it resets its packet. When the ingest thread dispatches to it in
  between, the reset wipes the size and the number of the leg just loaded: a run exists in
  which the receiver declares the transfer done with the input's bytes missing from the output.\<close>

theorem startup_window_loses_data:
  "\<exists>s. reach (\<lambda>s. sys_start world0 s \<and> fd_avail (inp s) = [7, 8]) (any_step world0) s \<and>
     rx_poll (rxc s) \<and> out s = []"
proof -
  let ?as = "connect1 @ feed1 @ [TxReset 0] @ push1 @ feed1 @ [IngestSend] @ push1 @
     [RxTop 0, RxHead 0] @ sink1 @ [RxNext 0, RxTop 0, RxHead 0] @ sink1"
  have "\<exists>t. run world0 ?as (sys0 [Data [7, 8]]) = Some t \<and> rx_poll (rxc t) \<and> out t = []"
    by (simp add: eval_simps)
  moreover have "sys_start world0 (sys0 [Data [7, 8]])" by (rule sys0_start) simp
  then have "reach (\<lambda>s. sys_start world0 s \<and> fd_avail (inp s) = [7, 8]) (any_step world0) (sys0 [Data [7, 8]])"
    by (intro reach.reach_init) (simp, simp add: sys0_def)
  ultimately show ?thesis using run_reach by blast
qed

end
