(* ===== verification/Spec2Isabelle.thy ===== *)
theory Spec2Isabelle
  imports Vm_Main Vm_Link Vm_Liveness Vm_Races
begin

text \<open>viamillipede\<close>

section \<open>From two command lines to a copied stream\<close>

text \<open>The world of two joined processes: the transmitter's options and what each side has at
  \<^verbatim>\<open>gcheckphrase\<close>.\<close>

definition joined :: "sockenv \<Rightarrow> globals \<Rightarrow> globals \<Rightarrow> byte list \<Rightarrow> byte list \<Rightarrow> world" where
  "joined env g g' mem mem' = \<lparr>su_env = env, su_g = g, tx_phrase = phrase_bytes g mem, rx_phrase = phrase_bytes g' mem'\<rparr>"

lemma rtrancl_reach: "(move)\<^sup>*\<^sup>* s t \<Longrightarrow> start s \<Longrightarrow> reach start move t"
  by (induction rule: rtranclp_induct) (auto intro: reach.intros)

lemma peers_steps: "(calm_step su)\<^sup>*\<^sup>* s t \<Longrightarrow> peers su s \<Longrightarrow> peers su t"
  by (induction rule: rtranclp_induct) (auto elim!: calm_stepE intro: peers_step)

lemma run_delivers:
  assumes start: "sys_start su s0" "peers su s0" and g: "gprbs_seed (su_g su) = 0" "gleg_limit (su_g su) \<le> 0"
    and len: "length (fd_avail (inp s0)) < 2 ^ 64 - 2" and run: "(calm_step su)\<^sup>*\<^sup>* s0 s"
  shows "(\<exists>rest. fd_avail (inp s0) = out s @ rest) \<and> (rx_poll (rxc s) \<longrightarrow> out s = fd_avail (inp s0)) \<and>
     (\<not> stranded s \<longrightarrow> (\<exists>t. (calm_step su)\<^sup>*\<^sup>* s t \<and> rx_poll (rxc t) \<and> out t = fd_avail (inp s0)))"
proof -
  let ?src = "fd_avail (inp s0)"
  have reach: "calm_reach su ?src s" unfolding calm_reach_def using run start(1) by (intro rtrancl_reach) auto
  have "\<exists>t. (calm_step su)\<^sup>*\<^sup>* s t \<and> rx_poll (rxc t) \<and> out t = ?src" if "\<not> stranded s"
  proof -
    from fit_completes [OF reach_fit [OF reach peers_steps [OF run start(2)] g(1) len that]]
    obtain t where t: "(calm_step su)\<^sup>*\<^sup>* s t" "fit su ?src t" "rx_poll (rxc t)" by (auto simp: rx_poll_def)
    with done_out [OF fitD(1) [OF t(2)] g t(3)] show ?thesis by blast
  qed
  with out_source [OF calm_reach_inv [OF reach] g(1)] done_out [OF calm_reach_inv [OF reach] g] show ?thesis by blast
qed

text \<open>C1: \<^verbatim>\<open>viamillipede tx <host> <port>\<close> and \<^verbatim>\<open>viamillipede rx <port>\<close> copy standard input to standard output:
  both command lines are accepted and both processes start; whatever their threads then do in a calm run,
  the output is a prefix of the input, it is the whole input once the receiver reports the end, and
  as long as no leg is stranded the run can be continued to that end.\<close>

theorem copies_stdin_to_stdout:
  assumes "host \<noteq> []" "0 < p" "p < 65535" "boots b" "boots b'" "fd_steady evs" "length (fd_avail evs) < 2 ^ 64 - 2"
  shows "\<exists>t r g tc rc g' tc' rc'.
     parse_args False [''viamillipede'', ''tx'', host, decimal p] = Some (Inr t) \<and>
     parse_args False [''viamillipede'', ''rx'', decimal p] = Some (Inr r) \<and>
     main_start b t = Inr (g, tc, rc, ps_io t, True) \<and> main_start b' r = Inr (g', tc', rc', ps_io r, False) \<and>
     (\<forall>s. (calm_step (joined env g g' mem mem'))\<^sup>*\<^sup>* (launched tc g' tc' rc' (ps_io r) evs) s \<longrightarrow>
        (\<exists>rest. fd_avail evs = out s @ rest) \<and> (rx_poll (rxc s) \<longrightarrow> out s = fd_avail evs) \<and>
        (\<not> stranded s \<longrightarrow>
           (\<exists>t. (calm_step (joined env g g' mem mem'))\<^sup>*\<^sup>* s t \<and> rx_poll (rxc t) \<and> out t = fd_avail evs)))"
proof -
  obtain t where t: "parse_args False [''viamillipede'', ''tx'', host, decimal p] = Some (Inr t)"
    "ps_g t = plain_globals\<lparr>mode := MODE_TX\<rparr>" "worker_count (ps_tx t) = 16" "ps_io t = plain_ioconf"
    using parse_tx [OF assms(1-3)] by (simp add: parse_start_def plain_txconf_def)
  have "p < 2 ^ 31" using assms(3) by simp
  from parse_rx [OF this] assms(2,3) obtain r where r: "parse_args False [''viamillipede'', ''rx'', decimal p] = Some (Inr r)"
    "ps_g r = plain_globals\<lparr>mode := MODE_RX\<rparr>" "ps_io r = plain_ioconf" by (simp add: parse_start_def)
  have m: "is_mode MODE_TX (ps_g t)" "\<not> is_mode MODE_RX (ps_g t)" "is_mode MODE_RX (ps_g r)" "\<not> is_mode MODE_TX (ps_g r)"
    by (simp_all add: t r is_mode_def MODE_TX_def MODE_RX_def)
  have w: "0 < worker_count (ps_tx t)" "terminate_port (ps_io t) = 0" "initiate_port (ps_io t) = 0" "terminate_port (ps_io r) = 0"
    by (simp_all add: t r plain_ioconf_def)
  let ?g = "(ps_g t)\<lparr>ginitiator_oneshot := 1\<rparr>" and ?g' = "ps_g r"
  let ?su = "joined env ?g ?g' mem mem'"
  from joined_start [OF parsed_wf [OF t(1)] m(1,2) w(1-3) assms(4) parsed_wf [OF r(1)] m(3,4) w(4) assms(5,6), of ?su]
  obtain tc rc tc' rc' where st: "main_start b t = Inr (?g, tc, rc, ps_io t, True)"
    "main_start b' r = Inr (?g', tc', rc', ps_io r, False)" "sys_start ?su (launched tc ?g' tc' rc' (ps_io r) evs)" .
  let ?s0 = "launched tc ?g' tc' rc' (ps_io r) evs"
  have "peers ?su ?s0" "gprbs_seed (su_g ?su) = 0" "gleg_limit (su_g ?su) \<le> 0" "inp ?s0 = evs"
    by (simp_all add: peers_def joined_def launched_def t r plain_globals_def plain_ioconf_def phrase_bytes_def)
  with run_delivers [OF st(3)] assms(7)
  have "\<forall>s. (calm_step ?su)\<^sup>*\<^sup>* ?s0 s \<longrightarrow>
      (\<exists>rest. fd_avail evs = out s @ rest) \<and> (rx_poll (rxc s) \<longrightarrow> out s = fd_avail evs) \<and>
      (\<not> stranded s \<longrightarrow> (\<exists>t. (calm_step ?su)\<^sup>*\<^sup>* s t \<and> rx_poll (rxc t) \<and> out t = fd_avail evs))" by simp
  with t(1) r(1) st(1,2) show ?thesis
    by (intro exI [of _ t] exI [of _ r] exI [of _ ?g] exI [of _ tc] exI [of _ rc] exI [of _ ?g'] exI [of _ tc'] exI [of _ rc']) simp
qed

theorem copies_stdin_to_stdout_witness:
  "\<exists>t r g tc rc g' tc' rc' u. parse_args False [''viamillipede'', ''tx'', ''localhost'', decimal 12323] = Some (Inr t) \<and>
     parse_args False [''viamillipede'', ''rx'', decimal 12323] = Some (Inr r) \<and>
     main_start boot0 t = Inr (g, tc, rc, ps_io t, True) \<and> main_start boot0 r = Inr (g', tc', rc', ps_io r, False) \<and>
     (calm_step (joined plain_env g g' [] []))\<^sup>*\<^sup>* (launched tc g' tc' rc' (ps_io r) [Data [7, 8]]) u \<and>
     rx_poll (rxc u) \<and> out u = [7, 8]"
proof -
  have b: "boots boot0" by (simp add: boots_def boot0_def tcp_recieve_prep_def plain_env_def)
  have h: "''localhost'' \<noteq> []" "(0 :: nat) < 12323" "(12323 :: nat) < 65535" "fd_steady [Data [7, 8]]"
    "length (fd_avail [Data [7, 8]]) < 2 ^ 64 - 2" by simp_all
  have free: "\<not> stranded (launched tc g tc' rc io evs)" for tc g tc' rc io evs
    by (simp add: stranded_def launched_def)
  from copies_stdin_to_stdout [OF h(1-3) b b h(4,5), of plain_env "[]" "[]"]
  obtain t r g tc rc g' tc' rc' where
    s: "parse_args False [''viamillipede'', ''tx'', ''localhost'', decimal 12323] = Some (Inr t)"
    "parse_args False [''viamillipede'', ''rx'', decimal 12323] = Some (Inr r)"
    "main_start boot0 t = Inr (g, tc, rc, ps_io t, True)" "main_start boot0 r = Inr (g', tc', rc', ps_io r, False)"
    and run: "\<forall>s. (calm_step (joined plain_env g g' [] []))\<^sup>*\<^sup>* (launched tc g' tc' rc' (ps_io r) [Data [7, 8]]) s \<longrightarrow>
      (\<not> stranded s \<longrightarrow> (\<exists>t. (calm_step (joined plain_env g g' [] []))\<^sup>*\<^sup>* s t \<and> rx_poll (rxc t) \<and> out t = fd_avail [Data [7, 8]]))"
    by blast
  from run free obtain u where "(calm_step (joined plain_env g g' [] []))\<^sup>*\<^sup>* (launched tc g' tc' rc' (ps_io r) [Data [7, 8]]) u"
    "rx_poll (rxc u)" "out u = [7, 8]" by force
  with s show ?thesis by blast
qed

end
